(* ===== verification/Prelude.thy ===== *)
theory Prelude
  imports Main "HOL-Library.Word" "HOL-Library.Monad_Syntax"
begin

unbundle bit_operations_syntax

section \<open>Shared types, faults and generic lemmas\<close>

text \<open>
  What every theory of the development shares: the names of the machine types,
  the ways a C++ call can fail to return normally, the three-way pointer value of
  a link that may not have been stored yet, and the lemmas on lists, options and
  address intervals that the component proofs rest on.
\<close>

type_synonym u8 = "8 word"
type_synonym u32 = "32 word"
type_synonym u64 = "64 word"
type_synonym addr = "64 word"

text \<open>
  A call that does not return a value has failed in one of five ways: an
  \<open>assert\<close> or \<open>FLARE_CHECK\<close> aborted the process, \<open>new\<close> threw
  \<open>std::bad_alloc\<close>, a container was asked for more elements than it can ever hold
  (\<open>std::length_error\<close>), library code threw another exception, or the code ran into undefined
  behaviour (a dangling or never-stored pointer, an index out of bounds, a division by zero).
\<close>

datatype fault = Assertion | Bad_alloc | Length_error | Thrown | Undefined

datatype link = Uninit | Null | Ptr addr

text \<open>
  The outcome of running code with loops: \<open>None\<close> when it does not terminate,
  \<open>Some (Inl e)\<close> when it fails with \<open>e\<close>, \<open>Some (Inr v)\<close> when it returns \<open>v\<close>.
\<close>

type_synonym 'a run = "(fault + 'a) option"

definition returns :: "'a \<Rightarrow> 'a run" where
  "returns v = Some (Inr v)"

definition fails :: "fault \<Rightarrow> 'a run" where
  "fails e = Some (Inl e)"

definition andthen :: "'a run \<Rightarrow> ('a \<Rightarrow> 'b run) \<Rightarrow> 'b run" where
  "andthen m f = (case m of None \<Rightarrow> None | Some (Inl e) \<Rightarrow> Some (Inl e) | Some (Inr v) \<Rightarrow> f v)"

lemma andthen_simps [simp]:
  "andthen (returns v) f = f v"
  "andthen (fails e) f = fails e"
  "andthen None f = None"
  by (simp_all add: andthen_def returns_def fails_def)

lemma returns_fails_eq [simp]:
  "returns u = returns v \<longleftrightarrow> u = v"
  "returns u \<noteq> fails e" "fails e \<noteq> returns u"
  "fails e = fails e' \<longleftrightarrow> e = e'"
  "returns u \<noteq> None" "None \<noteq> returns u" "fails e \<noteq> None" "None \<noteq> fails e"
  by (auto simp: returns_def fails_def)

lemma andthen_eq_returns:
  "andthen m f = returns v \<longleftrightarrow> (\<exists>u. m = returns u \<and> f u = returns v)"
  by (auto simp: andthen_def returns_def split: option.splits sum.splits)

text \<open>Sequencing is monotone, so a loop may recurse after it.\<close>

lemma andthen_mono [partial_function_mono]:
  assumes "mono_option B" and "\<And>y. mono_option (\<lambda>f. C y f)"
  shows "mono_option (\<lambda>f. andthen (B f) (\<lambda>y. C y f))"
proof -
  have eq: "andthen m f = Option.bind m (\<lambda>r. case r of Inl e \<Rightarrow> Some (Inl e) | Inr v \<Rightarrow> f v)"
    for m :: "'c run" and f :: "'c \<Rightarrow> 'd run"
    by (auto simp: andthen_def split: option.split sum.split)
  have "mono_option (\<lambda>f. case r of Inl e \<Rightarrow> Some (Inl e) | Inr v \<Rightarrow> C v f)" for r
    using assms(2) by (cases r) (simp_all add: option.const_mono)
  then show ?thesis unfolding eq by (intro bind_mono assms(1))
qed

lemma run_cases:
  obtains (diverging) "m = None" | (failing) e where "m = fails e" | (returning) v where "m = returns v"
proof (cases m)
  case (Some r)
  then show ?thesis using that by (cases r) (auto simp: fails_def returns_def)
qed (use that in auto)

text \<open>Sequencing of steps that cannot diverge.\<close>

definition sthen :: "fault + 'a \<Rightarrow> ('a \<Rightarrow> fault + 'b) \<Rightarrow> fault + 'b" where
  "sthen m f = (case m of Inl e \<Rightarrow> Inl e | Inr v \<Rightarrow> f v)"

lemma sthen_simps [simp]:
  "sthen (Inl e) f = Inl e"
  "sthen (Inr v) f = f v"
  by (simp_all add: sthen_def)

lemma sthen_eq_Inr: "sthen m f = Inr v \<longleftrightarrow> (\<exists>u. m = Inr u \<and> f u = Inr v)"
  by (cases m) simp_all

text \<open>A step that cannot diverge, as a run.\<close>

definition run_sum :: "fault + 'a \<Rightarrow> 'a run" where
  "run_sum r = Some r"

lemma run_sum_simps [simp]:
  "run_sum (Inl e) = fails e" "run_sum (Inr v) = returns v"
  by (simp_all add: run_sum_def fails_def returns_def)

named_theorems kv_simps \<open>what an operation of a key-value store does to lookups\<close>
named_theorems region_intros \<open>disjointness of address regions\<close>

subsection \<open>Lists and options\<close>

definition hd_opt :: "'a list \<Rightarrow> 'a option" where
  "hd_opt xs = (case xs of [] \<Rightarrow> None | x # _ \<Rightarrow> Some x)"

lemma hd_opt_simps [simp]:
  "hd_opt [] = None"
  "hd_opt (x # xs) = Some x"
  by (simp_all add: hd_opt_def)

lemma hd_opt_append:
  "hd_opt (xs @ ys) = (case hd_opt xs of None \<Rightarrow> hd_opt ys | Some x \<Rightarrow> Some x)"
  by (cases xs) simp_all

lemma hd_opt_eq_None [simp]: "hd_opt xs = None \<longleftrightarrow> xs = []"
  by (cases xs) simp_all

lemma hd_opt_in_set: "hd_opt xs = Some x \<Longrightarrow> x \<in> set xs"
  by (cases xs) auto

lemma hd_opt_filter_Some:
  "hd_opt (filter P xs) = Some y \<Longrightarrow> \<exists>us vs. xs = us @ y # vs \<and> P y \<and> (\<forall>u\<in>set us. \<not> P u)"
proof (induction xs)
  case (Cons a xs)
  show ?case
  proof (cases "P a")
    case True
    with Cons.prems show ?thesis by (intro exI [of _ "[]"] exI [of _ xs]) simp
  next
    case False
    with Cons obtain us vs where "xs = us @ y # vs" "P y" "\<forall>u\<in>set us. \<not> P u"
      by auto
    with False show ?thesis by (intro exI [of _ "a # us"] exI [of _ vs]) auto
  qed
qed simp

text \<open>On a sorted list a range of keys is a window.\<close>

lemma takeWhile_sorted:
  fixes f :: "'a \<Rightarrow> 'b::linorder"
  shows "sorted (map f xs) \<Longrightarrow> takeWhile (\<lambda>x. f x \<le> b) xs = filter (\<lambda>x. f x \<le> b) xs"
  by (induction xs) (auto intro!: filter_False [symmetric] dest: order_trans)

lemma dropWhile_sorted:
  fixes f :: "'a \<Rightarrow> 'b::linorder"
  shows "sorted (map f xs) \<Longrightarrow> dropWhile (\<lambda>x. f x < b) xs = filter (\<lambda>x. b \<le> f x) xs"
  by (induction xs) (auto simp: not_less intro!: filter_True [symmetric] intro: order_trans)

lemma sorted_window:
  fixes f :: "'a \<Rightarrow> 'b::linorder"
  assumes "sorted (map f xs)"
  shows "takeWhile (\<lambda>x. f x \<le> hi) (dropWhile (\<lambda>x. f x < lo) xs) = filter (\<lambda>x. lo \<le> f x \<and> f x \<le> hi) xs"
  using assms sorted_filter [of f xs] takeWhile_sorted [of f "filter (\<lambda>x. lo \<le> f x) xs" hi]
  by (simp add: dropWhile_sorted conj_commute)

subsection \<open>Decimal notation\<close>

text \<open>\<open>std::to_string\<close> of an unsigned and of a signed number.\<close>

fun show_nat :: "nat \<Rightarrow> string" where
  "show_nat n = (if n < 10 then [char_of (48 + n)] else show_nat (n div 10) @ [char_of (48 + n mod 10)])"

declare show_nat.simps [simp del]

definition show_int :: "int \<Rightarrow> string" where
  "show_int n = (if n < 0 then CHR ''-'' # show_nat (nat (- n)) else show_nat (nat n))"

lemma show_nat_digits: "c \<in> set (show_nat n) \<Longrightarrow> 48 \<le> (of_char c :: nat) \<and> (of_char c :: nat) \<le> 57"
proof (induction n rule: show_nat.induct)
  case (1 n)
  then show ?case by (cases "n < 10") (auto simp: show_nat.simps [of n])
qed

lemma show_nat_nonempty [simp]: "show_nat n \<noteq> []"
  by (subst show_nat.simps) simp

lemma length_show_nat: "n < 10 ^ k \<Longrightarrow> length (show_nat n) \<le> Suc k"
proof (induction k arbitrary: n)
  case (Suc k)
  show ?case
  proof (cases "n < 10")
    case False
    have "n div 10 < 10 ^ k" using Suc.prems by (simp add: less_mult_imp_div_less mult.commute)
    then show ?thesis using Suc.IH [of "n div 10"] False by (subst show_nat.simps) simp
  qed (subst show_nat.simps, simp)
qed (subst show_nat.simps, simp)

subsection \<open>Address regions\<close>

text \<open>
  A region is a base address and a size in bytes; \<open>bytes_of\<close> is the set of byte
  addresses it covers, as natural numbers, so that no wrap-around hides in it.
\<close>

type_synonym region = "addr \<times> u64"

definition bytes_of :: "region \<Rightarrow> nat set" where
  "bytes_of r = {unat (fst r) ..< unat (fst r) + unat (snd r)}"

definition disjoint_regions :: "region list \<Rightarrow> bool" where
  "disjoint_regions rs \<longleftrightarrow>
     (\<forall>i j. i < j \<longrightarrow> j < length rs \<longrightarrow> bytes_of (rs ! i) \<inter> bytes_of (rs ! j) = {})"

lemma disjoint_regions_Nil [simp]: "disjoint_regions []"
  by (simp add: disjoint_regions_def)

lemma disjoint_regions_Cons [simp]:
  "disjoint_regions (r # rs) \<longleftrightarrow>
     (\<forall>r'\<in>set rs. bytes_of r \<inter> bytes_of r' = {}) \<and> disjoint_regions rs"
proof
  assume d: "disjoint_regions (r # rs)"
  have "bytes_of r \<inter> bytes_of r' = {}" if "r' \<in> set rs" for r'
  proof -
    from that obtain j where "j < length rs" and "rs ! j = r'"
      by (auto simp: in_set_conv_nth)
    with d show ?thesis
      unfolding disjoint_regions_def by (metis length_Cons nth_Cons_0 nth_Cons_Suc not_less_eq zero_less_Suc)
  qed
  moreover from d have "disjoint_regions rs"
    unfolding disjoint_regions_def by (metis length_Cons nth_Cons_Suc not_less_eq)
  ultimately show "(\<forall>r'\<in>set rs. bytes_of r \<inter> bytes_of r' = {}) \<and> disjoint_regions rs"
    by blast
next
  assume h: "(\<forall>r'\<in>set rs. bytes_of r \<inter> bytes_of r' = {}) \<and> disjoint_regions rs"
  show "disjoint_regions (r # rs)"
    unfolding disjoint_regions_def
  proof (intro allI impI)
    fix i j :: nat
    assume ij: "i < j" and j: "j < length (r # rs)"
    then obtain j' where j': "j = Suc j'" by (cases j) auto
    show "bytes_of ((r # rs) ! i) \<inter> bytes_of ((r # rs) ! j) = {}"
      using h ij j j' by (cases i) (auto simp: disjoint_regions_def)
  qed
qed

lemma bytes_of_empty [simp]: "bytes_of (p, 0) = {}"
  by (simp add: bytes_of_def)

lemma base_in_bytes_of: "0 < n \<Longrightarrow> unat p \<in> bytes_of (p, n)"
  by (simp add: bytes_of_def unat_gt_0 word_neq_0_conv)

lemma fresh_base:
  assumes "bytes_of (p, n) \<inter> bytes_of (q, m) = {}" and "0 < n" and "0 < m"
  shows "p \<noteq> q"
  using assms base_in_bytes_of [of n p] base_in_bytes_of [of m q] by auto

end
