(* ===== verification/Arena.thy ===== *)
theory Arena
  imports Prelude
begin

unbundle bit_operations_syntax

section \<open>The arena allocator (cache/utils/arena.h, arena.cc)\<close>

text \<open>
  An arena hands out memory from 4096-byte blocks it takes from the C++ free store
  and frees them all at once in its destructor. The free store is the run-time
  system's: its state is the list of live blocks (base and size), and the function
  \<open>nw\<close> that picks the address of a new block is an argument of the definitions,
  with what \<open>operator new[]\<close> promises as the hypothesis \<open>new_ok\<close>. \<open>nw\<close> is \<open>None\<close> when
  the block is refused or when the vector of blocks cannot grow to hold it: either
  way \<open>std::bad_alloc\<close> leaves the function. \<open>dbg\<close> says whether \<open>assert\<close> is compiled in.

  The invariant \<open>arena_ok\<close> carries the regions handed out so far; the lemmas show
  that every allocation is aligned, lies in a block of the arena and is disjoint
  from all earlier ones, which is the contract \<open>region_allocator\<close> the skip list
  relies on.
\<close>

type_synonym free_store = "region list"
type_synonym new_fn = "free_store \<Rightarrow> u64 \<Rightarrow> addr option"

definition kBlockSize :: u64 where
  "kBlockSize = 4096"

record arena =
  alloc_ptr :: addr
  alloc_bytes_remaining :: u64
  blocks :: "addr list"
  memory_usage :: u64

definition Arena_ctor :: arena where
  "Arena_ctor = \<lparr>alloc_ptr = 0, alloc_bytes_remaining = 0, blocks = [], memory_usage = 0\<rparr>"

definition delete_block :: "addr \<Rightarrow> free_store \<Rightarrow> free_store" where
  "delete_block b fs = filter (\<lambda>r. fst r \<noteq> b) fs"

definition Arena_dtor :: "arena \<Rightarrow> free_store \<Rightarrow> free_store" where
  "Arena_dtor a fs = fold delete_block (blocks a) fs"

definition MemoryUsage :: "arena \<Rightarrow> u64" where
  "MemoryUsage a = memory_usage a"

definition AllocateNewBlock ::
  "new_fn \<Rightarrow> arena \<Rightarrow> free_store \<Rightarrow> u64 \<Rightarrow> fault + (addr \<times> arena \<times> free_store)" where
  "AllocateNewBlock nw a fs block_bytes =
     (case nw fs block_bytes of
        None \<Rightarrow> Inl Bad_alloc
      | Some p \<Rightarrow>
          Inr (p, a\<lparr>blocks := blocks a @ [p], memory_usage := memory_usage a + (block_bytes + 8)\<rparr>,
               (p, block_bytes) # fs))"

definition AllocateFallback ::
  "new_fn \<Rightarrow> arena \<Rightarrow> free_store \<Rightarrow> u64 \<Rightarrow> fault + (addr \<times> arena \<times> free_store)" where
  "AllocateFallback nw a fs bytes =
     (if bytes > kBlockSize div 4 then AllocateNewBlock nw a fs bytes
      else case AllocateNewBlock nw a fs kBlockSize of
        Inl e \<Rightarrow> Inl e
      | Inr (p, a', fs') \<Rightarrow>
          Inr (p, a'\<lparr>alloc_ptr := p + bytes, alloc_bytes_remaining := kBlockSize - bytes\<rparr>, fs'))"

definition Allocate ::
  "bool \<Rightarrow> new_fn \<Rightarrow> arena \<Rightarrow> free_store \<Rightarrow> u64 \<Rightarrow> fault + (addr \<times> arena \<times> free_store)" where
  "Allocate dbg nw a fs bytes =
     (if dbg \<and> \<not> bytes > 0 then Inl Assertion
      else if bytes \<le> alloc_bytes_remaining a then
        Inr (alloc_ptr a,
             a\<lparr>alloc_ptr := alloc_ptr a + bytes,
               alloc_bytes_remaining := alloc_bytes_remaining a - bytes\<rparr>, fs)
      else AllocateFallback nw a fs bytes)"

definition AllocateAligned ::
  "bool \<Rightarrow> new_fn \<Rightarrow> arena \<Rightarrow> free_store \<Rightarrow> u64 \<Rightarrow> fault + (addr \<times> arena \<times> free_store)" where
  "AllocateAligned dbg nw a fs bytes =
     (let align = 8;
          current_mod = alloc_ptr a AND (align - 1);
          slop = (if current_mod = 0 then 0 else align - current_mod);
          needed = bytes + slop;
          result =
            (if needed \<le> alloc_bytes_remaining a then
               Inr (alloc_ptr a + slop,
                    a\<lparr>alloc_ptr := alloc_ptr a + needed,
                      alloc_bytes_remaining := alloc_bytes_remaining a - needed\<rparr>, fs)
             else AllocateFallback nw a fs bytes)
      in case result of
           Inl e \<Rightarrow> Inl e
         | Inr (p, a', fs') \<Rightarrow>
             if dbg \<and> p AND (align - 1) \<noteq> 0 then Inl Assertion else Inr (p, a', fs'))"

subsection \<open>The free store's promise and the arena's invariant\<close>

definition new_ok :: "new_fn \<Rightarrow> bool" where
  "new_ok nw \<longleftrightarrow>
     (\<forall>fs n p. nw fs n = Some p \<longrightarrow>
        p \<noteq> 0 \<and> unat p mod 16 = 0 \<and> unat p + unat n < 2 ^ 64 \<and>
        p \<notin> fst ` set fs \<and> (\<forall>r\<in>set fs. bytes_of (p, n) \<inter> bytes_of r = {}))"

definition store_ok :: "free_store \<Rightarrow> bool" where
  "store_ok fs \<longleftrightarrow>
     disjoint_regions fs \<and> distinct (map fst fs) \<and> (\<forall>(p, n)\<in>set fs. unat p + unat n < 2 ^ 64)"

definition in_block :: "arena \<Rightarrow> free_store \<Rightarrow> region \<Rightarrow> bool" where
  "in_block a fs x \<longleftrightarrow> (\<exists>r\<in>set fs. fst r \<in> set (blocks a) \<and> bytes_of x \<subseteq> bytes_of r)"

definition free_region :: "arena \<Rightarrow> region" where
  "free_region a = (alloc_ptr a, alloc_bytes_remaining a)"

definition arena_ok :: "arena \<Rightarrow> free_store \<Rightarrow> region list \<Rightarrow> bool" where
  "arena_ok a fs R \<longleftrightarrow>
     store_ok fs \<and> distinct (blocks a) \<and> set (blocks a) \<subseteq> fst ` set fs \<and>
     (alloc_bytes_remaining a = 0 \<or> in_block a fs (free_region a)) \<and>
     (\<forall>x\<in>set R. in_block a fs x \<and> bytes_of x \<inter> bytes_of (free_region a) = {}) \<and>
     disjoint_regions R \<and>
     memory_usage a = (\<Sum>b\<leftarrow>blocks a. the (map_of fs b) + 8)"

lemma arena_ok_ctor: "store_ok fs \<Longrightarrow> arena_ok Arena_ctor fs []"
  by (simp add: arena_ok_def Arena_ctor_def)

lemma store_ok_Cons:
  "store_ok fs \<Longrightarrow> p \<notin> fst ` set fs \<Longrightarrow> unat p + unat n < 2 ^ 64 \<Longrightarrow>
   (\<forall>r\<in>set fs. bytes_of (p, n) \<inter> bytes_of r = {}) \<Longrightarrow> store_ok ((p, n) # fs)"
  by (auto simp: store_ok_def)

text \<open>A new block keeps the invariant and its bytes are disjoint from all that was handed out.\<close>

lemma AllocateNewBlock_ok:
  assumes nw: "new_ok nw" and ok: "arena_ok a fs R"
    and r: "AllocateNewBlock nw a fs n = Inr (p, a', fs')"
  shows "arena_ok a' fs' R" and "fs' = (p, n) # fs" and "blocks a' = blocks a @ [p]"
    and "free_region a' = free_region a"
    and "\<forall>x\<in>set R. bytes_of (p, n) \<inter> bytes_of x = {}"
    and "bytes_of (p, n) \<inter> bytes_of (free_region a) = {}"
    and "unat p mod 16 = 0" and "unat p + unat n < 2 ^ 64"
proof -
  have nwp: "nw fs n = Some p" and fs': "fs' = (p, n) # fs"
    and a': "a' = a\<lparr>blocks := blocks a @ [p], memory_usage := memory_usage a + (n + 8)\<rparr>"
    using r by (auto simp: AllocateNewBlock_def split: option.splits)
  have np: "unat p mod 16 = 0" "unat p + unat n < 2 ^ 64" "p \<notin> fst ` set fs"
    "\<forall>r\<in>set fs. bytes_of (p, n) \<inter> bytes_of r = {}"
    using nw nwp unfolding new_ok_def by blast+
  have mono: "in_block a' fs' x" if "in_block a fs x" for x
    using that by (auto simp: in_block_def a' fs')
  have sep: "bytes_of (p, n) \<inter> bytes_of x = {}" if "in_block a fs x" for x
    using that np(4) unfolding in_block_def by blast
  have pb: "p \<notin> set (blocks a)" using ok np(3) by (auto simp: arena_ok_def)
  have sum: "(\<Sum>b\<leftarrow>blocks a. the (map_of fs' b) + 8) = (\<Sum>b\<leftarrow>blocks a. the (map_of fs b) + 8)"
    using pb by (intro arg_cong [of _ _ sum_list] map_cong) (auto simp: fs')
  show "arena_ok a' fs' R"
    unfolding arena_ok_def
  proof (intro conjI)
    show "store_ok fs'"
      using ok np fs' store_ok_Cons by (simp add: arena_ok_def)
    show "memory_usage a' = (\<Sum>b\<leftarrow>blocks a'. the (map_of fs' b) + 8)"
      using ok sum by (simp add: a' arena_ok_def) (simp add: fs' add.commute)
  qed (use ok pb mono in \<open>auto simp: arena_ok_def a' fs' free_region_def\<close>)
  show "fs' = (p, n) # fs" by (rule fs')
  show "blocks a' = blocks a @ [p]" "free_region a' = free_region a"
    by (simp_all add: a' free_region_def)
  show "\<forall>x\<in>set R. bytes_of (p, n) \<inter> bytes_of x = {}"
    using ok sep by (auto simp: arena_ok_def)
  show "bytes_of (p, n) \<inter> bytes_of (free_region a) = {}"
    using ok sep [of "free_region a"] by (auto simp: arena_ok_def free_region_def)
  show "unat p mod 16 = 0" "unat p + unat n < 2 ^ 64" by (rule np)+
qed

subsection \<open>Carving a request out of the current block\<close>

lemma free_region_no_wrap:
  assumes "arena_ok a fs R" and "alloc_bytes_remaining a \<noteq> 0"
  shows "unat (alloc_ptr a) + unat (alloc_bytes_remaining a) < 2 ^ 64"
proof -
  have inb: "in_block a fs (free_region a)" using assms by (simp add: arena_ok_def)
  then obtain q m where qm: "(q, m) \<in> set fs" and sub: "bytes_of (free_region a) \<subseteq> bytes_of (q, m)"
    by (auto simp: in_block_def)
  have "0 < unat (alloc_bytes_remaining a)" using assms(2) by (simp add: unat_gt_0)
  then have "unat (alloc_ptr a) + unat (alloc_bytes_remaining a) - 1 \<in> bytes_of (free_region a)"
    unfolding bytes_of_def free_region_def by auto
  with sub have "unat (alloc_ptr a) + unat (alloc_bytes_remaining a) - 1 < unat q + unat m"
    by (auto simp: bytes_of_def)
  moreover have "unat q + unat m < 2 ^ 64"
    using assms(1) qm by (auto simp: arena_ok_def store_ok_def)
  ultimately show ?thesis by linarith
qed

lemma arena_carve:
  assumes ok: "arena_ok a fs R" and n: "0 < n"
    and fit: "unat off + unat n \<le> unat (alloc_bytes_remaining a)"
  defines "a' \<equiv> a\<lparr>alloc_ptr := alloc_ptr a + (n + off),
                  alloc_bytes_remaining := alloc_bytes_remaining a - (n + off)\<rparr>"
  shows "arena_ok a' fs ((alloc_ptr a + off, n) # R)"
proof -
  let ?ptr = "alloc_ptr a" and ?rem = "alloc_bytes_remaining a"
  have n0: "0 < unat n" using n by (simp add: unat_gt_0)
  then have rem: "?rem \<noteq> 0" using fit by auto
  have nw: "unat ?ptr + unat ?rem < 2 ^ 64" using free_region_no_wrap [OF ok rem] .
  have s: "unat (n + off) = unat n + unat off"
    using fit unsigned_less [of ?rem, where ?'a = nat] by (simp add: unat_word_ariths)
  have p1: "unat (?ptr + off) = unat ?ptr + unat off"
    and p2: "unat (?ptr + (n + off)) = unat ?ptr + unat n + unat off"
    using fit nw s by (simp_all add: unat_word_ariths(1) [of ?ptr])
  have r1: "unat (?rem - (n + off)) = unat ?rem - (unat n + unat off)"
    using fit s by (simp add: unat_sub_if')
  have new_sub: "bytes_of (?ptr + off, n) \<subseteq> bytes_of (free_region a)"
    using fit by (auto simp: bytes_of_def free_region_def p1)
  have free_sub: "bytes_of (free_region a') \<subseteq> bytes_of (free_region a)"
    using fit by (auto simp: bytes_of_def free_region_def a'_def p2 r1)
  have sep: "bytes_of (?ptr + off, n) \<inter> bytes_of (free_region a') = {}"
    by (auto simp: bytes_of_def free_region_def a'_def p1 p2)
  have blk: "in_block a fs (free_region a)" using ok rem by (simp add: arena_ok_def)
  have inb: "in_block a' fs x" if "in_block a fs y" and "bytes_of x \<subseteq> bytes_of y" for x y
    using that by (auto simp: in_block_def a'_def)
  have old: "in_block a' fs x \<and> bytes_of x \<inter> bytes_of (free_region a') = {}" if "x \<in> set R" for x
  proof -
    have "in_block a fs x" and "bytes_of x \<inter> bytes_of (free_region a) = {}"
      using ok that by (auto simp: arena_ok_def)
    then show ?thesis using inb [of x x] free_sub by blast
  qed
  show ?thesis
    unfolding arena_ok_def
  proof (intro conjI)
    show "alloc_bytes_remaining a' = 0 \<or> in_block a' fs (free_region a')"
      using inb [OF blk free_sub] by simp
    show "\<forall>x\<in>set ((?ptr + off, n) # R). in_block a' fs x \<and> bytes_of x \<inter> bytes_of (free_region a') = {}"
      using old inb [OF blk new_sub] sep by simp
    show "disjoint_regions ((?ptr + off, n) # R)"
      using ok new_sub by (auto simp: arena_ok_def)
  qed (use ok in \<open>simp_all add: arena_ok_def a'_def\<close>)
qed

lemma AllocateFallback_ok:
  assumes nw: "new_ok nw" and ok: "arena_ok a fs R" and n: "0 < n"
    and r: "AllocateFallback nw a fs n = Inr (p, a', fs')"
  shows "arena_ok a' fs' ((p, n) # R)" and "unat p mod 16 = 0"
proof -
  show "unat p mod 16 = 0"
    using r AllocateNewBlock_ok(7) [OF nw ok]
    by (auto simp: AllocateFallback_def split: if_splits sum.splits)
  show "arena_ok a' fs' ((p, n) # R)"
  proof (cases "n > kBlockSize div 4")
    case True
    then have nb: "AllocateNewBlock nw a fs n = Inr (p, a', fs')"
      using r by (simp add: AllocateFallback_def)
    note b = AllocateNewBlock_ok [OF nw ok nb]
    have "in_block a' fs' (p, n)" using b(2,3) by (simp add: in_block_def)
    then show ?thesis using b by (auto simp: arena_ok_def)
  next
    case False
    then obtain a1 where nb: "AllocateNewBlock nw a fs kBlockSize = Inr (p, a1, fs')"
      and a': "a' = a1\<lparr>alloc_ptr := p + n, alloc_bytes_remaining := kBlockSize - n\<rparr>"
      using r by (auto simp: AllocateFallback_def split: sum.splits)
    note b = AllocateNewBlock_ok [OF nw ok nb]
    let ?a2 = "a1\<lparr>alloc_ptr := p, alloc_bytes_remaining := kBlockSize\<rparr>"
    have "in_block ?a2 fs' (p, kBlockSize)" using b(2,3) by (simp add: in_block_def)
    moreover have "bytes_of x \<inter> bytes_of (p, kBlockSize) = {}" if "x \<in> set R" for x
      using b(5) that by blast
    ultimately have ok2: "arena_ok ?a2 fs' R"
      using b(1) by (auto simp: arena_ok_def free_region_def in_block_def)
    have "unat n \<le> unat kBlockSize"
      using False by (simp add: kBlockSize_def word_less_nat_alt)
    then show ?thesis using arena_carve [OF ok2 n, of 0] by (simp add: a')
  qed
qed

subsection \<open>Alignment\<close>

lemma mod_eq_0_mult_8: "m mod 16 = 0 \<Longrightarrow> m mod 8 = (0 :: nat)"
  by presburger

definition align_slop :: "addr \<Rightarrow> u64" where
  "align_slop p = (if p AND 7 = 0 then 0 else 8 - (p AND 7))"

lemma round_up_mod_8: "(x + (8 - x mod 8) mod 8) mod 8 = (0 :: nat)"
proof -
  have "(x mod 8 + (8 - x mod 8) mod 8) mod 8 = 0"
  proof (cases "x mod 8 = 0")
    case False
    then have "(8 - x mod 8) mod 8 = 8 - x mod 8" by simp
    moreover have "x mod 8 + (8 - x mod 8) = 8" by simp
    ultimately show ?thesis by simp
  qed simp
  then show ?thesis by (simp only: mod_add_left_eq)
qed

lemma unat_and_7: "unat (p AND 7 :: u64) = unat p mod 8"
proof -
  have "p AND 7 = take_bit 3 p"
    by (simp add: take_bit_eq_mask mask_eq_exp_minus_1)
  then have "unat (p AND 7) = take_bit 3 (unat p)"
    by (simp only: unsigned_take_bit_eq)
  then show ?thesis by (simp add: take_bit_eq_mod)
qed

lemma and_7_eq_0: "p AND 7 = (0 :: u64) \<longleftrightarrow> unat p mod 8 = 0"
  by (metis unat_and_7 unat_eq_0)

lemma unat_align_slop: "unat (align_slop p) = (8 - unat p mod 8) mod 8"
proof (cases "unat p mod 8 = 0")
  case True
  then show ?thesis by (simp add: align_slop_def and_7_eq_0)
next
  case False
  then show ?thesis
    by (simp add: align_slop_def and_7_eq_0 unat_sub_if' unat_and_7)
qed

lemma align_slop_less: "unat (align_slop p) < 8"
  by (simp add: unat_align_slop)

lemma AllocateAligned_unfold:
  "AllocateAligned dbg nw a fs n =
     (case (if n + align_slop (alloc_ptr a) \<le> alloc_bytes_remaining a then
              Inr (alloc_ptr a + align_slop (alloc_ptr a),
                   a\<lparr>alloc_ptr := alloc_ptr a + (n + align_slop (alloc_ptr a)),
                     alloc_bytes_remaining :=
                       alloc_bytes_remaining a - (n + align_slop (alloc_ptr a))\<rparr>, fs)
            else AllocateFallback nw a fs n) of
        Inl e \<Rightarrow> Inl e
      | Inr (p, a', fs') \<Rightarrow>
          if dbg \<and> unat p mod 8 \<noteq> 0 then Inl Assertion else Inr (p, a', fs'))"
proof -
  have "(8 :: u64) - 1 = 7" by simp
  then show ?thesis
    unfolding AllocateAligned_def Let_def align_slop_def and_7_eq_0 [symmetric] by (simp only:)
qed

lemma AllocateAligned_fast:
  assumes ok: "arena_ok a fs R" and n: "0 < n" and small: "unat n + 8 \<le> 2 ^ 64"
    and fit: "n + align_slop (alloc_ptr a) \<le> alloc_bytes_remaining a"
  shows "unat (align_slop (alloc_ptr a)) + unat n \<le> unat (alloc_bytes_remaining a)"
    and "unat (alloc_ptr a + align_slop (alloc_ptr a)) mod 8 = 0"
proof -
  let ?s = "align_slop (alloc_ptr a)"
  have "unat (n + ?s) = unat n + unat ?s"
    using small align_slop_less [of "alloc_ptr a"] by (simp add: unat_word_ariths)
  then show le: "unat ?s + unat n \<le> unat (alloc_bytes_remaining a)"
    using fit by (simp add: word_le_nat_alt)
  have "0 < unat n" using n by (simp add: unat_gt_0)
  then have "alloc_bytes_remaining a \<noteq> 0" using le by auto
  then have "unat (alloc_ptr a) + unat ?s < 2 ^ 64"
    using free_region_no_wrap [OF ok] le by linarith
  then have "unat (alloc_ptr a + ?s) = unat (alloc_ptr a) + (8 - unat (alloc_ptr a) mod 8) mod 8"
    by (simp add: unat_word_ariths unat_align_slop)
  then show "unat (alloc_ptr a + ?s) mod 8 = 0"
    by (simp only: round_up_mod_8)
qed

lemma AllocateAligned_ok:
  assumes nw: "new_ok nw" and ok: "arena_ok a fs R" and n: "0 < n" and small: "unat n + 8 \<le> 2 ^ 64"
    and r: "AllocateAligned dbg nw a fs n = Inr (p, a', fs')"
  shows "arena_ok a' fs' ((p, n) # R)" and "unat p mod 8 = 0"
proof -
  let ?s = "align_slop (alloc_ptr a)"
  have "arena_ok a' fs' ((p, n) # R) \<and> unat p mod 8 = 0"
  proof (cases "n + ?s \<le> alloc_bytes_remaining a")
    case True
    note f = AllocateAligned_fast [OF ok n small True]
    show ?thesis
      using r True f(2) arena_carve [OF ok n f(1)]
      by (simp add: AllocateAligned_unfold split: if_splits)
  next
    case False
    then have "AllocateFallback nw a fs n = Inr (p, a', fs')"
      using r by (auto simp: AllocateAligned_unfold split: sum.splits if_splits)
    then show ?thesis using AllocateFallback_ok [OF nw ok n] by (auto intro: mod_eq_0_mult_8)
  qed
  then show "arena_ok a' fs' ((p, n) # R)" and "unat p mod 8 = 0" by simp_all
qed

lemma AllocateAligned_fault:
  assumes nw: "new_ok nw" and ok: "arena_ok a fs R" and n: "0 < n" and small: "unat n + 8 \<le> 2 ^ 64"
    and r: "AllocateAligned dbg nw a fs n = Inl e"
  shows "e = Bad_alloc"
proof (cases "n + align_slop (alloc_ptr a) \<le> alloc_bytes_remaining a")
  case True
  then show ?thesis
    using r AllocateAligned_fast(2) [OF ok n small True]
    by (simp add: AllocateAligned_unfold split: if_splits)
next
  case False
  show ?thesis
  proof (cases "AllocateFallback nw a fs n")
    case (Inl e')
    then have "e' = Bad_alloc"
      by (auto simp: AllocateFallback_def AllocateNewBlock_def split: if_splits option.splits sum.splits)
    then show ?thesis using r Inl False by (simp add: AllocateAligned_unfold)
  next
    case (Inr x)
    obtain p a' fs' where x: "x = (p, a', fs')" by (cases x)
    have "unat p mod 8 = 0"
      using AllocateFallback_ok(2) [OF nw ok n] Inr x by (auto intro: mod_eq_0_mult_8)
    then show ?thesis using r Inr x False by (simp add: AllocateAligned_unfold)
  qed
qed

subsection \<open>The contract of an allocator\<close>

text \<open>
  What a client of an allocator relies on: in a state that has handed out the regions
  \<open>R\<close>, these are pairwise disjoint and not empty, and a successful request adds its
  region to them. Freshness of every returned address follows.
\<close>

locale region_allocator =
  fixes alloc :: "'s \<Rightarrow> u64 \<Rightarrow> fault + (addr \<times> 's)"
    and ok :: "'s \<Rightarrow> region list \<Rightarrow> bool"
    and admissible :: "u64 \<Rightarrow> bool"
  assumes alloc_ok: "ok s R \<Longrightarrow> admissible n \<Longrightarrow> alloc s n = Inr (p, s') \<Longrightarrow> ok s' ((p, n) # R)"
    and ok_disjoint: "ok s R \<Longrightarrow> disjoint_regions R"
    and ok_nonempty: "ok s R \<Longrightarrow> r \<in> set R \<Longrightarrow> 0 < snd r"
begin

lemma alloc_fresh:
  assumes "ok s R" and "admissible n" and "alloc s n = Inr (p, s')"
  shows "p \<notin> fst ` set R"
proof
  assume "p \<in> fst ` set R"
  then obtain m where m: "(p, m) \<in> set R" by force
  have ok': "ok s' ((p, n) # R)" using alloc_ok assms by blast
  have "bytes_of (p, n) \<inter> bytes_of (p, m) = {}" using ok_disjoint [OF ok'] m by auto
  moreover have "0 < n" and "0 < m" using ok_nonempty [OF ok'] m by force+
  ultimately show False using fresh_base by blast
qed

lemma alloc_distinct:
  assumes "ok s R" and "distinct (map fst R)" and "admissible n" and "alloc s n = Inr (p, s')"
  shows "distinct (map fst ((p, n) # R))"
  using alloc_fresh [OF assms(1,3,4)] assms(2) by simp

end

definition arena_alloc ::
  "bool \<Rightarrow> new_fn \<Rightarrow> arena \<times> free_store \<Rightarrow> u64 \<Rightarrow> fault + (addr \<times> (arena \<times> free_store))" where
  "arena_alloc dbg nw s n = AllocateAligned dbg nw (fst s) (snd s) n"

definition arena_inv :: "new_fn \<Rightarrow> arena \<times> free_store \<Rightarrow> region list \<Rightarrow> bool" where
  "arena_inv nw s R \<longleftrightarrow> new_ok nw \<and> arena_ok (fst s) (snd s) R \<and> (\<forall>r\<in>set R. 0 < snd r)"

definition sane_size :: "u64 \<Rightarrow> bool" where
  "sane_size n \<longleftrightarrow> 0 < n \<and> unat n + 8 \<le> 2 ^ 64"

interpretation arena: region_allocator "arena_alloc dbg nw" "arena_inv nw" sane_size for dbg nw
proof unfold_locales
  show "arena_inv nw s R \<Longrightarrow> sane_size n \<Longrightarrow> arena_alloc dbg nw s n = Inr (p, s') \<Longrightarrow>
          arena_inv nw s' ((p, n) # R)" for s R n p s'
    using AllocateAligned_ok(1) [of nw "fst s" "snd s" R n dbg p "fst s'" "snd s'"]
    by (auto simp: arena_inv_def arena_alloc_def sane_size_def)
qed (auto simp: arena_inv_def arena_ok_def)

lemma arena_inv_aligned:
  assumes "arena_inv nw s R" and "sane_size n" and "arena_alloc dbg nw s n = Inr (p, s')"
  shows "unat p mod 8 = 0"
  using assms AllocateAligned_ok(2) [of nw "fst s" "snd s" R n dbg p "fst s'" "snd s'"]
  by (auto simp: arena_inv_def arena_alloc_def sane_size_def)

lemma arena_alloc_fault:
  assumes "arena_inv nw s R" and "sane_size n" and "arena_alloc dbg nw s n = Inl e"
  shows "e = Bad_alloc"
  using assms AllocateAligned_fault [of nw "fst s" "snd s" R n dbg e]
  by (auto simp: arena_inv_def arena_alloc_def sane_size_def)

subsection \<open>Destruction\<close>

lemma Arena_dtor_filter: "Arena_dtor a fs = filter (\<lambda>r. fst r \<notin> set (blocks a)) fs"
proof -
  have "fold delete_block bs fs = filter (\<lambda>r. fst r \<notin> set bs) fs" for bs
    by (induction bs arbitrary: fs) (simp_all add: delete_block_def conj_commute)
  then show ?thesis by (simp add: Arena_dtor_def)
qed

subsection \<open>A free store that keeps its promise\<close>

text \<open>The witnesses run on the simplest such store: it always allocates above every live block.\<close>

definition store_end :: "free_store \<Rightarrow> nat" where
  "store_end fs = foldr (\<lambda>r e. max e (unat (fst r) + unat (snd r))) fs 16"

definition bump_new :: new_fn where
  "bump_new fs n =
     (let b = (store_end fs div 16 + 1) * 16
      in if b + unat n < 2 ^ 64 then Some (word_of_nat b) else None)"

lemma store_end_ge: "r \<in> set fs \<Longrightarrow> unat (fst r) + unat (snd r) \<le> store_end fs"
  by (induction fs) (auto simp: store_end_def le_max_iff_disj)

lemma new_ok_bump: "new_ok bump_new"
proof -
  have "p \<noteq> 0 \<and> unat p mod 16 = 0 \<and> unat p + unat n < 2 ^ 64 \<and>
        p \<notin> fst ` set fs \<and> (\<forall>r\<in>set fs. bytes_of (p, n) \<inter> bytes_of r = {})"
    if "bump_new fs n = Some p" for fs n p
  proof -
    define b where "b = (store_end fs div 16 + 1) * 16"
    have p: "p = word_of_nat b" and small: "b + unat n < 2 ^ 64"
      using that unfolding bump_new_def b_def [symmetric] by (auto simp: Let_def split: if_splits)
    have u: "unat p = b" using small unfolding p by (simp add: unsigned_of_nat take_bit_nat_eq_self)
    have e: "store_end fs < b" unfolding b_def by (simp add: dividend_less_times_div)
    have low: "unat (fst r) + unat (snd r) < unat p" if "r \<in> set fs" for r
      using store_end_ge [OF that] e u by simp
    have "p \<notin> fst ` set fs" using low by force
    moreover have "bytes_of (p, n) \<inter> bytes_of r = {}" if "r \<in> set fs" for r
      using low [OF that] by (auto simp: bytes_of_def)
    moreover have "p \<noteq> 0" and "unat p mod 16 = 0"
      using u by (auto simp: b_def)
    ultimately show ?thesis using small u by simp
  qed
  then show ?thesis unfolding new_ok_def by blast
qed

subsection \<open>Properties\<close>

text \<open>Claim C10. Every successful \<open>AllocateAligned\<close> returns an 8-byte aligned address whose bytes lie in
  a block of the arena and are disjoint from every region handed out before; the only way it fails is
  \<open>std::bad_alloc\<close>, so its final \<open>assert\<close> never fires.\<close>

theorem AllocateAligned_disjoint:
  assumes "new_ok nw" and "arena_ok a fs R" and "0 < n" and "unat n + 8 \<le> 2 ^ 64"
  shows "case AllocateAligned dbg nw a fs n of
           Inl e \<Rightarrow> e = Bad_alloc
         | Inr (p, a', fs') \<Rightarrow> arena_ok a' fs' ((p, n) # R) \<and> unat p mod 8 = 0"
  using AllocateAligned_ok [OF assms] AllocateAligned_fault [OF assms]
  by (auto split: sum.split)

theorem AllocateAligned_disjoint_witness:
  "case AllocateAligned True bump_new Arena_ctor [] 144 of
     Inl e \<Rightarrow> e = Bad_alloc
   | Inr (p, a', fs') \<Rightarrow> arena_ok a' fs' [(p, 144)] \<and> unat p mod 8 = 0"
  by (rule AllocateAligned_disjoint) (simp_all add: new_ok_bump arena_ok_ctor store_ok_def)

text \<open>Destroying an arena returns exactly its own blocks to the free store, all of them, and
  leaves every other live block alone.\<close>

lemma Arena_dtor_frees_exactly_blocks:
  assumes "arena_ok a fs R"
  shows "set (Arena_dtor a fs) = {r \<in> set fs. fst r \<notin> set (blocks a)}
         \<and> length (Arena_dtor a fs) + length (blocks a) = length fs"
proof -
  have d: "distinct (map fst fs)" and b: "distinct (blocks a)" "set (blocks a) \<subseteq> fst ` set fs"
    using assms by (simp_all add: arena_ok_def store_ok_def)
  have "length (filter (\<lambda>r. fst r \<in> set (blocks a)) fs) = length (blocks a)"
  proof -
    have "length (filter (\<lambda>r. fst r \<in> set (blocks a)) fs)
            = length (filter (\<lambda>x. x \<in> set (blocks a)) (map fst fs))"
      by (simp add: filter_map o_def)
    also have "\<dots> = card (set (blocks a))"
      using b(2) d by (subst distinct_card [symmetric]) (auto intro!: arg_cong [of _ _ card])
    also have "\<dots> = length (blocks a)" using b(1) by (rule distinct_card)
    finally show ?thesis .
  qed
  then show ?thesis
    using sum_length_filter_compl [of "\<lambda>r. fst r \<in> set (blocks a)" fs]
    by (auto simp: Arena_dtor_filter)
qed

end
