(* ===== verification/Lcg_Random.thy ===== *)
theory Lcg_Random
  imports Prelude
begin

unbundle bit_operations_syntax

section \<open>The random number generator (cache/utils/random.h)\<close>

text \<open>
  \<open>Random\<close> is the Lehmer generator of LevelDB: one 32-bit seed, stepped by
  \<open>seed * 16807 mod (2^31 - 1)\<close> through a shift-and-add reduction on 64 bits.
  The lemmas show that the reduction computes that remainder, that no seed ever
  becomes 0 or \<open>M\<close>, and the ranges of the derived draws.
\<close>

record random =
  seed :: u32

definition lcg_M :: u32 where
  "lcg_M = 2147483647"

definition Random_ctor :: "u32 \<Rightarrow> random" where
  "Random_ctor s =
     (let s1 = s AND 0x7fffffff
      in \<lparr>seed = (if s1 = 0 \<or> s1 = 2147483647 then 1 else s1)\<rparr>)"

definition Random_Next :: "random \<Rightarrow> u32 \<times> random" where
  "Random_Next r =
     (let product = (ucast (seed r) :: u64) * 16807;
          s1 = ucast (drop_bit 31 product + (product AND ucast lcg_M)) :: u32;
          s2 = (if s1 > lcg_M then s1 - lcg_M else s1)
      in (s2, r\<lparr>seed := s2\<rparr>))"

text \<open>\<open>Next() % n\<close>: the \<open>int\<close> argument is converted to \<open>uint32_t\<close>; a remainder by zero is undefined, and so
  is a shift of the \<open>int\<close> 1 by 31 or more.\<close>

definition Random_Uniform :: "random \<Rightarrow> u32 \<Rightarrow> fault + (u32 \<times> random)" where
  "Random_Uniform r n = (let (v, r') = Random_Next r in if n = 0 then Inl Undefined else Inr (v mod n, r'))"

definition Random_OneIn :: "random \<Rightarrow> u32 \<Rightarrow> fault + (bool \<times> random)" where
  "Random_OneIn r n = (let (v, r') = Random_Next r in if n = 0 then Inl Undefined else Inr (v mod n = 0, r'))"

definition Random_Skewed :: "random \<Rightarrow> u32 \<Rightarrow> fault + (u32 \<times> random)" where
  "Random_Skewed r max_log =
     sthen (Random_Uniform r (max_log + 1)) (\<lambda>(b, r').
       if 31 \<le> b then Inl Undefined else Random_Uniform r' (push_bit (unat b) 1))"

text \<open>The generator after \<open>n\<close> draws.\<close>

fun next_n :: "nat \<Rightarrow> random \<Rightarrow> random" where
  "next_n 0 r = r"
| "next_n (Suc n) r = next_n n (snd (Random_Next r))"

text \<open>Modular exponentiation on the binary digits of the exponent, to evaluate large powers.\<close>

fun sq_pow :: "nat \<Rightarrow> num \<Rightarrow> nat" where
  "sq_pow a num.One = a mod 2147483647"
| "sq_pow a (num.Bit0 n) = (let b = sq_pow a n in b * b mod 2147483647)"
| "sq_pow a (num.Bit1 n) = (let b = sq_pow a n in b * b mod 2147483647 * a mod 2147483647)"

subsection \<open>Seeds stay in range\<close>

definition seed_ok :: "random \<Rightarrow> bool" where
  "seed_ok r \<longleftrightarrow> 0 < unat (seed r) \<and> unat (seed r) < 2147483647"

lemma seed_ok_ctor: "seed_ok (Random_ctor s)"
proof -
  define t where "t = s AND (0x7fffffff :: u32)"
  have c: "Random_ctor s = \<lparr>seed = (if t = 0 \<or> t = 2147483647 then 1 else t)\<rparr>"
    unfolding Random_ctor_def Let_def t_def ..
  have "t \<le> 0x7fffffff"
    unfolding t_def by (rule word_and_le1)
  then have le: "unat t \<le> 2147483647"
    unfolding word_le_nat_alt by simp
  show ?thesis
  proof (cases "t = 0 \<or> t = 2147483647")
    case True
    then show ?thesis by (simp add: seed_ok_def c)
  next
    case False
    then have "unat t \<noteq> 0" and "unat t \<noteq> unat (2147483647 :: u32)"
      by (auto simp only: unat_eq_0 word_unat_eq_iff [symmetric])
    then have "0 < unat t" and "unat t < 2147483647" using le by simp_all
    with False show ?thesis by (simp add: seed_ok_def c)
  qed
qed

lemma lcg_M_mask: "(ucast lcg_M :: u64) = mask 31"
  by (simp add: lcg_M_def mask_eq_exp_minus_1)

lemma unat_lcg_product:
  "unat ((ucast s :: u64) * 16807) = unat (s :: u32) * 16807"
proof -
  have "unat s < 2 ^ 32"
    using unsigned_less [of s, where ?'a = nat] by simp
  then show ?thesis
    by (simp add: unat_word_ariths unsigned_ucast_eq take_bit_eq_mod)
qed

lemma unat_lcg_fold:
  assumes "unat p < 2 ^ 47"
  shows "unat (ucast (drop_bit 31 p + (p AND ucast lcg_M) :: u64) :: u32)
           = unat p div 2 ^ 31 + unat p mod 2 ^ 31"
proof -
  have lo: "unat (p AND ucast lcg_M) = unat p mod 2 ^ 31"
  proof -
    have "p AND ucast lcg_M = take_bit 31 p"
      by (simp only: lcg_M_mask take_bit_eq_mask)
    then have "unat (p AND ucast lcg_M) = take_bit 31 (unat p)"
      by (simp only: unsigned_take_bit_eq)
    then show ?thesis by (simp only: take_bit_eq_mod)
  qed
  have hi: "unat (drop_bit 31 p) = unat p div 2 ^ 31"
    by (subst unat_drop_bit_eq) (rule drop_bit_eq_div)
  have "unat p div 2 ^ 31 < 2 ^ 16"
    using assms by (simp add: less_mult_imp_div_less)
  moreover have "unat p mod 2 ^ 31 < 2 ^ 31" by simp
  ultimately have b: "unat p div 2 ^ 31 + unat p mod 2 ^ 31 < 2 ^ 32"
    by simp
  have "unat (drop_bit 31 p + (p AND ucast lcg_M)) = unat p div 2 ^ 31 + unat p mod 2 ^ 31"
    using b by (simp add: unat_word_ariths lo hi)
  then show ?thesis
    using b by (simp add: unsigned_ucast_eq take_bit_eq_mod)
qed

lemma fold_mod_M:
  fixes p :: nat
  assumes "p mod 2147483647 \<noteq> 0" and "p < 2147483647 * 16807"
  defines "t \<equiv> p div 2 ^ 31 + p mod 2 ^ 31"
  shows "(if 2147483647 < t then t - 2147483647 else t) = p mod 2147483647"
proof -
  define q l where "q = p div 2 ^ 31" and "l = p mod 2 ^ 31"
  have p: "p = q * 2147483648 + l" and l: "l < 2147483648"
    using div_mult_mod_eq [of p "2 ^ 31"] by (simp_all add: q_def l_def)
  have q: "q \<le> 16807"
    using assms(2) p by linarith
  have t: "t = q + l" by (simp add: t_def q_def l_def)
  have "p = 2147483647 * q + t" using p t by simp
  then have m: "p mod 2147483647 = t mod 2147483647"
    by simp
  show ?thesis
  proof (cases "2147483647 < t")
    case True
    then have "t mod 2147483647 = (t - 2147483647) mod 2147483647"
      by (simp add: le_mod_geq)
    moreover have "t - 2147483647 < 2147483647" using t l q by linarith
    ultimately show ?thesis using True m by simp
  next
    case False
    moreover have "t \<noteq> 2147483647" using m assms(1) by auto
    ultimately show ?thesis using m by simp
  qed
qed

lemma lcg_product_nonzero:
  fixes s :: nat
  assumes "0 < s" and "s < 2147483647"
  shows "s * 16807 mod 2147483647 \<noteq> 0"
proof
  assume "s * 16807 mod 2147483647 = 0"
  then have "2147483647 dvd s * 16807" by (simp add: mod_eq_0_iff_dvd)
  moreover have "coprime (2147483647 :: nat) 16807"
    by (simp add: coprime_iff_gcd_eq_1 gcd_non_0_nat)
  ultimately have "2147483647 dvd s"
    by (simp add: coprime_dvd_mult_left_iff)
  with assms show False by (auto dest: dvd_imp_le)
qed

lemma Random_Next_seed [simp]: "seed (snd (Random_Next r)) = fst (Random_Next r)"
  by (simp add: Random_Next_def Let_def)

lemma Random_Next_val:
  assumes "seed_ok r"
  shows "unat (fst (Random_Next r)) = unat (seed r) * 16807 mod 2147483647"
proof -
  let ?s = "unat (seed r)"
  let ?p = "?s * 16807"
  have s: "0 < ?s" "?s < 2147483647" using assms by (simp_all add: seed_ok_def)
  then have pb: "?p < 2147483647 * 16807" by simp
  define w where "w = (ucast (seed r) :: u64) * 16807"
  have w: "unat w = ?p" by (simp only: w_def unat_lcg_product)
  define t where "t = (ucast (drop_bit 31 w + (w AND ucast lcg_M)) :: u32)"
  have t: "unat t = ?p div 2 ^ 31 + ?p mod 2 ^ 31"
    unfolding t_def using unat_lcg_fold [of w] pb w by simp
  have M: "unat lcg_M = 2147483647" by (simp add: lcg_M_def)
  have "unat (if t > lcg_M then t - lcg_M else t)
          = (if 2147483647 < unat t then unat t - 2147483647 else unat t)"
    by (simp add: word_less_nat_alt M unat_sub_if')
  also have "\<dots> = ?p mod 2147483647"
    unfolding t by (rule fold_mod_M) (use s pb lcg_product_nonzero in auto)
  finally have "unat (if t > lcg_M then t - lcg_M else t) = ?p mod 2147483647" .
  moreover have "fst (Random_Next r) = (if t > lcg_M then t - lcg_M else t)"
    by (simp only: Random_Next_def Let_def fst_conv t_def w_def)
  ultimately show ?thesis by simp
qed
lemma seed_ok_Next: "seed_ok r \<Longrightarrow> seed_ok (snd (Random_Next r))"
  using Random_Next_val [of r] lcg_product_nonzero [of "unat (seed r)"]
  by (auto simp: seed_ok_def)

lemma next_n_seed:
  "seed_ok r \<Longrightarrow> unat (seed (next_n n r)) = unat (seed r) * 16807 ^ n mod 2147483647"
proof (induction n arbitrary: r)
  case 0
  then show ?case by (simp add: seed_ok_def)
next
  case (Suc n)
  let ?r' = "snd (Random_Next r)"
  have "unat (seed (next_n n ?r')) = unat (seed ?r') * 16807 ^ n mod 2147483647"
    using Suc.IH [of ?r'] Suc.prems seed_ok_Next by simp
  also have "\<dots> = unat (seed r) * 16807 ^ Suc n mod 2147483647"
    unfolding Random_Next_seed Random_Next_val [OF Suc.prems]
    by (simp add: mod_mult_left_eq mult.assoc)
  finally show ?case by simp
qed

lemma sq_pow_eq: "sq_pow a n = a ^ numeral n mod 2147483647"
proof (induction n)
  case One
  then show ?case by simp
next
  case (Bit0 n)
  then show ?case
    by (simp add: Let_def numeral_Bit0 power_add mod_mult_eq)
next
  case (Bit1 n)
  have "a ^ numeral (num.Bit1 n) = a ^ numeral n * a ^ numeral n * a"
    by (simp only: numeral_Bit1 power_add power_one_right)
  moreover have "a ^ numeral n mod 2147483647 * (a ^ numeral n mod 2147483647) mod 2147483647 * a mod 2147483647
                  = a ^ numeral n * a ^ numeral n * a mod 2147483647"
    by (simp only: mod_mult_eq mod_mult_left_eq [of "a ^ numeral n * a ^ numeral n"])
  ultimately show ?case by (simp only: sq_pow.simps Let_def Bit1.IH)
qed

lemma lcg_powers:
  "(16807::nat) ^ 2147483646 mod 2147483647 = 1"
  "(16807::nat) ^ 1073741823 mod 2147483647 \<noteq> 1"
  "(16807::nat) ^ 715827882 mod 2147483647 \<noteq> 1"
  "(16807::nat) ^ 306783378 mod 2147483647 \<noteq> 1"
  "(16807::nat) ^ 195225786 mod 2147483647 \<noteq> 1"
  "(16807::nat) ^ 69273666 mod 2147483647 \<noteq> 1"
  "(16807::nat) ^ 14221746 mod 2147483647 \<noteq> 1"
  "(16807::nat) ^ 6487866 mod 2147483647 \<noteq> 1"
  by (simp_all only: sq_pow_eq [symmetric]) (simp_all add: Let_def)
lemma trial_division:
  fixes p d :: nat
  assumes p: "0 < p" "p < 361" and d: "d dvd p"
    and trial: "\<forall>q\<in>set [2,3,4,5,6,7,8,9,10,11,12,13,14,15,16,17,18]. q dvd p \<longrightarrow> q = p"
  shows "d = 1 \<or> d = p"
proof -
  obtain e where e: "p = d * e" using d by (rule dvdE)
  have small: "q = 1 \<or> q = p" if "q dvd p" and "q < 19" for q
  proof -
    have "q \<noteq> 0" using that p by auto
    then have "q = 1 \<or> q \<in> set [2,3,4,5,6,7,8,9,10,11,12,13,14,15,16,17,18]"
      using that(2) by (simp, presburger)
    then show ?thesis using trial that(1) by blast
  qed
  show ?thesis
  proof (cases "d < 19")
    case True
    then show ?thesis using small d by blast
  next
    case False
    have "e < 19"
    proof (rule ccontr)
      assume "\<not> e < 19"
      then have "19 * 19 \<le> d * e" using False by (intro mult_le_mono) simp_all
      then show False using e p by simp
    qed
    moreover have "e dvd p" using e by simp
    ultimately have "e = 1 \<or> e = p" using small by blast
    then show ?thesis using e p False by auto
  qed
qed

lemma dvd_small_primes:
  assumes "p \<in> {2, 3, 7, 11, 31, 151, 331 :: nat}" and "d dvd p"
  shows "d = 1 \<or> d = p"
proof (rule trial_division [OF _ _ assms(2)])
  show "\<forall>q\<in>set [2,3,4,5,6,7,8,9,10,11,12,13,14,15,16,17,18]. q dvd p \<longrightarrow> q = p"
    using assms(1) by (elim insertE emptyE) simp_all
qed (use assms(1) in auto)

lemma generator_order:
  fixes a M N k :: nat
  assumes aN: "a ^ N mod M = 1" and M: "1 < M" and N: "0 < N"
    and gen: "\<And>p. p \<in> P \<Longrightarrow> a ^ (N div p) mod M \<noteq> 1"
    and fac: "\<And>m. m dvd N \<Longrightarrow> m \<noteq> 1 \<Longrightarrow> \<exists>p\<in>P. p dvd m"
    and k: "0 < k" "a ^ k mod M = 1"
  shows "N dvd k"
proof -
  define d where "d = gcd k N"
  obtain x y where xy: "k * x = N * y + d"
    using bezout_nat [of k N] k(1) unfolding d_def by auto
  have one: "a ^ (e * z) mod M = 1" if "a ^ e mod M = 1" for e z
    using power_mod [of "a ^ e" M z] that M by (simp add: power_mult)
  have "a ^ (N * y + d) mod M = ((a ^ (N * y) mod M) * a ^ d) mod M"
    by (simp only: power_add mod_mult_left_eq)
  then have d1: "a ^ d mod M = 1"
    using one [OF k(2), of x] one [OF aN, of y] xy by simp
  obtain m where m: "N = d * m" unfolding d_def by (metis gcd_dvd2 dvdE)
  have "m = 1"
  proof (rule ccontr)
    assume "m \<noteq> 1"
    then obtain p n where p: "p \<in> P" and mn: "m = p * n"
      using fac [of m] m by (auto elim!: dvdE)
    have "N div p = d * n" using m mn N by auto
    then show False using one [OF d1, of n] gen [OF p] by simp
  qed
  then show ?thesis using m unfolding d_def by (metis gcd_dvd1 mult.right_neutral)
qed

lemma generator_orbit_of_one:
  fixes a M N t :: nat
  assumes cop: "coprime M a" and M: "1 < M" and N: "N = M - 1"
    and ord: "\<And>k. 0 < k \<Longrightarrow> a ^ k mod M = 1 \<Longrightarrow> N dvd k"
    and a: "0 < a" and t: "t \<in> {0<..<M}"
  shows "\<exists>n<N. a ^ n mod M = t"
proof -
  let ?f = "\<lambda>n. a ^ n mod M"
  have cM: "coprime M (a ^ i)" for i
    using cop by simp
  have inj: "inj_on ?f {..<N}"
  proof (rule linorder_inj_onI')
    fix i j :: nat
    assume ij: "i < j" and j: "j \<in> {..<N}"
    show "?f i \<noteq> ?f j"
    proof
      assume e: "?f i = ?f j"
      have le: "a ^ i \<le> a ^ j" using a ij by (simp add: power_increasing)
      from e have "M dvd a ^ j - a ^ i"
        using mod_eq_dvd_iff_nat [OF le, of M] by simp
      moreover have "a ^ j - a ^ i = a ^ i * (a ^ (j - i) - 1)"
        using ij by (simp add: diff_mult_distrib2 flip: power_add)
      ultimately have "M dvd a ^ (j - i) - 1"
        using cM [of i] by (simp add: coprime_dvd_mult_right_iff)
      moreover have "1 \<le> a ^ (j - i)" using a by simp
      ultimately have "a ^ (j - i) mod M = 1"
        using mod_eq_dvd_iff_nat [of 1 "a ^ (j - i)" M] M by simp
      then have "N dvd j - i" using ord [of "j - i"] ij by simp
      then show False using ij j by (auto dest!: dvd_imp_le)
    qed
  qed
  have "?f ` {..<N} \<subseteq> {0<..<M}"
  proof
    fix x
    assume "x \<in> ?f ` {..<N}"
    then obtain i where x: "x = ?f i" by auto
    have "\<not> M dvd a ^ i"
      using cM [of i] M coprime_common_divisor [of M "a ^ i" M] by auto
    then have "0 < ?f i" by (simp add: dvd_eq_mod_eq_0)
    then show "x \<in> {0<..<M}" using x M by simp
  qed
  moreover have "card (?f ` {..<N}) = card {0<..<M}"
    using card_image [OF inj] N by simp
  ultimately have "?f ` {..<N} = {0<..<M}"
    by (intro card_subset_eq) simp_all
  then have "t \<in> ?f ` {..<N}" using t by blast
  then show ?thesis by auto
qed

lemma generator_full_orbit:
  fixes a M N s t :: nat
  assumes cop: "coprime M a" and M: "1 < M" and N: "N = M - 1" and aN: "a ^ N mod M = 1"
    and ord: "\<And>k. 0 < k \<Longrightarrow> a ^ k mod M = 1 \<Longrightarrow> N dvd k"
    and a: "0 < a" and s: "s \<in> {0<..<M}" and t: "t \<in> {0<..<M}"
  shows "\<exists>n. s * a ^ n mod M = t"
proof -
  note orbit = generator_orbit_of_one [OF cop M N ord a]
  obtain i where i: "i < N" "a ^ i mod M = s"
    using orbit [OF _ _ s] by blast
  obtain j where j: "a ^ j mod M = t"
    using orbit [OF _ _ t] by blast
  let ?n = "j + (N - i)"
  have "s * a ^ ?n mod M = a ^ (i + ?n) mod M"
    unfolding power_add [of a i] i(2) [symmetric] by (rule mod_mult_left_eq)
  also have "i + ?n = j + N" using i(1) by simp
  also have "a ^ (j + N) mod M = t"
    using mod_mult_right_eq [of "a ^ j" "a ^ N" M] j aN by (simp add: power_add)
  finally show ?thesis by blast
qed

lemma lcg_factors:
  fixes m :: nat
  assumes "m dvd 2147483646" and "m \<noteq> 1"
  shows "\<exists>p\<in>{2, 3, 7, 11, 31, 151, 331}. p dvd m"
proof (rule ccontr)
  assume none: "\<not> ?thesis"
  have cop: "coprime m p" if "p \<in> {2, 3, 7, 11, 31, 151, 331}" for p
    using dvd_small_primes [OF that, of "gcd m p"] none that
    by (metis gcd_dvd1 gcd_dvd2 coprime_iff_gcd_eq_1)
  have "coprime m (2 * (3 * (3 * (7 * (11 * (31 * (151 * 331)))))))"
    by (intro coprime_mult_right_iff [THEN iffD2] conjI cop) simp_all
  then have "coprime m 2147483646" by simp
  then have "is_unit m"
    using assms(1) coprime_common_divisor [of m 2147483646 m] by simp
  with assms(2) show False by simp
qed

lemma lcg_full_orbit:
  assumes "s \<in> {0<..<2147483647}" and "t \<in> {0<..<2147483647}"
  shows "\<exists>n. s * 16807 ^ n mod 2147483647 = (t::nat)"
proof (rule generator_full_orbit [where N = 2147483646])
  show "coprime (2147483647::nat) 16807"
    by (simp add: coprime_iff_gcd_eq_1 gcd_non_0_nat)
  show "(16807::nat) ^ 2147483646 mod 2147483647 = 1" by (rule lcg_powers)
  fix k :: nat
  assume "0 < k" and "16807 ^ k mod 2147483647 = (1::nat)"
  then show "2147483646 dvd k"
  proof (rule generator_order [where P = "{2, 3, 7, 11, 31, 151, 331}", rotated 5])
    show "(16807::nat) ^ 2147483646 mod 2147483647 = 1" by (rule lcg_powers)
    fix p :: nat
    assume "p \<in> {2, 3, 7, 11, 31, 151, 331}"
    then consider "p = 2" | "p = 3" | "p = 7" | "p = 11" | "p = 31" | "p = 151" | "p = 331"
      by blast
    then show "(16807::nat) ^ (2147483646 div p) mod 2147483647 \<noteq> 1"
    proof cases
      case 1
      then have "2147483646 div p = 1073741823" by simp
      then show ?thesis by (rule ssubst) (rule lcg_powers)
    next
      case 2
      then have "2147483646 div p = 715827882" by simp
      then show ?thesis by (rule ssubst) (rule lcg_powers)
    next
      case 3
      then have "2147483646 div p = 306783378" by simp
      then show ?thesis by (rule ssubst) (rule lcg_powers)
    next
      case 4
      then have "2147483646 div p = 195225786" by simp
      then show ?thesis by (rule ssubst) (rule lcg_powers)
    next
      case 5
      then have "2147483646 div p = 69273666" by simp
      then show ?thesis by (rule ssubst) (rule lcg_powers)
    next
      case 6
      then have "2147483646 div p = 14221746" by simp
      then show ?thesis by (rule ssubst) (rule lcg_powers)
    next
      case 7
      then have "2147483646 div p = 6487866" by simp
      then show ?thesis by (rule ssubst) (rule lcg_powers)
    qed
  next
    fix m :: nat
    assume "m dvd 2147483646" and "m \<noteq> 1"
    then show "\<exists>p\<in>{2, 3, 7, 11, 31, 151, 331}. p dvd m" by (rule lcg_factors)
  qed simp_all
qed (use assms in simp_all)

subsection \<open>Ranges of the derived draws\<close>

lemma Random_Uniform_ok:
  assumes "n \<noteq> 0"
  obtains v r' where "Random_Uniform r n = Inr (v, r')" "unat v < unat n" "seed_ok r \<Longrightarrow> seed_ok r'"
  using assms that [of "fst (Random_Next r) mod n" "snd (Random_Next r)"]
  by (simp add: Random_Uniform_def Let_def split_beta unat_mod unat_gt_0 seed_ok_Next)

lemma unat_push_bit_1: "k < 32 \<Longrightarrow> unat (push_bit k (1::u32)) = 2 ^ k"
proof -
  assume k: "k < 32"
  have "push_bit k (1::u32) = word_of_nat (2 ^ k)" by (simp add: push_bit_eq_mult)
  moreover have "(2::nat) ^ k < 2 ^ 32" using k by (rule power_strict_increasing) simp
  ultimately show ?thesis using k by (simp only: unsigned_of_nat) (simp add: take_bit_nat_eq_self)
qed

subsection \<open>Properties\<close>

text \<open>Claim C16. \<open>Random::Next\<close> returns \<open>seed * 16807 mod (2^31 - 1)\<close>, computed without a
  division, and keeps the seed strictly between 0 and \<open>2^31 - 1\<close>.\<close>

theorem Random_Next_correct:
  assumes "seed_ok r"
  shows "unat (fst (Random_Next r)) = unat (seed r) * 16807 mod 2147483647 \<and> seed_ok (snd (Random_Next r))"
  using assms by (simp add: Random_Next_val seed_ok_Next)

theorem Random_Next_correct_witness:
  "unat (fst (Random_Next (Random_ctor 0xdeadbeef)))
     = unat (seed (Random_ctor 0xdeadbeef)) * 16807 mod 2147483647"
  using Random_Next_correct [OF seed_ok_ctor [of "0xdeadbeef"]] by simp

text \<open>Claim C17. From any admissible seed the generator reaches every other admissible seed: it cycles
  through all of \<open>[1, M - 1]\<close>, as the comment in \<open>Next\<close> says.\<close>

theorem Random_full_period:
  assumes "seed_ok r" and "seed_ok r'"
  shows "\<exists>n. next_n n r = r'"
proof -
  obtain n where "unat (seed r) * 16807 ^ n mod 2147483647 = unat (seed r')"
    using lcg_full_orbit [of "unat (seed r)" "unat (seed r')"] assms by (auto simp: seed_ok_def)
  then have "unat (seed (next_n n r)) = unat (seed r')"
    using next_n_seed [OF assms(1)] by simp
  then have "next_n n r = r'"
    by (simp add: word_unat_eq_iff)
  then show ?thesis by blast
qed

theorem Random_full_period_witness:
  "\<exists>n. next_n n (Random_ctor 0xdeadbeef) = Random_ctor 1"
  by (rule Random_full_period [OF seed_ok_ctor seed_ok_ctor])

text \<open>\<open>Skewed(max_log)\<close> draws a value below \<open>2^max_log\<close> for every \<open>max_log\<close> up to 30, the
  largest for which the shift is always defined.\<close>

lemma Random_Skewed_range:
  assumes "unat max_log \<le> 30"
  shows "\<exists>v r'. Random_Skewed r max_log = Inr (v, r') \<and> unat v < 2 ^ unat max_log \<and> (seed_ok r \<longrightarrow> seed_ok r')"
proof -
  have suc: "unat (max_log + 1) = unat max_log + 1"
    using assms by (simp add: unat_word_ariths)
  then have "max_log + 1 \<noteq> 0" by auto
  then obtain b r1 where b: "Random_Uniform r (max_log + 1) = Inr (b, r1)" "unat b < unat (max_log + 1)" "seed_ok r \<Longrightarrow> seed_ok r1"
    by (rule Random_Uniform_ok [of "max_log + 1" r]) blast
  have ble: "unat b \<le> unat max_log" using b(2) suc by simp
  then have p: "unat (push_bit (unat b) (1::u32)) = 2 ^ unat b"
    using assms by (intro unat_push_bit_1) simp
  then have nz: "push_bit (unat b) (1::u32) \<noteq> 0" by (metis power_not_zero unat_0 zero_neq_numeral)
  obtain v r2 where v: "Random_Uniform r1 (push_bit (unat b) 1) = Inr (v, r2)" "unat v < 2 ^ unat b" "seed_ok r1 \<Longrightarrow> seed_ok r2"
    by (rule Random_Uniform_ok [OF nz, of r1]) (use p in simp)
  have "\<not> 31 \<le> b" using ble assms by (simp add: word_le_nat_alt)
  moreover have "unat v < 2 ^ unat max_log" 
    by (rule less_le_trans [OF v(2)]) (rule power_increasing [OF ble], simp)
  ultimately show ?thesis using b(1,3) v(1,3) by (auto simp: Random_Skewed_def)
qed

end
