(* ===== verification/Skip_List_Correct.thy ===== *)
theory Skip_List_Correct
  imports Skip_List
begin

section \<open>Correctness of the skip list\<close>

text \<open>
  The structural invariant \<open>sl_ok\<close>, the search lemmas and the effect of insertion. The
  order on keys enters through the locale \<open>key_order\<close>: a three-way comparator that
  compares a rank of the keys, as the comparator of the sorted set compares scores.
\<close>

subsection \<open>Heights, keys and the invariant\<close>

definition height_of :: "'k nodes \<Rightarrow> addr \<Rightarrow> nat" where
  "height_of ns a = length (nexts (the (ns a)))"

definition key_of :: "'k nodes \<Rightarrow> addr \<Rightarrow> 'k" where
  "key_of ns a = nkey (the (ns a))"

definition above :: "'k nodes \<Rightarrow> nat \<Rightarrow> addr list \<Rightarrow> addr list" where
  "above ns l xs = filter (\<lambda>a. l < height_of ns a) xs"

definition lnk :: "addr option \<Rightarrow> link" where
  "lnk x = (case x of None \<Rightarrow> Null | Some y \<Rightarrow> Ptr y)"

definition links_ok :: "'k nodes \<Rightarrow> addr list \<Rightarrow> bool" where
  "links_ok ns xs \<longleftrightarrow>
     (\<forall>P x Q l. xs = P @ x # Q \<longrightarrow> l < height_of ns x \<longrightarrow>
        nexts (the (ns x)) ! l = lnk (hd_opt (above ns l Q)))"

definition sl_ok :: "'k skip_list \<Rightarrow> addr list \<Rightarrow> bool" where
  "sl_ok sl L \<longleftrightarrow>
     distinct (head sl # L) \<and> dom (nodes sl) = set (head sl # L) \<and>
     height_of (nodes sl) (head sl) = kMaxHeight \<and>
     1 \<le> max_height sl \<and> max_height sl \<le> kMaxHeight \<and>
     (\<forall>a\<in>set L. 1 \<le> height_of (nodes sl) a \<and> height_of (nodes sl) a \<le> max_height sl) \<and>
     links_ok (nodes sl) (head sl # L) \<and> seed_ok (rnd sl)"

definition sl_keys :: "'k skip_list \<Rightarrow> addr list \<Rightarrow> 'k list" where
  "sl_keys sl L = map (key_of (nodes sl)) L"

lemma lnk_simps [simp]:
  "lnk None = Null" "lnk (Some y) = Ptr y" "lnk x \<noteq> Uninit" "lnk x = Null \<longleftrightarrow> x = None"
  "lnk x = Ptr y \<longleftrightarrow> x = Some y"
  by (auto simp: lnk_def split: option.splits)

lemma above_simps [simp]:
  "above ns l [] = []"
  "above ns l (x # xs) = (if l < height_of ns x then x # above ns l xs else above ns l xs)"
  "above ns l (xs @ ys) = above ns l xs @ above ns l ys"
  by (simp_all add: above_def)

lemma above_in_set: "y \<in> set (above ns l xs) \<Longrightarrow> y \<in> set xs \<and> l < height_of ns y"
  by (simp add: above_def)

lemma above_0: "\<forall>a\<in>set xs. 1 \<le> height_of ns a \<Longrightarrow> above ns 0 xs = xs"
  by (simp add: above_def filter_id_conv Suc_le_eq)

lemma Node_Next_ok:
  assumes "links_ok ns (P @ x # Q)" and "l < height_of ns x" and "x \<in> dom ns"
  shows "Node_Next ns x l = Inr (lnk (hd_opt (above ns l Q)))"
proof -
  obtain nd where nd: "ns x = Some nd" using assms(3) by auto
  have "nexts nd ! l = lnk (hd_opt (above ns l Q))"
    using assms(1,2) nd unfolding links_ok_def by fastforce
  then show ?thesis using assms(2) nd by (simp add: Node_Next_def height_of_def)
qed

text \<open>\<open>fill f l p\<close> stores \<open>f i\<close> at every index \<open>i \<le> l\<close>, in the order the search visits the levels.\<close>

primrec fill :: "(nat \<Rightarrow> 'a) \<Rightarrow> nat \<Rightarrow> 'a list \<Rightarrow> 'a list" where
  "fill f 0 p = p[0 := f 0]"
| "fill f (Suc l) p = fill f l (p[Suc l := f (Suc l)])"

lemma length_fill [simp]: "length (fill f l p) = length p"
  by (induction l arbitrary: p) simp_all

lemma nth_fill: "i < length p \<Longrightarrow> fill f l p ! i = (if i \<le> l then f i else p ! i)"
  by (induction l arbitrary: p) (auto simp: nth_list_update le_Suc_eq)

subsection \<open>Searching\<close>

text \<open>A comparator that compares ranks; \<open>rank\<close> is the score for the sorted set.\<close>

locale key_order =
  fixes cmp :: "'k \<Rightarrow> 'k \<Rightarrow> int" and rank :: "'k \<Rightarrow> 'r::linorder"
  assumes cmp_less: "cmp a b < 0 \<longleftrightarrow> rank a < rank b"
    and cmp_zero: "cmp a b = 0 \<longleftrightarrow> rank a = rank b"
begin

definition split_at :: "'k nodes \<Rightarrow> 'k \<Rightarrow> addr list \<Rightarrow> addr list \<Rightarrow> bool" where
  "split_at ns k A B \<longleftrightarrow>
     (\<forall>a\<in>set A. rank (key_of ns a) < rank k) \<and> (\<forall>b\<in>set B. rank k \<le> rank (key_of ns b))"

definition pred_at :: "'k nodes \<Rightarrow> addr \<Rightarrow> addr list \<Rightarrow> nat \<Rightarrow> addr" where
  "pred_at ns h A l = last (above ns l (h # A))"

lemma KeyIsAfter_Ptr:
  assumes "y \<in> dom ns"
  shows "KeyIsAfterNode cmp ns k (Ptr y) = Inr (rank (key_of ns y) < rank k)"
  using assms by (auto simp: KeyIsAfterNode_def key_of_def cmp_less)

lemma FGE_loop_correct:
  assumes links: "links_ok ns (h # A @ B)" and dom: "set (h # A @ B) \<subseteq> dom ns"
    and spl: "split_at ns k A B" and pos: "\<forall>b\<in>set B. 1 \<le> height_of ns b"
    and at: "h # A = P @ x # Q" and lev: "level < height_of ns x"
  shows "FGE_loop cmp ns k level x prev
           = returns (lnk (hd_opt B), map_option (fill (Some \<circ> pred_at ns h A) level) prev)"
  using at lev
proof (induction "(level, length Q)" arbitrary: level P x Q prev
       rule: wf_induct_rule [OF wf_lex_prod [OF wf_less_than wf_less_than]])
  case (1 level Q P x prev)
  have whole: "h # A @ B = P @ x # (Q @ B)" using "1.prems"(1) by (metis append.assoc append_Cons)
  have xd: "x \<in> dom ns" using dom whole by auto
  have nxt: "Node_Next ns x level = Inr (lnk (hd_opt (above ns level Q @ above ns level B)))"
    using Node_Next_ok [of ns P x "Q @ B" level] links whole xd "1.prems"(2) by simp
  show ?case
  proof (cases "above ns level Q")
    case Nil
    have last: "pred_at ns h A level = x"
      using "1.prems" Nil by (simp add: pred_at_def del: append_Cons)
    have "KeyIsAfterNode cmp ns k (lnk (hd_opt (above ns level B))) = Inr False"
    proof (cases "above ns level B")
      case (Cons y ys)
      then have "y \<in> set B" using above_in_set [of y ns level B] by simp
      then show ?thesis using Cons KeyIsAfter_Ptr [of y ns k] dom spl by (fastforce simp: split_at_def)
    qed (simp add: KeyIsAfterNode_def)
    then have step: "FGE_loop cmp ns k level x prev =
        (let prev' = map_option (\<lambda>p. p[level := Some x]) prev
         in if level = 0 then returns (lnk (hd_opt (above ns level B)), prev')
            else FGE_loop cmp ns k (level - 1) x prev')"
      using nxt Nil by (subst FGE_loop.simps) simp
    show ?thesis
    proof (cases level)
      case 0
      then show ?thesis
        using step above_0 [OF pos] last by (simp add: Let_def o_def cong: map_option_cong)
    next
      case (Suc l')
      then show ?thesis
        using step last "1.hyps" [of l' Q P x "map_option (\<lambda>p. p[level := Some x]) prev"] "1.prems"
        by (cases prev) (simp_all add: Let_def)
    qed
  next
    case (Cons y ys)
    then obtain us vs where Q: "Q = us @ y # vs" and yh: "level < height_of ns y"
      using hd_opt_filter_Some [of "\<lambda>a. level < height_of ns a" Q y] by (auto simp: above_def)
    have yA: "y \<in> set A" using "1.prems"(1) Q by (cases P) auto
    have after: "KeyIsAfterNode cmp ns k (Ptr y) = Inr True"
      using KeyIsAfter_Ptr [of y ns k] dom yA spl by (auto simp: split_at_def)
    have "FGE_loop cmp ns k level x prev = FGE_loop cmp ns k level y prev"
      using nxt Cons after by (subst FGE_loop.simps) simp
    also have "\<dots> = returns (lnk (hd_opt B), map_option (fill (Some \<circ> pred_at ns h A) level) prev)"
      using "1.hyps" [of level vs "P @ x # us" y prev] "1.prems"(1) Q yh by simp
    finally show ?thesis .
  qed
qed

text \<open>The position of a key: the sorted node sequence splits into what is below and the rest.\<close>

lemma sorted_split:
  fixes k :: 'k
  assumes "sorted (map (rank \<circ> key_of ns) L)"
  defines "A \<equiv> takeWhile (\<lambda>a. rank (key_of ns a) < rank k) L"
    and "B \<equiv> dropWhile (\<lambda>a. rank (key_of ns a) < rank k) L"
  shows "L = A @ B" and "split_at ns k A B"
proof -
  show L: "L = A @ B" by (simp add: A_def B_def)
  have "rank k \<le> rank (key_of ns b)" if "b \<in> set B" for b
  proof (cases B)
    case (Cons b0 bs)
    have "\<not> rank (key_of ns b0) < rank k"
      using Cons unfolding B_def by (metis dropWhile_eq_Cons_conv)
    moreover have "rank (key_of ns b0) \<le> rank (key_of ns b)"
      using assms(1) L Cons that by (auto simp: sorted_append)
    ultimately show ?thesis by simp
  qed (use that in simp)
  moreover have "rank (key_of ns a) < rank k" if "a \<in> set A" for a
    using that unfolding A_def by (metis set_takeWhileD)
  ultimately show "split_at ns k A B" by (simp add: split_at_def)
qed

lemma FindGreaterOrEqual_split:
  assumes ok: "sl_ok sl (A @ B)" and spl: "split_at (nodes sl) k A B"
  shows "FindGreaterOrEqual cmp sl k prev
           = returns (lnk (hd_opt B),
               map_option (fill (Some \<circ> pred_at (nodes sl) (head sl) A) (max_height sl - 1)) prev)"
proof -
  have "max_height sl - 1 < height_of (nodes sl) (head sl)"
    using ok by (auto simp: sl_ok_def kMaxHeight_def)
  then show ?thesis
    using FGE_loop_correct [of "nodes sl" "head sl" A B k "[]" "head sl" A "max_height sl - 1" prev]
      ok spl by (auto simp: sl_ok_def FindGreaterOrEqual_def GetMaxHeight_def)
qed

lemma FLT_loop_correct:
  assumes links: "links_ok ns (h # A @ B)" and dom: "set (h # A @ B) \<subseteq> dom ns"
    and spl: "split_at ns k A B"
    and at: "h # A = P @ x # Q" and lev: "level < height_of ns x"
  shows "FLT_loop dbg cmp ns h k level x = returns (pred_at ns h A 0)"
  using at lev
proof (induction "(level, length Q)" arbitrary: level P x Q
       rule: wf_induct_rule [OF wf_lex_prod [OF wf_less_than wf_less_than]])
  case (1 level Q P x)
  have whole: "h # A @ B = P @ x # (Q @ B)" using "1.prems"(1) by (metis append.assoc append_Cons)
  have xd: "x \<in> dom ns" using dom whole by auto
  have nxt: "Node_Next ns x level = Inr (lnk (hd_opt (above ns level Q @ above ns level B)))"
    using Node_Next_ok [of ns P x "Q @ B" level] links whole xd "1.prems"(2) by simp
  have "x = h \<or> x \<in> set A" using "1.prems"(1) by (cases P) auto
  then have noassert: "\<not> (dbg \<and> x \<noteq> h \<and> (case ns x of None \<Rightarrow> True | Some nd \<Rightarrow> \<not> cmp (nkey nd) k < 0))"
    using xd spl by (auto simp: split_at_def key_of_def cmp_less)
  note unfold = FLT_loop.simps [of dbg cmp ns h k level x, unfolded nxt, simplified noassert simp_thms if_False]
  show ?case
  proof (cases "above ns level Q")
    case Nil
    have step: "FLT_loop dbg cmp ns h k level x =
                  (if level = 0 then returns x else FLT_loop dbg cmp ns h k (level - 1) x)"
    proof (cases "above ns level B")
      case Nil
      then show ?thesis
        using \<open>above ns level Q = []\<close> by (subst unfold) simp
    next
      case (Cons y ys)
      then have yB: "y \<in> set B" using above_in_set [of y ns level B] by simp
      then obtain nd where nd: "ns y = Some nd" using dom by auto
      have "\<not> cmp (nkey nd) k < 0"
        using spl yB nd cmp_less by (fastforce simp: split_at_def key_of_def)
      then show ?thesis
        using Cons nd \<open>above ns level Q = []\<close> by (subst unfold) simp
    qed
    show ?thesis
    proof (cases level)
      case 0
      have "pred_at ns h A 0 = x"
        using "1.prems" Nil 0 by (simp add: pred_at_def del: append_Cons)
      then show ?thesis using step 0 by simp
    next
      case (Suc l')
      then show ?thesis using step "1.hyps" [of l' Q P x] "1.prems" by simp
    qed
  next
    case (Cons y ys)
    then obtain us vs where Q: "Q = us @ y # vs" and yh: "level < height_of ns y"
      using hd_opt_filter_Some [of "\<lambda>a. level < height_of ns a" Q y] by (auto simp: above_def)
    have yA: "y \<in> set A" using "1.prems"(1) Q by (cases P) auto
    then obtain nd where nd: "ns y = Some nd" using dom by auto
    have "cmp (nkey nd) k < 0"
      using spl yA nd by (auto simp: split_at_def key_of_def cmp_less)
    then have "FLT_loop dbg cmp ns h k level x = FLT_loop dbg cmp ns h k level y"
      using Cons nd by (subst unfold) simp
    also have "\<dots> = returns (pred_at ns h A 0)"
      using "1.hyps" [of level vs "P @ x # us" y] "1.prems"(1) Q yh by simp
    finally show ?thesis .
  qed
qed

end

lemma FL_loop_correct:
  assumes links: "links_ok ns (h # L)" and dom: "set (h # L) \<subseteq> dom ns"
    and pos: "\<forall>a\<in>set L. 1 \<le> height_of ns a"
    and at: "h # L = P @ x # Q" and lev: "level < height_of ns x"
  shows "FL_loop ns level x = returns (last (h # L))"
  using at lev
proof (induction "(level, length Q)" arbitrary: level P x Q
       rule: wf_induct_rule [OF wf_lex_prod [OF wf_less_than wf_less_than]])
  case (1 level Q P x)
  have xd: "x \<in> dom ns" using dom "1.prems"(1) by auto
  have nxt: "Node_Next ns x level = Inr (lnk (hd_opt (above ns level Q)))"
    using Node_Next_ok [of ns P x Q level] links "1.prems" xd by simp
  show ?case
  proof (cases "above ns level Q")
    case Nil
    then have step: "FL_loop ns level x = (if level = 0 then returns x else FL_loop ns (level - 1) x)"
      by (subst FL_loop.simps, subst nxt) simp
    show ?thesis
    proof (cases level)
      case 0
      have "set Q \<subseteq> set L" using "1.prems"(1) by (cases P) auto
      then have "above ns 0 Q = Q" using pos by (intro above_0) auto
      then have "Q = []" using Nil 0 by simp
      then have "last (h # L) = x" using "1.prems"(1) by simp
      then show ?thesis using step 0 by simp
    next
      case (Suc l')
      then show ?thesis using step "1.hyps" [of l' Q P x] "1.prems" by simp
    qed
  next
    case (Cons y ys)
    then obtain us vs where Q: "Q = us @ y # vs" and yh: "level < height_of ns y"
      using hd_opt_filter_Some [of "\<lambda>a. level < height_of ns a" Q y] by (auto simp: above_def)
    have "FL_loop ns level x = FL_loop ns level y"
      using nxt Cons by (subst FL_loop.simps) simp
    also have "\<dots> = returns (last (h # L))"
      using "1.hyps" [of level vs "P @ x # us" y] "1.prems"(1) Q yh by simp
    finally show ?thesis .
  qed
qed

subsection \<open>Insertion\<close>

definition link_at :: "'k nodes \<Rightarrow> addr \<Rightarrow> nat \<Rightarrow> link" where
  "link_at ns a l = nexts (the (ns a)) ! l"

lemma links_okD:
  "links_ok ns xs \<Longrightarrow> xs = P @ x # Q \<Longrightarrow> l < height_of ns x
     \<Longrightarrow> link_at ns x l = lnk (hd_opt (above ns l Q))"
  unfolding links_ok_def link_at_def by blast

lemma links_okI:
  "(\<And>P x Q l. xs = P @ x # Q \<Longrightarrow> l < height_of ns x \<Longrightarrow> link_at ns x l = lnk (hd_opt (above ns l Q)))
     \<Longrightarrow> links_ok ns xs"
  unfolding links_ok_def link_at_def by blast

definition same_frame :: "'k nodes \<Rightarrow> 'k nodes \<Rightarrow> bool" where
  "same_frame ns ns' \<longleftrightarrow> dom ns' = dom ns \<and> key_of ns' = key_of ns \<and> height_of ns' = height_of ns"

lemma same_frame_trans: "same_frame a b \<Longrightarrow> same_frame b c \<Longrightarrow> same_frame a c"
  by (simp add: same_frame_def)

lemma same_frame_above: "same_frame ns ns' \<Longrightarrow> above ns' = above ns"
  by (simp add: same_frame_def above_def fun_eq_iff)

lemma Node_SetNext_ok:
  assumes "x \<in> dom ns" and "l < height_of ns x"
  obtains ns' where "Node_SetNext ns x l v = Inr ns'" and "same_frame ns ns'"
    and "link_at ns' = (link_at ns)(x := (link_at ns x)(l := v))"
proof -
  obtain nd where nd: "ns x = Some nd" using assms(1) by auto
  let ?ns' = "ns(x \<mapsto> nd\<lparr>nexts := (nexts nd)[l := v]\<rparr>)"
  show thesis
  proof (rule that [of ?ns'])
    show "Node_SetNext ns x l v = Inr ?ns'"
      using nd assms(2) by (simp add: Node_SetNext_def height_of_def)
    show "same_frame ns ?ns'"
      using nd by (auto simp: same_frame_def key_of_def height_of_def fun_eq_iff)
    show "link_at ?ns' = (link_at ns)(x := (link_at ns x)(l := v))"
      using nd assms(2) by (auto simp: link_at_def height_of_def fun_eq_iff nth_list_update)
  qed
qed

lemma set_null_links_ok:
  assumes "h \<in> dom ns" and "\<forall>i\<in>set is. i < height_of ns h"
  shows "\<exists>ns'. set_null_links ns h is = Inr ns' \<and> same_frame ns ns' \<and>
           (\<forall>i\<in>set is. link_at ns' h i = Null) \<and>
           (\<forall>i. i \<notin> set is \<longrightarrow> link_at ns' h i = link_at ns h i)"
  using assms
proof (induction "is" arbitrary: ns)
  case Nil
  then show ?case by (simp add: same_frame_def)
next
  case (Cons i "is")
  have "i < height_of ns h" using Cons.prems(2) by simp
  then obtain ns1 where ns1: "Node_SetNext ns h i Null = Inr ns1" "same_frame ns ns1"
    "link_at ns1 = (link_at ns)(h := (link_at ns h)(i := Null))"
    using Node_SetNext_ok [OF Cons.prems(1), of i Null] by blast
  then obtain ns' where "set_null_links ns1 h is = Inr ns'" "same_frame ns1 ns'"
    "\<forall>j\<in>set is. link_at ns' h j = Null" "\<forall>j. j \<notin> set is \<longrightarrow> link_at ns' h j = link_at ns1 h j"
    using Cons.IH [of ns1] Cons.prems by (auto simp: same_frame_def)
  moreover have "same_frame ns ns'" using ns1(2) calculation(2) by (rule same_frame_trans)
  ultimately show ?case using ns1(1,3) by (intro exI [of _ ns']) auto
qed

lemma above_fresh: "p \<notin> set xs \<Longrightarrow> above (ns(p \<mapsto> nd)) l xs = above ns l xs"
  unfolding above_def by (intro filter_cong) (auto simp: height_of_def)

lemma links_ok_fresh:
  "p \<notin> set xs \<Longrightarrow> links_ok (ns(p \<mapsto> nd)) xs \<longleftrightarrow> links_ok ns xs"
proof -
  assume p: "p \<notin> set xs"
  have h: "height_of (ns(p \<mapsto> nd)) a = height_of ns a" if "a \<in> set xs" for a
    using that p by (auto simp: height_of_def)
  have "(l < height_of (ns(p \<mapsto> nd)) x \<longrightarrow>
           nexts (the ((ns(p \<mapsto> nd)) x)) ! l = lnk (hd_opt (above (ns(p \<mapsto> nd)) l Q))) \<longleftrightarrow>
        (l < height_of ns x \<longrightarrow> nexts (the (ns x)) ! l = lnk (hd_opt (above ns l Q)))"
    if xs: "xs = P @ x # Q" for P x Q l
  proof -
    have "above (ns(p \<mapsto> nd)) l Q = above ns l Q" using xs p by (intro above_fresh) auto
    then show ?thesis using xs p h by auto
  qed
  then show ?thesis unfolding links_ok_def by blast
qed

context key_order
begin

lemma pred_at_split:
  assumes "h # A = P @ x # Q" and "l < height_of ns x"
  shows "pred_at ns h A l = last (x # above ns l Q)"
  unfolding pred_at_def assms(1) using assms(2) by simp

lemma pred_at_mem:
  assumes "l < height_of ns h"
  shows "pred_at ns h A l \<in> set (h # A)" and "l < height_of ns (pred_at ns h A l)"
proof -
  have "above ns l (h # A) \<noteq> []" using assms by simp
  then have "pred_at ns h A l \<in> set (above ns l (h # A))"
    unfolding pred_at_def by (rule last_in_set)
  then show "pred_at ns h A l \<in> set (h # A)" "l < height_of ns (pred_at ns h A l)"
    using above_in_set by blast+
qed

lemma pred_at_next:
  assumes "links_ok ns (h # A @ B)" and "l < height_of ns h"
  shows "link_at ns (pred_at ns h A l) l = lnk (hd_opt (above ns l B))"
proof -
  let ?x = "pred_at ns h A l"
  obtain P Q where PQ: "h # A = P @ ?x # Q" and "?x \<notin> set Q"
    using pred_at_mem(1) [OF assms(2)] by (metis split_list_last)
  have hx: "l < height_of ns ?x" using assms(2) by (rule pred_at_mem(2))
  have "above ns l Q = []"
  proof (rule ccontr)
    assume ne: "above ns l Q \<noteq> []"
    then have "?x = last (above ns l Q)" using pred_at_split [OF PQ hx] by simp
    then have "?x \<in> set (above ns l Q)" using last_in_set [OF ne] by simp
    then show False using \<open>?x \<notin> set Q\<close> above_in_set by blast
  qed
  moreover have "h # A @ B = P @ ?x # (Q @ B)"
    using arg_cong [OF PQ, of "\<lambda>xs. xs @ B"] by simp
  ultimately show ?thesis using links_okD [OF assms(1) _ hx, of P "Q @ B"] by simp
qed

text \<open>The store when the levels below \<open>i\<close> are done.\<close>

definition spliced :: "'k nodes \<Rightarrow> addr \<Rightarrow> addr list \<Rightarrow> addr list \<Rightarrow> addr \<Rightarrow> nat \<Rightarrow> 'k nodes \<Rightarrow> bool" where
  "spliced ns0 h A B p i ns \<longleftrightarrow> same_frame ns0 ns \<and>
     (\<forall>a l. link_at ns a l =
        (if l < i \<and> a = p then lnk (hd_opt (above ns0 l B))
         else if l < i \<and> a = pred_at ns0 h A l then Ptr p
         else link_at ns0 a l))"

lemma splice_step:
  assumes sp: "spliced ns0 h A B p i ns" and links: "links_ok ns0 (h # A @ B)"
    and dom: "set (h # A @ B) \<subseteq> dom ns0" "p \<in> dom ns0" "p \<notin> set (h # A)"
    and hs: "i < height_of ns0 p" "i < height_of ns0 h"
    and prev: "i < length prev" "prev ! i = Some (pred_at ns0 h A i)"
  obtains ns2 where "splice_levels ns p prev (i # is) = splice_levels ns2 p prev is"
    and "spliced ns0 h A B p (Suc i) ns2"
proof -
  let ?pv = "pred_at ns0 h A i"
  have pv: "?pv \<in> set (h # A)" "i < height_of ns0 ?pv" using pred_at_mem hs(2) by auto
  have pvd: "?pv \<in> dom ns0" using pv(1) dom(1) by auto
  have fr: "same_frame ns0 ns" using sp by (simp add: spliced_def)
  have ne: "?pv \<noteq> p" using pv(1) dom(3) by auto
  have "link_at ns ?pv i = lnk (hd_opt (above ns0 i B))"
    using sp ne pred_at_next [OF links hs(2)] by (simp add: spliced_def)
  moreover have "?pv \<in> dom ns" "i < height_of ns ?pv"
    using fr pv dom(1) by (auto simp: same_frame_def)
  ultimately have nxt: "NoBarrier_Next ns ?pv i = Inr (lnk (hd_opt (above ns0 i B)))"
    by (auto simp: NoBarrier_Next_def Node_Next_def link_at_def height_of_def)
  obtain ns1 where ns1: "Node_SetNext ns p i (lnk (hd_opt (above ns0 i B))) = Inr ns1"
    "same_frame ns ns1" "link_at ns1 = (link_at ns)(p := (link_at ns p)(i := lnk (hd_opt (above ns0 i B))))"
    using fr dom(2) hs(1) by (metis Node_SetNext_ok same_frame_def)
  have fr1: "same_frame ns0 ns1" using fr ns1(2) by (rule same_frame_trans)
  obtain ns2 where ns2: "Node_SetNext ns1 ?pv i (Ptr p) = Inr ns2"
    "same_frame ns1 ns2" "link_at ns2 = (link_at ns1)(?pv := (link_at ns1 ?pv)(i := Ptr p))"
    using fr1 pv(2) pvd by (metis Node_SetNext_ok same_frame_def)
  show thesis
  proof (rule that)
    show "splice_levels ns p prev (i # is) = splice_levels ns2 p prev is"
      using prev nxt ns1(1) ns2(1) by (simp add: NoBarrier_SetNext_def)
    have "link_at ns2 a l =
        (if l < Suc i \<and> a = p then lnk (hd_opt (above ns0 l B))
         else if l < Suc i \<and> a = pred_at ns0 h A l then Ptr p
         else link_at ns0 a l)" for a l
      using sp ne unfolding ns2(3) ns1(3) spliced_def by (auto simp: less_Suc_eq)
    then show "spliced ns0 h A B p (Suc i) ns2"
      using fr1 ns2(2) same_frame_trans unfolding spliced_def by blast
  qed
qed

end

end
