(* ===== verification/Skip_List_Insert.thy ===== *)
theory Skip_List_Insert
  imports Skip_List_Correct
begin

section \<open>Insertion, iteration and the contract of the skip list\<close>

text \<open>
  The whole-list lemmas: insertion links the new node at every one of its levels and
  keeps the invariant, searches and iterators return the right nodes, and a debug
  build stops on a key that is already there. The properties at the end are the
  contract of \<open>SkipList\<close> over the model's operations.
\<close>

lemma insort_key_split:
  "insort_key f x xs = takeWhile (\<lambda>y. f y < f x) xs @ x # dropWhile (\<lambda>y. f y < f x) xs"
  by (induction xs) (auto simp: not_less)

subsection \<open>Heights\<close>

lemma random_height_loop_ok:
  assumes "seed_ok r" and "h \<le> kMaxHeight" and "random_height_loop r h = (h', r')"
  shows "h \<le> h' \<and> h' \<le> kMaxHeight \<and> seed_ok r'"
  using assms
proof (induction r h arbitrary: h' r' rule: random_height_loop.induct)
  case (1 r h)
  obtain v r1 where v: "Random_Next r = (v, r1)" by fastforce
  have "seed_ok r1" using seed_ok_Next [OF "1.prems"(1)] v by simp
  then show ?case
    using 1 v by (auto simp: random_height_loop.simps [of r h] split: if_splits) fastforce
qed

lemma RandomHeight_ok:
  assumes "seed_ok r" and "RandomHeight r = (h, r')"
  shows "1 \<le> h" and "h \<le> kMaxHeight" and "seed_ok r'"
  using random_height_loop_ok [of r 1 h r'] assms by (auto simp: RandomHeight_def kMaxHeight_def)

definition node_bytes :: "u64 \<Rightarrow> nat \<Rightarrow> u64" where
  "node_bytes sizeof_Node height = sizeof_Node + 8 * (word_of_nat height - 1)"

definition node_size_ok :: "u64 \<Rightarrow> bool" where
  "node_size_ok s \<longleftrightarrow> 0 < s \<and> unat s < 2 ^ 32"

lemma unat_node_bytes:
  assumes "node_size_ok s" and "1 \<le> h" and "h \<le> kMaxHeight"
  shows "unat (node_bytes s h) = unat s + 8 * (h - 1)"
proof -
  define w :: u64 where "w = word_of_nat h - 1"
  have "unat w = h - 1"
    using assms(2,3) by (simp add: w_def kMaxHeight_def unat_sub_if' unsigned_of_nat take_bit_nat_eq_self)
  then have "unat (8 * w) = 8 * (h - 1)"
    using assms(3) by (simp add: unat_word_ariths kMaxHeight_def)
  moreover have "unat s + 8 * (h - 1) < 2 ^ 64"
    using assms by (auto simp: node_size_ok_def kMaxHeight_def)
  ultimately show ?thesis
    unfolding node_bytes_def w_def [symmetric] by (subst unat_add_lem [THEN iffD1]) simp_all
qed

lemma sane_node_bytes:
  assumes "node_size_ok s" and "1 \<le> h" and "h \<le> kMaxHeight"
  shows "sane_size (node_bytes s h)"
  using assms unat_node_bytes [OF assms]
  by (auto simp: sane_size_def node_size_ok_def kMaxHeight_def word_less_nat_alt)

subsection \<open>Splicing\<close>

text \<open>The arena has no memory left for some node.\<close>

definition refuses :: "bool \<Rightarrow> new_fn \<Rightarrow> mem \<Rightarrow> u64 \<Rightarrow> bool" where
  "refuses dbg nw m s \<longleftrightarrow>
     (\<exists>ht\<in>{1..kMaxHeight}. arena_alloc dbg nw m (node_bytes s ht) = Inl Bad_alloc)"

text \<open>The arena has handed out one node.\<close>

definition grants :: "bool \<Rightarrow> new_fn \<Rightarrow> mem \<Rightarrow> u64 \<Rightarrow> mem \<Rightarrow> bool" where
  "grants dbg nw m s m' \<longleftrightarrow>
     (\<exists>ht\<in>{1..kMaxHeight}. \<exists>p. arena_alloc dbg nw m (node_bytes s ht) = Inr (p, m'))"

text \<open>The list together with the arena it lives in: every node is a region the arena handed out.\<close>

definition list_inv ::
  "('k \<Rightarrow> 'r::linorder) \<Rightarrow> new_fn \<Rightarrow> mem \<Rightarrow> region list \<Rightarrow> 'k skip_list \<Rightarrow> addr list \<Rightarrow> bool" where
  "list_inv rank nw m R sl L \<longleftrightarrow>
     arena_inv nw m R \<and> sl_ok sl L \<and> set (head sl # L) \<subseteq> fst ` set R \<and>
     sorted (map rank (sl_keys sl L))"

context key_order
begin

lemma splice_levels_ok:
  assumes sp: "spliced ns0 h A B p i ns" and links: "links_ok ns0 (h # A @ B)"
    and dom: "set (h # A @ B) \<subseteq> dom ns0" "p \<in> dom ns0" "p \<notin> set (h # A)"
    and hs: "height_of ns0 p = height" "height \<le> height_of ns0 h"
    and prev: "height \<le> length prev" "\<forall>j<height. prev ! j = Some (pred_at ns0 h A j)"
    and i: "i \<le> height"
  shows "\<exists>ns'. splice_levels ns p prev [i..<height] = Inr ns' \<and> spliced ns0 h A B p height ns'"
  using i sp
proof (induction "height - i" arbitrary: i ns)
  case 0
  then show ?case by simp
next
  case (Suc d)
  then have lt: "i < height" by simp
  obtain ns2 where "splice_levels ns p prev (i # [Suc i..<height]) = splice_levels ns2 p prev [Suc i..<height]"
    and "spliced ns0 h A B p (Suc i) ns2"
    using splice_step [OF Suc.prems(2) links dom, of prev "[Suc i..<height]"] lt hs prev by auto
  then show ?case using Suc.hyps(1) [of "Suc i" ns2] Suc.hyps(2) lt by (simp add: upt_conv_Cons)
qed

lemma links_ok_spliced:
  assumes sp: "spliced ns0 h A B p height ns" and links: "links_ok ns0 (h # A @ B)"
    and dist: "distinct (h # A @ p # B)" and hs: "height_of ns0 p = height" "height \<le> height_of ns0 h"
  shows "links_ok ns (h # A @ p # B)"
proof (rule links_okI)
  fix P x Q l assume at: "h # A @ p # B = P @ x # Q" and l: "l < height_of ns x"
  have fr: "same_frame ns0 ns" and la: "\<And>a l. link_at ns a l =
        (if l < height \<and> a = p then lnk (hd_opt (above ns0 l B))
         else if l < height \<and> a = pred_at ns0 h A l then Ptr p else link_at ns0 a l)"
    using sp by (simp_all add: spliced_def)
  have ab: "above ns = above ns0" using fr by (rule same_frame_above)
  have l0: "l < height_of ns0 x" using l fr by (simp add: same_frame_def)
  consider (new) "x = p" "Q = B" | (later) R where "B = R @ x # Q" "P = h # A @ p # R"
    | (earlier) Q' where "h # A = P @ x # Q'" "Q = Q' @ p # B"
    using at dist append_eq_append_conv2 [of "h # A" "p # B" P "x # Q"]
    by (auto simp: append_eq_Cons_conv Cons_eq_append_conv)
  then show "link_at ns x l = lnk (hd_opt (above ns l Q))"
  proof cases
    case new
    then show ?thesis using l0 hs by (simp add: la ab)
  next
    case later
    have "x \<noteq> pred_at ns0 h A l" if "l < height"
    proof -
      have "l < height_of ns0 h" using that hs(2) by simp
      then show ?thesis using pred_at_mem(1) [of l ns0 h A] dist later by auto
    qed
    moreover have "x \<noteq> p" using dist later by auto
    moreover have "link_at ns0 x l = lnk (hd_opt (above ns0 l Q))"
      using links_okD [OF links _ l0, of "h # A @ R" Q] later by simp
    ultimately show ?thesis by (cases "l < height") (simp_all add: la ab)
  next
    case earlier
    have xp: "x \<noteq> p" and xQ: "x \<notin> set Q'"
      using dist arg_cong [OF earlier(1), of set] arg_cong [OF earlier(1), of distinct] by auto
    have pr: "pred_at ns0 h A l = last (x # above ns0 l Q')"
      using pred_at_split [OF earlier(1) l0] .
    have eq: "h # A @ B = P @ x # (Q' @ B)" using arg_cong [OF earlier(1), of "\<lambda>xs. xs @ B"] by simp
    have old: "link_at ns0 x l = lnk (hd_opt (above ns0 l Q' @ above ns0 l B))"
      using links_okD [OF links eq l0] by simp
    show ?thesis
    proof (cases "above ns0 l Q'")
      case Nil
      then show ?thesis using pr old xp earlier(2) hs(1) by (cases "l < height") (simp_all add: la ab)
    next
      case (Cons y ys)
      then have "last (above ns0 l Q') \<in> set (above ns0 l Q')" by (intro last_in_set) simp
      then have "last (above ns0 l Q') \<in> set Q'" by (rule above_in_set [THEN conjunct1])
      then have "pred_at ns0 h A l \<noteq> x" using pr Cons xQ by auto
      then have "link_at ns x l = link_at ns0 x l" using xp by (simp add: la)
      then show ?thesis using Cons old earlier(2) by (simp add: ab)
    qed
  qed
qed

text \<open>What \<open>prev\<close> holds when the new node is spliced in, on both sides of \<open>max_height\<close>.\<close>

lemma prev_entries:
  assumes "\<forall>a\<in>set A. height_of ns a \<le> mh" and "height_of ns h = kMaxHeight"
    and "1 \<le> mh" and "mh \<le> kMaxHeight" and "height \<le> kMaxHeight" and "j < height"
  defines "p0 \<equiv> fill (Some \<circ> pred_at ns h A) (mh - 1) (replicate kMaxHeight None)"
  shows "(if height > mh then fold (\<lambda>i p. p[i := Some h]) [mh..<height] p0 else p0) ! j
           = Some (pred_at ns h A j)"
proof -
  have f: "length (fold (\<lambda>i p. p[i := Some h]) is p) = length p \<and>
      (j < length p \<longrightarrow> fold (\<lambda>i p. p[i := Some h]) is p ! j = (if j \<in> set is then Some h else p ! j))"
    for p :: prevs and "is" :: "nat list"
    by (induction "is" arbitrary: p) (auto simp: nth_list_update)
  have top: "pred_at ns h A j = h" if "mh \<le> j"
  proof -
    have "above ns j A = []" using assms(1) that by (auto simp: above_def filter_empty_conv)
    then show ?thesis using assms(2,5,6) by (simp add: pred_at_def)
  qed
  show ?thesis
    using assms(3-6) top f [of "[mh..<height]" p0] by (auto simp: p0_def nth_fill)
qed

lemma duplicate_iff:
  assumes ok: "sl_ok sl (A @ B)" and srt: "sorted (map rank (sl_keys sl (A @ B)))"
    and spl: "split_at (nodes sl) k A B"
  shows "duplicate cmp (nodes sl) k (lnk (hd_opt B)) \<longleftrightarrow> rank k \<in> rank ` set (sl_keys sl (A @ B))"
proof (cases B)
  case Nil
  then show ?thesis
    using spl by (force simp: duplicate_def split_at_def sl_keys_def)
next
  case (Cons b bs)
  have "b \<in> dom (nodes sl)" using ok Cons by (auto simp: sl_ok_def)
  then have "duplicate cmp (nodes sl) k (lnk (hd_opt B)) \<longleftrightarrow> rank k = rank (key_of (nodes sl) b)"
    using Cons by (auto simp: duplicate_def Equal_def cmp_zero key_of_def)
  moreover have "rank (key_of (nodes sl) b) \<le> rank (key_of (nodes sl) b')" if "b' \<in> set B" for b'
    using srt that Cons by (auto simp: sl_keys_def sorted_append)
  ultimately show ?thesis
    using spl Cons by (force simp: split_at_def sl_keys_def)
qed

lemma SkipList_Insert_unfold:
  assumes ok: "sl_ok sl (A @ B)" and spl: "split_at (nodes sl) k A B"
    and rh: "RandomHeight (rnd sl) = (height, rnd')"
    and nd: "\<not> (dbg \<and> duplicate cmp (nodes sl) k (lnk (hd_opt B)))"
    and nn: "arena_alloc dbg nw m (node_bytes s height) = Inr (p, m')"
    and fresh: "p \<notin> set (head sl # A @ B)"
  obtains ns' where
    "SkipList_Insert cmp dbg nw s m sl k
       = returns (m', sl\<lparr>nodes := ns', max_height := max height (max_height sl), rnd := rnd'\<rparr>)"
    and "spliced ((nodes sl)(p \<mapsto> \<lparr>nkey = k, nexts = replicate height Uninit\<rparr>)) (head sl) A B p height ns'"
proof -
  let ?mh = "max_height sl" and ?h = "head sl"
  let ?ns0 = "(nodes sl)(p \<mapsto> \<lparr>nkey = k, nexts = replicate height Uninit\<rparr>)"
  let ?p0 = "fill (Some \<circ> pred_at (nodes sl) ?h A) (?mh - 1) (replicate kMaxHeight None)"
  let ?prev = "if height > ?mh then fold (\<lambda>i p. p[i := Some ?h]) [?mh..<height] ?p0 else ?p0"
  have seed: "seed_ok (rnd sl)" using ok by (simp add: sl_ok_def)
  note ht = RandomHeight_ok [OF seed rh]
  have hgt: "height_of ?ns0 a = height_of (nodes sl) a" if "a \<noteq> p" for a
    using that by (simp add: height_of_def)
  have hh: "height_of ?ns0 ?h = kMaxHeight" using ok fresh hgt by (auto simp: sl_ok_def)
  have pa: "pred_at ?ns0 ?h A = pred_at (nodes sl) ?h A"
    unfolding pred_at_def using above_fresh [of p "?h # A" "nodes sl"] fresh by (simp add: fun_eq_iff del: above_simps)
  have entries: "?prev ! j = Some (pred_at ?ns0 ?h A j)" if "j < height" for j
    unfolding pa using ok ht that
    by (intro prev_entries) (auto simp: sl_ok_def)
  have len: "length (fold (\<lambda>i p. p[i := Some ?h]) is q) = length q" for "is" and q :: prevs
    by (induction "is" arbitrary: q) simp_all
  have plen: "length ?prev = kMaxHeight" by (simp add: len)
  have links: "links_ok ?ns0 (?h # A @ B)"
    using ok fresh links_ok_fresh by (metis sl_ok_def)
  have "spliced ?ns0 ?h A B p 0 ?ns0" by (simp add: spliced_def same_frame_def)
  from splice_levels_ok [OF this links, of height ?prev] obtain ns' where ns':
    "splice_levels ?ns0 p ?prev [0..<height] = Inr ns'" "spliced ?ns0 ?h A B p height ns'"
    using ok fresh ht plen hh entries by (auto simp: sl_ok_def height_of_def)
  have "SkipList_Insert cmp dbg nw s m sl k
       = returns (m', sl\<lparr>nodes := ns', max_height := max height ?mh, rnd := rnd'\<rparr>)"
    using FindGreaterOrEqual_split [OF ok spl, of "Some (replicate kMaxHeight None)"] nd rh nn ns'(1)
    by (auto simp: SkipList_Insert_def NewNode_def node_bytes_def GetMaxHeight_def max_def)
  then show thesis using that ns'(2) by blast
qed

lemma sl_ok_inserted:
  assumes ok: "sl_ok sl (A @ B)" and fresh: "p \<notin> set (head sl # A @ B)"
    and ht: "1 \<le> height" "height \<le> kMaxHeight" "seed_ok rnd'"
    and sp: "spliced ((nodes sl)(p \<mapsto> \<lparr>nkey = k, nexts = replicate height Uninit\<rparr>)) (head sl) A B p height ns'"
  defines "sl' \<equiv> sl\<lparr>nodes := ns', max_height := max height (max_height sl), rnd := rnd'\<rparr>"
  shows "sl_ok sl' (A @ p # B)" and "sl_keys sl' (A @ p # B) = sl_keys sl A @ k # sl_keys sl B"
proof -
  let ?ns0 = "(nodes sl)(p \<mapsto> \<lparr>nkey = k, nexts = replicate height Uninit\<rparr>)"
  have fr: "same_frame ?ns0 ns'" using sp by (simp add: spliced_def)
  have hgt: "height_of ns' a = (if a = p then height else height_of (nodes sl) a)" for a
    using fr by (simp add: same_frame_def) (simp add: height_of_def)
  have key: "key_of ns' a = (if a = p then k else key_of (nodes sl) a)" for a
    using fr by (simp add: same_frame_def) (simp add: key_of_def)
  have dm: "dom ns' = insert p (dom (nodes sl))" using fr by (simp add: same_frame_def)
  have "links_ok ?ns0 (head sl # A @ B)" using ok fresh links_ok_fresh by (metis sl_ok_def)
  moreover have "distinct (head sl # A @ p # B)" using ok fresh by (auto simp: sl_ok_def)
  ultimately have "links_ok ns' (head sl # A @ p # B)"
    using links_ok_spliced [OF sp] ok fresh ht by (auto simp: sl_ok_def height_of_def)
  moreover have "\<forall>a\<in>set (A @ p # B). 1 \<le> height_of ns' a \<and> height_of ns' a \<le> max height (max_height sl)"
    using ok ht hgt by (auto simp: sl_ok_def le_max_iff_disj)
  moreover have "height_of ns' (head sl) = kMaxHeight"
    using ok fresh hgt by (auto simp: sl_ok_def)
  ultimately show "sl_ok sl' (A @ p # B)"
    using ok fresh dm ht by (auto simp: sl_ok_def sl'_def)
  show "sl_keys sl' (A @ p # B) = sl_keys sl A @ k # sl_keys sl B"
    using fresh by (auto simp: sl_keys_def sl'_def key)
qed

lemma SkipList_Insert_correct:
  assumes inv: "list_inv rank nw m R sl L" and s: "node_size_ok s"
    and nodup: "\<not> (dbg \<and> rank k \<in> rank ` set (sl_keys sl L))"
  shows "SkipList_Insert cmp dbg nw s m sl k = fails Bad_alloc \<and> refuses dbg nw m s \<or>
     (\<exists>m' sl' R' L'. SkipList_Insert cmp dbg nw s m sl k = returns (m', sl') \<and>
        list_inv rank nw m' R' sl' L' \<and> sl_keys sl' L' = insort_key rank k (sl_keys sl L) \<and>
        set R \<subseteq> set R' \<and> head sl' = head sl \<and> grants dbg nw m s m')"
proof -
  have ok: "sl_ok sl L" and ar: "arena_inv nw m R" and srt: "sorted (map rank (sl_keys sl L))"
    and reg: "set (head sl # L) \<subseteq> fst ` set R"
    using inv by (simp_all add: list_inv_def)
  define A where "A = takeWhile (\<lambda>a. rank (key_of (nodes sl) a) < rank k) L"
  define B where "B = dropWhile (\<lambda>a. rank (key_of (nodes sl) a) < rank k) L"
  have L: "L = A @ B" and spl: "split_at (nodes sl) k A B"
    using sorted_split [of "nodes sl" L k] srt by (simp_all add: A_def B_def sl_keys_def o_def)
  have keys: "insort_key rank k (sl_keys sl L) = sl_keys sl A @ k # sl_keys sl B"
    by (simp add: insort_key_split sl_keys_def A_def B_def takeWhile_map dropWhile_map o_def)
  obtain height rnd' where rh: "RandomHeight (rnd sl) = (height, rnd')" by fastforce
  have ht: "1 \<le> height" "height \<le> kMaxHeight" "seed_ok rnd'"
    using RandomHeight_ok [OF _ rh] ok by (auto simp: sl_ok_def)
  have sane: "sane_size (node_bytes s height)" using s ht by (intro sane_node_bytes)
  have nd: "\<not> (dbg \<and> duplicate cmp (nodes sl) k (lnk (hd_opt B)))"
    using nodup duplicate_iff [of sl A B k] ok srt spl L by simp
  show ?thesis
  proof (cases "arena_alloc dbg nw m (node_bytes s height)")
    case (Inl e)
    then have "e = Bad_alloc" using arena_alloc_fault [OF ar sane] by simp
    moreover from this have "refuses dbg nw m s" using Inl ht by (auto simp: refuses_def)
    ultimately show ?thesis
      using FindGreaterOrEqual_split [of sl A B k "Some (replicate kMaxHeight None)"] Inl nd rh ok L spl
      by (auto simp: SkipList_Insert_def NewNode_def node_bytes_def Let_def)
  next
    case (Inr r)
    then obtain p m' where al: "arena_alloc dbg nw m (node_bytes s height) = Inr (p, m')"
      by (cases r) simp
    have fresh: "p \<notin> set (head sl # A @ B)"
      using arena.alloc_fresh [OF ar sane al] reg L by auto
    obtain ns' where ins: "SkipList_Insert cmp dbg nw s m sl k
        = returns (m', sl\<lparr>nodes := ns', max_height := max height (max_height sl), rnd := rnd'\<rparr>)"
      and sp: "spliced ((nodes sl)(p \<mapsto> \<lparr>nkey = k, nexts = replicate height Uninit\<rparr>)) (head sl) A B p height ns'"
      using SkipList_Insert_unfold [OF _ spl rh nd al fresh] ok L by auto
    define sl' where "sl' = sl\<lparr>nodes := ns', max_height := max height (max_height sl), rnd := rnd'\<rparr>"
    have new: "sl_ok sl' (A @ p # B)" "sl_keys sl' (A @ p # B) = insort_key rank k (sl_keys sl L)"
      using sl_ok_inserted [OF _ fresh ht sp] ok L keys by (simp_all add: sl'_def)
    have "list_inv rank nw m' ((p, node_bytes s height) # R) sl' (A @ p # B)"
      using arena.alloc_ok [OF ar sane al] new sorted_insort_key [of rank k "sl_keys sl L"] srt reg L
      by (auto simp: list_inv_def sl'_def)
    moreover have "grants dbg nw m s m'" using al ht by (auto simp: grants_def)
    ultimately show ?thesis using ins new(2)
      by (intro disjI2 exI [of _ m'] exI [of _ sl'] exI [of _ "(p, node_bytes s height) # R"] exI [of _ "A @ p # B"])
        (auto simp: sl'_def)
  qed
qed

lemma sorted_splitE:
  assumes "sorted (map rank (sl_keys sl L))"
  obtains A B where "L = A @ B" and "split_at (nodes sl) k A B"
proof (rule that)
  show "L = takeWhile (\<lambda>a. rank (key_of (nodes sl) a) < rank k) L @
            dropWhile (\<lambda>a. rank (key_of (nodes sl) a) < rank k) L" by simp
  show "split_at (nodes sl) k (takeWhile (\<lambda>a. rank (key_of (nodes sl) a) < rank k) L)
          (dropWhile (\<lambda>a. rank (key_of (nodes sl) a) < rank k) L)"
    using sorted_split(2) [of "nodes sl" L k] assms by (simp add: sl_keys_def o_def)
qed

lemma SkipList_Insert_duplicate:
  assumes inv: "list_inv rank nw m R sl L" and dup: "rank k \<in> rank ` set (sl_keys sl L)"
  shows "SkipList_Insert cmp True nw s m sl k = fails Assertion"
proof -
  have ok: "sl_ok sl L" and srt: "sorted (map rank (sl_keys sl L))"
    using inv by (simp_all add: list_inv_def)
  obtain A B where L: "L = A @ B" and spl: "split_at (nodes sl) k A B" using srt by (rule sorted_splitE)
  have "duplicate cmp (nodes sl) k (lnk (hd_opt B))"
    using duplicate_iff [of sl A B k] ok srt spl L dup by simp
  then show ?thesis
    using FindGreaterOrEqual_split [of sl A B k "Some (replicate kMaxHeight None)"] ok L spl
    by (auto simp: SkipList_Insert_def)
qed

lemma Contains_correct:
  assumes ok: "sl_ok sl L" and srt: "sorted (map rank (sl_keys sl L))"
  shows "Contains cmp sl k = returns (rank k \<in> rank ` set (sl_keys sl L))"
proof -
  obtain A B where L: "L = A @ B" and spl: "split_at (nodes sl) k A B" using srt by (rule sorted_splitE)
  then show ?thesis
    using FindGreaterOrEqual_split [of sl A B k None] duplicate_iff [of sl A B k] ok srt
    by (simp add: Contains_def)
qed

subsection \<open>Iterators\<close>

lemma Seek_correct:
  assumes ok: "sl_ok sl L" and srt: "sorted (map rank (sl_keys sl L))"
  shows "Iterator_Seek cmp sl k
           = returns (lnk (hd_opt (dropWhile (\<lambda>a. rank (key_of (nodes sl) a) < rank k) L)))"
  using FindGreaterOrEqual_split [of sl "takeWhile (\<lambda>a. rank (key_of (nodes sl) a) < rank k) L"
      "dropWhile (\<lambda>a. rank (key_of (nodes sl) a) < rank k) L" k None]
    sorted_split(2) [of "nodes sl" L k] assms
  by (simp add: Iterator_Seek_def sl_keys_def o_def)

lemma FindLessThan_correct:
  assumes ok: "sl_ok sl (A @ B)" and spl: "split_at (nodes sl) k A B"
  shows "FindLessThan dbg cmp sl k = returns (last (head sl # A))"
proof -
  have "max_height sl - 1 < height_of (nodes sl) (head sl)" and h: "0 < height_of (nodes sl) (head sl)"
    using ok by (auto simp: sl_ok_def kMaxHeight_def)
  moreover have "above (nodes sl) 0 A = A" using ok by (intro above_0) (auto simp: sl_ok_def)
  ultimately show ?thesis
    using FLT_loop_correct [of "nodes sl" "head sl" A B k "[]" "head sl" A "max_height sl - 1" dbg] ok spl
    by (simp add: sl_ok_def FindLessThan_def GetMaxHeight_def pred_at_def subset_insertI2)
qed

end

lemma list_links_next:
  assumes ok: "sl_ok sl L" and L: "head sl # L = P @ x # Q"
  shows "Node_Next (nodes sl) x 0 = Inr (lnk (hd_opt Q))"
proof -
  have "set Q \<subseteq> set L" "x \<in> set (head sl # L)" using L by (cases P; auto)+
  moreover from this(1) have "above (nodes sl) 0 Q = Q" using ok by (intro above_0) (auto simp: sl_ok_def)
  moreover have "0 < height_of (nodes sl) x"
    using ok calculation(2) by (auto simp: sl_ok_def kMaxHeight_def)
  ultimately show ?thesis
    using Node_Next_ok [of "nodes sl" P x Q 0] ok L by (simp add: sl_ok_def)
qed

lemma Iterator_Next_correct:
  assumes "sl_ok sl (P @ x # Q)"
  shows "Iterator_Next dbg sl (Ptr x) = returns (lnk (hd_opt Q))"
  using list_links_next [OF assms, of "head sl # P" x Q] by (simp add: Iterator_Next_def Valid_def)

lemma Iterator_key_correct:
  assumes "sl_ok sl L" and "x \<in> set L"
  shows "Iterator_key dbg sl (Ptr x) = returns (key_of (nodes sl) x)"
proof -
  have "x \<in> dom (nodes sl)" using assms by (auto simp: sl_ok_def)
  then show ?thesis by (auto simp: Iterator_key_def Valid_def key_of_def)
qed

lemma SeekToFirst_correct:
  assumes "sl_ok sl L" shows "Iterator_SeekToFirst sl = returns (lnk (hd_opt L))"
  using list_links_next [OF assms, of "[]" "head sl" L] by (simp add: Iterator_SeekToFirst_def)

lemma SeekToLast_correct:
  assumes ok: "sl_ok sl L"
  shows "Iterator_SeekToLast sl = returns (if L = [] then Null else Ptr (last L))"
proof -
  have "max_height sl - 1 < height_of (nodes sl) (head sl)" using ok by (auto simp: sl_ok_def kMaxHeight_def)
  then have "FindLast sl = returns (last (head sl # L))"
    using FL_loop_correct [of "nodes sl" "head sl" L "[]" "head sl" L "max_height sl - 1"] ok
    by (simp add: sl_ok_def FindLast_def GetMaxHeight_def subset_insertI)
  moreover have "last L \<noteq> head sl" if "L \<noteq> []"
    using ok last_in_set [OF that] by (auto simp: sl_ok_def)
  ultimately show ?thesis by (simp add: Iterator_SeekToLast_def)
qed

subsection \<open>Construction\<close>

lemma SkipList_ctor_correct:
  assumes ar: "arena_inv nw m R" and s: "node_size_ok s"
  shows "SkipList_ctor dbg nw s m k0 = Inl Bad_alloc \<and> refuses dbg nw m s \<or>
     (\<exists>m' sl h. SkipList_ctor dbg nw s m k0 = Inr (m', sl) \<and>
        list_inv rank nw m' ((h, node_bytes s kMaxHeight) # R) sl [] \<and> head sl = h \<and>
        grants dbg nw m s m')"
proof (cases "arena_alloc dbg nw m (node_bytes s kMaxHeight)")
  case (Inl e)
  moreover have sane: "sane_size (node_bytes s kMaxHeight)" using s by (intro sane_node_bytes) (simp_all add: kMaxHeight_def)
  ultimately have "e = Bad_alloc" using arena_alloc_fault [OF ar] by simp
  moreover from this have "refuses dbg nw m s"
    using Inl by (auto simp: refuses_def kMaxHeight_def intro!: bexI [of _ 12])
  ultimately show ?thesis using Inl by (simp add: SkipList_ctor_def NewNode_def node_bytes_def)
next
  case (Inr r)
  have sane: "sane_size (node_bytes s kMaxHeight)" using s by (intro sane_node_bytes) (simp_all add: kMaxHeight_def)
  obtain h m' where al: "arena_alloc dbg nw m (node_bytes s kMaxHeight) = Inr (h, m')"
    using Inr by (cases r) simp
  let ?ns = "[h \<mapsto> \<lparr>nkey = k0, nexts = replicate kMaxHeight Uninit\<rparr>]"
  have "h \<in> dom ?ns" "\<forall>i\<in>set [0..<kMaxHeight]. i < height_of ?ns h" by (auto simp: height_of_def)
  from set_null_links_ok [OF this] obtain ns' where ns': "set_null_links ?ns h [0..<kMaxHeight] = Inr ns'"
    "same_frame ?ns ns'" "\<forall>i<kMaxHeight. link_at ns' h i = Null" by auto
  let ?sl = "\<lparr>nodes = ns', head = h, max_height = 1, rnd = Random_ctor 0xdeadbeef\<rparr>"
  have ht: "height_of ns' h = kMaxHeight" and dm: "dom ns' = {h}"
    using ns'(2) by (simp_all add: same_frame_def height_of_def)
  have "links_ok ns' [h]"
    using ns'(3) ht by (intro links_okI) (auto simp: Cons_eq_append_conv)
  then have "list_inv rank nw m' ((h, node_bytes s kMaxHeight) # R) ?sl []"
    using arena.alloc_ok [OF ar sane al] ht dm
    by (simp add: list_inv_def sl_ok_def sl_keys_def seed_ok_ctor kMaxHeight_def)
  moreover have "SkipList_ctor dbg nw s m k0 = Inr (m', ?sl)"
    using al ns'(1) by (simp add: SkipList_ctor_def NewNode_def node_bytes_def)
  moreover have "grants dbg nw m s m'"
    using al by (auto simp: grants_def kMaxHeight_def intro!: bexI [of _ 12])
  ultimately show ?thesis by auto
qed

text \<open>Other lists in the same arena are untouched when it hands out more memory.\<close>

lemma list_inv_mono:
  assumes "list_inv rank nw m R sl L" and "arena_inv nw m' R'" and "set R \<subseteq> set R'"
  shows "list_inv rank nw m' R' sl L"
  using assms image_mono [OF assms(3), of fst] by (auto simp: list_inv_def)

subsection \<open>A free store with room\<close>

text \<open>On the bumping free store a request is only refused when the address space is nearly used up.\<close>

definition plenty :: "nat \<Rightarrow> mem \<Rightarrow> bool" where
  "plenty n m \<longleftrightarrow> store_end (snd m) + n * 8192 < 2 ^ 32"

lemma AllocateNewBlock_bump:
  assumes "unat n \<le> 4096" and "store_end fs < 2 ^ 32"
  shows "\<exists>p a'. AllocateNewBlock bump_new a fs n = Inr (p, a', (p, n) # fs) \<and>
           store_end ((p, n) # fs) \<le> store_end fs + 8192"
proof -
  define b where "b = (store_end fs div 16 + 1) * 16"
  have b: "b \<le> store_end fs + 16" unfolding b_def by simp
  then have "b + unat n < 2 ^ 64" using assms by simp
  then have p: "bump_new fs n = Some (word_of_nat b)" by (simp add: bump_new_def b_def Let_def)
  have "unat (word_of_nat b :: u64) = b"
    using \<open>b + unat n < 2 ^ 64\<close> by (simp add: unsigned_of_nat take_bit_nat_eq_self)
  then have "store_end ((word_of_nat b, n) # fs) \<le> store_end fs + 8192"
    using b assms(1) by (simp add: store_end_def)
  then show ?thesis using p by (simp add: AllocateNewBlock_def)
qed

lemma arena_alloc_bump:
  assumes "unat n \<le> 4096" and "store_end (snd m) < 2 ^ 32" and "arena_inv bump_new m R" and "sane_size n"
  shows "\<exists>p m'. arena_alloc dbg bump_new m n = Inr (p, m') \<and> store_end (snd m') \<le> store_end (snd m) + 8192"
proof -
  have four: "unat kBlockSize \<le> 4096" by (simp add: kBlockSize_def)
  have "\<exists>p a' fs'. AllocateFallback bump_new (fst m) (snd m) n = Inr (p, a', fs') \<and>
          store_end fs' \<le> store_end (snd m) + 8192"
    using AllocateNewBlock_bump [OF assms(1,2), of "fst m"] AllocateNewBlock_bump [OF four assms(2), of "fst m"]
    by (auto simp: AllocateFallback_def)
  moreover have "\<nexists>e. arena_alloc dbg bump_new m n = Inl e \<and> e \<noteq> Bad_alloc"
    using arena_alloc_fault [OF assms(3,4)] by blast
  ultimately show ?thesis
    by (auto simp: arena_alloc_def AllocateAligned_unfold split: if_splits sum.splits prod.splits)
qed

lemma plenty_grants:
  assumes "plenty (Suc n) m" and "arena_inv bump_new m R" and "node_size_ok s" and "unat s \<le> 4000"
  shows "\<not> refuses dbg bump_new m s" and "grants dbg bump_new m s m' \<Longrightarrow> plenty n m'"
proof -
  have ok: "\<exists>p m'. arena_alloc dbg bump_new m (node_bytes s ht) = Inr (p, m') \<and>
      store_end (snd m') \<le> store_end (snd m) + 8192" if "ht \<in> {1..kMaxHeight}" for ht
    using that assms unat_node_bytes [of s ht] sane_node_bytes [of s ht]
    by (intro arena_alloc_bump) (auto simp: plenty_def kMaxHeight_def)
  show "\<not> refuses dbg bump_new m s" using ok by (fastforce simp: refuses_def)
  show "grants dbg bump_new m s m' \<Longrightarrow> plenty n m'"
    using ok assms(1) by (fastforce simp: grants_def plenty_def)
qed

subsection \<open>Properties\<close>

text \<open>Claim C3. Inserting a key into a well-formed skip list either fails because the arena cannot supply the
  node, or returns a well-formed skip list whose keys, in order, are the old ones with the new key inserted
  at its place in the sorted order; it links the node at every level it was given. A build with assertions
  does so exactly when no key compares equal.\<close>

theorem SkipList_Insert_sorted:
  assumes "key_order cmp rank" and "list_inv rank nw m R sl L" and "node_size_ok s"
  shows "if dbg \<and> rank k \<in> rank ` set (sl_keys sl L)
         then SkipList_Insert cmp dbg nw s m sl k = fails Assertion
         else SkipList_Insert cmp dbg nw s m sl k = fails Bad_alloc \<and> refuses dbg nw m s \<or>
           (\<exists>m' sl' R' L'. SkipList_Insert cmp dbg nw s m sl k = returns (m', sl') \<and>
              list_inv rank nw m' R' sl' L' \<and> sl_keys sl' L' = insort_key rank k (sl_keys sl L))"
proof (cases "dbg \<and> rank k \<in> rank ` set (sl_keys sl L)")
  case True
  then show ?thesis using key_order.SkipList_Insert_duplicate [OF assms(1,2), of k s] by simp
next
  case False
  then show ?thesis using key_order.SkipList_Insert_correct [OF assms False] by auto
qed

lemma key_order_int: "key_order (\<lambda>a b. a - b) (\<lambda>a :: int. a)"
  by unfold_locales simp_all

lemma bump_list:
  fixes rank :: "'k \<Rightarrow> 'r::linorder" and k0 :: 'k
  obtains m R sl where "list_inv rank bump_new m R sl []" and "plenty 8 m"
proof -
  have "arena_inv bump_new (Arena_ctor, []) []"
    by (simp add: arena_inv_def new_ok_bump arena_ok_ctor store_ok_def)
  moreover have "plenty (Suc 8) (Arena_ctor, [])" by (simp add: plenty_def store_end_def)
  ultimately have "\<exists>m' sl h. list_inv rank bump_new m' [(h, node_bytes 48 kMaxHeight)] sl [] \<and> plenty 8 m'"
    using SkipList_ctor_correct [of bump_new "(Arena_ctor, [])" "[]" 48 True k0 rank]
      plenty_grants [of 8 "(Arena_ctor, [])" "[]" 48 True]
    by (auto simp: node_size_ok_def)
  then show thesis using that by blast
qed

lemma bump_list1:
  obtains m R sl L where "list_inv (\<lambda>a :: int. a) bump_new m R sl L" and "sl_keys sl L = [5]"
proof -
  obtain m R and sl :: "int skip_list" where i: "list_inv (\<lambda>a. a) bump_new m R sl []" "plenty 8 m" by (rule bump_list)
  have "\<not> refuses True bump_new m 48"
    using plenty_grants(1) [of 7 m R 48 True] i by (simp add: list_inv_def node_size_ok_def)
  moreover have "\<not> (True \<and> 5 \<in> (\<lambda>a :: int. a) ` set (sl_keys sl []))" by (simp add: sl_keys_def)
  moreover have "node_size_ok 48" by (simp add: node_size_ok_def)
  ultimately obtain m' sl' R' L' where "list_inv (\<lambda>a :: int. a) bump_new m' R' sl' L'"
    "sl_keys sl' L' = insort_key (\<lambda>a. a) 5 (sl_keys sl [])"
    using key_order.SkipList_Insert_correct [OF key_order_int i(1), of 48 True 5] by blast
  then show thesis using that [of m' R' sl' L'] by (simp add: sl_keys_def)
qed

theorem SkipList_Insert_sorted_witness:
  "\<exists>m sl R. list_inv (\<lambda>a :: int. a) bump_new m R sl [] \<and>
     (SkipList_Insert (\<lambda>a b. a - b) True bump_new 48 m sl 5 = fails Bad_alloc \<and> refuses True bump_new m 48 \<or>
      (\<exists>m' sl' R' L'. SkipList_Insert (\<lambda>a b. a - b) True bump_new 48 m sl 5 = returns (m', sl') \<and>
         list_inv (\<lambda>a. a) bump_new m' R' sl' L' \<and> sl_keys sl' L' = [5]))"
proof -
  obtain m R and sl :: "int skip_list" where i: "list_inv (\<lambda>a. a) bump_new m R sl []" by (rule bump_list)
  show ?thesis
    using SkipList_Insert_sorted [OF key_order_int i, of 48 True 5] i
    by (intro exI [of _ m] exI [of _ sl] exI [of _ R]) (simp add: node_size_ok_def sl_keys_def)
qed

text \<open>Claim C11. On a well-formed skip list \<open>Contains\<close> returns, and returns whether some key compares equal;
  \<open>Seek\<close> stops at the first node whose key is not below the target, or at the end.\<close>

theorem SkipList_search_correct:
  assumes "key_order cmp rank" and "list_inv rank nw m R sl L"
  shows "Contains cmp sl k = returns (\<exists>x\<in>set (sl_keys sl L). rank x = rank k)
         \<and> Iterator_Seek cmp sl k = returns (lnk (find (\<lambda>a. rank k \<le> rank (key_of (nodes sl) a)) L))"
proof -
  have ok: "sl_ok sl L" and srt: "sorted (map rank (sl_keys sl L))"
    using assms(2) by (simp_all add: list_inv_def)
  have "hd_opt (dropWhile P xs) = find (\<lambda>x. \<not> P x) xs" for P and xs :: "addr list"
    by (induction xs) simp_all
  then show ?thesis
    using key_order.Contains_correct [OF assms(1) ok srt, of k] key_order.Seek_correct [OF assms(1) ok srt, of k]
    by (simp add: not_less image_iff Bex_def eq_commute)
qed

theorem SkipList_search_correct_witness:
  "\<exists>m sl R L. list_inv (\<lambda>a :: int. a) bump_new m R sl L \<and> Contains (\<lambda>a b. a - b) sl 5 = returns True"
proof -
  obtain m R sl L where i: "list_inv (\<lambda>a :: int. a) bump_new m R sl L" "sl_keys sl L = [5]" by (rule bump_list1)
  show ?thesis
    using SkipList_search_correct [OF key_order_int i(1), of 5] i
    by (intro exI [of _ m] exI [of _ sl] exI [of _ R] exI [of _ L]) simp
qed

text \<open>Claim C12. Iterators walk the nodes in key order: \<open>SeekToFirst\<close> and \<open>SeekToLast\<close> go to the ends, \<open>key\<close> reads
  the key at the position, \<open>Next\<close> moves one node on, and \<open>Prev\<close> moves to the last node whose key is smaller.\<close>

theorem SkipList_iterator_walk:
  assumes "key_order cmp rank" and "list_inv rank nw m R sl L" and "i < length L"
  shows "Iterator_SeekToFirst sl = returns (Ptr (L ! 0)) \<and> Iterator_SeekToLast sl = returns (Ptr (last L)) \<and>
         Iterator_key dbg sl (Ptr (L ! i)) = returns (sl_keys sl L ! i) \<and>
         Iterator_Next dbg sl (Ptr (L ! i)) = returns (if Suc i < length L then Ptr (L ! Suc i) else Null) \<and>
         Iterator_Prev dbg cmp sl (Ptr (L ! i)) =
           (let smaller = takeWhile (\<lambda>a. rank (key_of (nodes sl) a) < rank (sl_keys sl L ! i)) L
            in returns (if smaller = [] then Null else Ptr (last smaller)))"
proof -
  have ok: "sl_ok sl L" and srt: "sorted (map rank (sl_keys sl L))"
    using assms(2) by (simp_all add: list_inv_def)
  let ?k = "key_of (nodes sl) (L ! i)"
  let ?A = "takeWhile (\<lambda>a. rank (key_of (nodes sl) a) < rank ?k) L"
  let ?B = "dropWhile (\<lambda>a. rank (key_of (nodes sl) a) < rank ?k) L"
  have key: "Iterator_key dbg sl (Ptr (L ! i)) = returns ?k" using Iterator_key_correct [OF ok] assms(3) by simp
  have "L = take i L @ L ! i # drop (Suc i) L" using assms(3) by (simp add: id_take_nth_drop)
  then have "Iterator_Next dbg sl (Ptr (L ! i)) = returns (lnk (hd_opt (drop (Suc i) L)))"
    using Iterator_Next_correct [of sl "take i L" "L ! i" "drop (Suc i) L"] ok by simp
  moreover have "hd_opt (drop (Suc i) L) = (if Suc i < length L then Some (L ! Suc i) else None)"
    by (simp add: hd_opt_def Cons_nth_drop_Suc [symmetric] split: list.split)
  moreover have "FindLessThan dbg cmp sl ?k = returns (last (head sl # ?A))"
    using key_order.FindLessThan_correct [OF assms(1), of sl ?A ?B]
      key_order.sorted_split(2) [OF assms(1), of "nodes sl" L ?k] ok srt by (simp add: sl_keys_def o_def)
  moreover have "last ?A \<noteq> head sl" if "?A \<noteq> []"
    using ok last_in_set [OF that] set_takeWhileD by (fastforce simp: sl_ok_def)
  ultimately have "Iterator_Next dbg sl (Ptr (L ! i)) = returns (if Suc i < length L then Ptr (L ! Suc i) else Null)"
    "Iterator_Prev dbg cmp sl (Ptr (L ! i)) = returns (if ?A = [] then Null else Ptr (last ?A))"
    using key by (simp, cases "?A = []", simp_all add: Iterator_Prev_def Valid_def)
  moreover have "L \<noteq> []" using assms(3) by auto
  moreover from this have "hd_opt L = Some (L ! 0)" by (cases L) simp_all
  moreover have "sl_keys sl L ! i = ?k" using assms(3) by (simp add: sl_keys_def)
  ultimately show ?thesis
    using SeekToFirst_correct [OF ok] SeekToLast_correct [OF ok] key by (simp add: Let_def)
qed

theorem SkipList_iterator_walk_witness:
  "\<exists>m sl R L. list_inv (\<lambda>a :: int. a) bump_new m R sl L \<and>
     Iterator_key True sl (Ptr (L ! 0)) = returns 5 \<and> Iterator_Next True sl (Ptr (L ! 0)) = returns Null"
proof -
  obtain m R sl L where i: "list_inv (\<lambda>a :: int. a) bump_new m R sl L" "sl_keys sl L = [5]" by (rule bump_list1)
  then have "length L = 1" by (metis length_map length_Cons list.size(3) One_nat_def sl_keys_def)
  then show ?thesis
    using SkipList_iterator_walk [OF key_order_int i(1), of 0 True] i
    by (intro exI [of _ m] exI [of _ sl] exI [of _ R] exI [of _ L]) simp
qed

end
