(* ===== verification/Hash_Kv.thy ===== *)
theory Hash_Kv
  imports Prelude
begin

section \<open>The partitioned hash map (cache/storage/memory/concurrent_hash_map.h)\<close>

text \<open>
  \<open>HashKv\<close> is a vector of partitions, each a lock and a \<open>std::unordered_map\<close> from strings.
  \<open>std::hash\<close> is an argument \<open>h\<close>. An \<open>unordered_map\<close> is its finite map together with the
  identity of the node that holds each entry: \<open>Get\<close> hands out the address of a value inside
  its node, and that address is good exactly while the node lives. Each operation holds
  the lock of its partition for its whole body and is one step of the model here; the
  theory \<open>Partition_Lock\<close> shows that the lock makes it one.

  The locale \<open>kv_store\<close> is what the clients use of a key-value store, \<open>kv_store_del\<close> what they
  use of one that can delete; the lemmas on bulk loading are proved once there and the
  model's own map is shown to be an instance.
\<close>

text \<open>A node of the container: an identity never used before, and the mapped value.\<close>

record 'v unordered_map =
  um_node :: "string \<rightharpoonup> nat \<times> 'v"
  um_fresh :: nat

definition um_empty :: "'v unordered_map" where
  "um_empty = \<lparr>um_node = Map.empty, um_fresh = 0\<rparr>"

definition insert_or_assign :: "string \<Rightarrow> 'v \<Rightarrow> 'v unordered_map \<Rightarrow> 'v unordered_map" where
  "insert_or_assign k v m =
     (case um_node m k of
        Some (i, _) \<Rightarrow> m\<lparr>um_node := (um_node m)(k \<mapsto> (i, v))\<rparr>
      | None \<Rightarrow> \<lparr>um_node = (um_node m)(k \<mapsto> (um_fresh m, v)), um_fresh = Suc (um_fresh m)\<rparr>)"

definition try_emplace :: "string \<Rightarrow> 'v \<Rightarrow> 'v unordered_map \<Rightarrow> nat \<times> 'v unordered_map" where
  "try_emplace k v m =
     (case um_node m k of
        Some (i, _) \<Rightarrow> (i, m)
      | None \<Rightarrow> (um_fresh m, \<lparr>um_node = (um_node m)(k \<mapsto> (um_fresh m, v)), um_fresh = Suc (um_fresh m)\<rparr>))"

definition um_erase :: "string \<Rightarrow> 'v unordered_map \<Rightarrow> 'v unordered_map" where
  "um_erase k m = m\<lparr>um_node := (um_node m)(k := None)\<rparr>"

text \<open>\<open>ConcurrentMap\<close> without its mutex, and the table.\<close>

record 'v hash_kv =
  partition_num :: u64
  map_vec :: "'v unordered_map list"

text \<open>The address of a value: partition, key and node.\<close>

datatype value_ptr = Value_ptr (ptr_part: u64) (ptr_key: string) (ptr_node: nat)

definition deref :: "'v hash_kv \<Rightarrow> value_ptr \<Rightarrow> fault + 'v" where
  "deref kv p =
     (if unat (ptr_part p) < length (map_vec kv) then
        (case um_node (map_vec kv ! unat (ptr_part p)) (ptr_key p) of
           Some (i, v) \<Rightarrow> if i = ptr_node p then Inr v else Inl Undefined
         | None \<Rightarrow> Inl Undefined)
      else Inl Undefined)"

subsection \<open>Operations\<close>

definition HashKv_Hash :: "(string \<Rightarrow> u64) \<Rightarrow> 'v hash_kv \<Rightarrow> string \<Rightarrow> fault + u64" where
  "HashKv_Hash h kv str =
     (if partition_num kv = 0 then Inl Undefined else Inr (h str mod partition_num kv))"

definition HashKv_Init :: "int \<Rightarrow> fault + (bool \<times> 'v hash_kv)" where
  "HashKv_Init n =
     (if n < 0 then Inl Length_error
      else Inr (True, \<lparr>partition_num = word_of_int n, map_vec = replicate (nat n) um_empty\<rparr>))"

definition sub_map :: "'v hash_kv \<Rightarrow> u64 \<Rightarrow> fault + 'v unordered_map" where
  "sub_map kv idx = (if unat idx < length (map_vec kv) then Inr (map_vec kv ! unat idx) else Inl Undefined)"

definition set_sub_map :: "'v hash_kv \<Rightarrow> u64 \<Rightarrow> 'v unordered_map \<Rightarrow> 'v hash_kv" where
  "set_sub_map kv idx m = kv\<lparr>map_vec := (map_vec kv)[unat idx := m]\<rparr>"

definition HashKv_Get :: "(string \<Rightarrow> u64) \<Rightarrow> 'v hash_kv \<Rightarrow> string \<Rightarrow> fault + value_ptr option" where
  "HashKv_Get h kv key =
     sthen (HashKv_Hash h kv key) (\<lambda>idx.
     sthen (sub_map kv idx) (\<lambda>m.
       case um_node m key of
         Some (i, _) \<Rightarrow> Inr (Some (Value_ptr idx key i))
       | None \<Rightarrow> Inr None))"

definition HashKv_GetOrCreate ::
  "(string \<Rightarrow> u64) \<Rightarrow> 'v hash_kv \<Rightarrow> string \<Rightarrow> 'v \<Rightarrow> fault + (value_ptr \<times> 'v hash_kv)" where
  "HashKv_GetOrCreate h kv key v =
     sthen (HashKv_Hash h kv key) (\<lambda>idx.
     sthen (sub_map kv idx) (\<lambda>m.
       let (i, m') = try_emplace key v m
       in Inr (Value_ptr idx key i, set_sub_map kv idx m')))"

definition HashKv_Add ::
  "(string \<Rightarrow> u64) \<Rightarrow> 'v hash_kv \<Rightarrow> string \<Rightarrow> 'v \<Rightarrow> fault + (bool \<times> 'v hash_kv)" where
  "HashKv_Add h kv key v =
     sthen (HashKv_Hash h kv key) (\<lambda>idx.
     sthen (sub_map kv idx) (\<lambda>m.
       Inr (True, set_sub_map kv idx (insert_or_assign key v m))))"

definition HashKv_Del :: "(string \<Rightarrow> u64) \<Rightarrow> 'v hash_kv \<Rightarrow> string \<Rightarrow> fault + (bool \<times> 'v hash_kv)" where
  "HashKv_Del h kv key =
     sthen (HashKv_Hash h kv key) (\<lambda>idx.
     sthen (sub_map kv idx) (\<lambda>m.
       Inr (True, set_sub_map kv idx (um_erase key m))))"

subsection \<open>What a table holds\<close>

text \<open>The part of the table that a key belongs to, and the value and node of a key.\<close>

definition part_of :: "(string \<Rightarrow> u64) \<Rightarrow> 'v hash_kv \<Rightarrow> string \<Rightarrow> nat" where
  "part_of h kv k = unat (h k mod partition_num kv)"

definition entry :: "(string \<Rightarrow> u64) \<Rightarrow> 'v hash_kv \<Rightarrow> string \<rightharpoonup> nat \<times> 'v" where
  "entry h kv k = um_node (map_vec kv ! part_of h kv k) k"

definition contents :: "(string \<Rightarrow> u64) \<Rightarrow> 'v hash_kv \<Rightarrow> string \<rightharpoonup> 'v" where
  "contents h kv k = map_option snd (entry h kv k)"

definition fresh_of :: "(string \<Rightarrow> u64) \<Rightarrow> 'v hash_kv \<Rightarrow> string \<Rightarrow> nat" where
  "fresh_of h kv k = um_fresh (map_vec kv ! part_of h kv k)"

definition um_ok :: "'v unordered_map \<Rightarrow> bool" where
  "um_ok m \<longleftrightarrow> (\<forall>k i v. um_node m k = Some (i, v) \<longrightarrow> i < um_fresh m)"

definition kv_ok :: "'v hash_kv \<Rightarrow> bool" where
  "kv_ok kv \<longleftrightarrow> 0 < partition_num kv \<and> length (map_vec kv) = unat (partition_num kv) \<and>
     (\<forall>m\<in>set (map_vec kv). um_ok m)"

lemma part_of_less: "kv_ok kv \<Longrightarrow> part_of h kv k < length (map_vec kv)"
  by (simp add: kv_ok_def part_of_def word_mod_less_divisor unat_mono)

lemma Hash_ok: "kv_ok kv \<Longrightarrow> HashKv_Hash h kv k = Inr (h k mod partition_num kv)"
  by (auto simp: HashKv_Hash_def kv_ok_def)

lemma sub_map_ok:
  "kv_ok kv \<Longrightarrow> sub_map kv (h k mod partition_num kv) = Inr (map_vec kv ! part_of h kv k)"
  using part_of_less [of kv h k] by (simp add: sub_map_def part_of_def)

lemma kv_ok_set_sub_map:
  assumes "kv_ok kv" and "um_ok m"
  shows "kv_ok (set_sub_map kv idx m)"
  using assms set_update_subset_insert [of "map_vec kv" "unat idx" m]
  by (auto simp: kv_ok_def set_sub_map_def dest!: subsetD)

text \<open>An update of the partition of \<open>k\<close> that leaves the other keys alone changes only \<open>k\<close>.\<close>

lemma entry_set_sub_map:
  assumes "kv_ok kv" and "\<forall>k'. k' \<noteq> k \<longrightarrow> um_node m k' = um_node (map_vec kv ! part_of h kv k) k'"
  shows "entry h (set_sub_map kv (h k mod partition_num kv) m) = (entry h kv)(k := um_node m k)"
proof
  fix k'
  have "part_of h kv k < length (map_vec kv)" by (rule part_of_less [OF assms(1)])
  then show "entry h (set_sub_map kv (h k mod partition_num kv) m) k' = ((entry h kv)(k := um_node m k)) k'"
    using assms(2) by (auto simp: entry_def part_of_def set_sub_map_def nth_list_update)
qed

lemma fresh_set_sub_map:
  assumes "kv_ok kv" and "fresh_of h kv k \<le> um_fresh m"
  shows "fresh_of h kv k' \<le> fresh_of h (set_sub_map kv (h k mod partition_num kv) m) k'"
  using assms part_of_less [OF assms(1), of h k]
  by (auto simp: fresh_of_def part_of_def set_sub_map_def nth_list_update)

lemma um_ok_ops:
  assumes "um_ok m"
  shows "um_ok (insert_or_assign k v m)" and "um_ok (snd (try_emplace k v m))" and "um_ok (um_erase k m)"
  using assms
  by (auto simp: um_ok_def insert_or_assign_def try_emplace_def um_erase_def less_Suc_eq
      split: option.splits if_splits)

lemma kv_ok_part: "kv_ok kv \<Longrightarrow> um_ok (map_vec kv ! part_of h kv k)"
  using part_of_less [of kv h k] by (simp add: kv_ok_def)

lemma kv_ok_Init:
  assumes "0 < n" and "n < 2 ^ 31"
  obtains kv :: "'v hash_kv" where "HashKv_Init n = Inr (True, kv)" and "kv_ok kv" and "contents h kv = Map.empty"
proof -
  let ?kv = "\<lparr>partition_num = word_of_int n, map_vec = replicate (nat n) um_empty\<rparr> :: 'v hash_kv"
  have u: "unat (word_of_int n :: u64) = nat n"
    using assms by (simp add: unsigned_of_int take_bit_int_eq_self)
  have ok: "kv_ok ?kv"
    using assms u by (simp add: kv_ok_def um_ok_def um_empty_def word_less_nat_alt)
  moreover have "contents h ?kv k = None" for k
  proof -
    have "map_vec ?kv ! part_of h ?kv k = um_empty" using part_of_less [OF ok, of h k] by simp
    then show ?thesis by (simp add: contents_def entry_def um_empty_def)
  qed
  ultimately show thesis using that [of ?kv] assms by (simp add: HashKv_Init_def fun_eq_iff)
qed

lemma HashKv_Get_ok:
  "kv_ok kv \<Longrightarrow> HashKv_Get h kv k =
     Inr (map_option (\<lambda>(i, _). Value_ptr (h k mod partition_num kv) k i) (entry h kv k))"
  by (auto simp: HashKv_Get_def Hash_ok sub_map_ok entry_def split: option.split)

lemma deref_entry:
  assumes "kv_ok kv"
  shows "deref kv (Value_ptr (h k mod partition_num kv) k i) =
     (case entry h kv k of Some (j, v) \<Rightarrow> if j = i then Inr v else Inl Undefined | None \<Rightarrow> Inl Undefined)"
  using part_of_less [OF assms, of h k] by (auto simp: deref_def entry_def part_of_def split: option.split)

lemma HashKv_Add_ok:
  assumes "kv_ok kv"
  obtains kv' where "HashKv_Add h kv k v = Inr (True, kv')" and "kv_ok kv'"
    and "partition_num kv' = partition_num kv"
    and "entry h kv' = (entry h kv)(k \<mapsto>
           (case entry h kv k of Some (i, _) \<Rightarrow> i | None \<Rightarrow> fresh_of h kv k, v))"
    and "\<forall>k'. fresh_of h kv k' \<le> fresh_of h kv' k'"
proof -
  let ?m = "map_vec kv ! part_of h kv k"
  let ?kv' = "set_sub_map kv (h k mod partition_num kv) (insert_or_assign k v ?m)"
  have "kv_ok ?kv'" using assms kv_ok_part [of kv h k] by (intro kv_ok_set_sub_map um_ok_ops)
  moreover have "entry h ?kv' = (entry h kv)(k := um_node (insert_or_assign k v ?m) k)"
    using assms by (intro entry_set_sub_map) (auto simp: insert_or_assign_def split: option.split)
  moreover have "um_node (insert_or_assign k v ?m) k =
      Some (case entry h kv k of Some (i, _) \<Rightarrow> i | None \<Rightarrow> fresh_of h kv k, v)"
    by (auto simp: insert_or_assign_def entry_def fresh_of_def split: option.split)
  moreover have "\<forall>k'. fresh_of h kv k' \<le> fresh_of h ?kv' k'"
    using fresh_set_sub_map [OF assms, of h k "insert_or_assign k v ?m"]
    by (auto simp: fresh_of_def insert_or_assign_def split: option.splits)
  ultimately show thesis
    using that [of ?kv'] assms by (simp add: HashKv_Add_def Hash_ok sub_map_ok set_sub_map_def)
qed

lemma HashKv_GetOrCreate_ok:
  assumes "kv_ok kv"
  obtains p kv' where "HashKv_GetOrCreate h kv k v = Inr (p, kv')" and "kv_ok kv'"
    and "partition_num kv' = partition_num kv"
    and "p = Value_ptr (h k mod partition_num kv) k (fst (the (entry h kv' k)))"
    and "entry h kv' = (entry h kv)(k \<mapsto>
           (case entry h kv k of Some e \<Rightarrow> e | None \<Rightarrow> (fresh_of h kv k, v)))"
    and "\<forall>k'. fresh_of h kv k' \<le> fresh_of h kv' k'"
proof -
  let ?m = "map_vec kv ! part_of h kv k"
  obtain i m' where t: "try_emplace k v ?m = (i, m')" by fastforce
  let ?kv' = "set_sub_map kv (h k mod partition_num kv) m'"
  have "kv_ok ?kv'" using assms kv_ok_part [of kv h k] um_ok_ops(2) [of ?m k v] t
    by (intro kv_ok_set_sub_map) auto
  moreover have e: "entry h ?kv' = (entry h kv)(k := um_node m' k)"
    using assms t by (intro entry_set_sub_map) (auto simp: try_emplace_def split: option.splits)
  moreover have m': "um_node m' k = Some (case entry h kv k of Some e \<Rightarrow> e | None \<Rightarrow> (fresh_of h kv k, v))"
    and "i = fst (the (um_node m' k))"
    using t by (auto simp: try_emplace_def entry_def fresh_of_def split: option.splits)
  moreover have "\<forall>k'. fresh_of h kv k' \<le> fresh_of h ?kv' k'"
    using fresh_set_sub_map [OF assms, of h k m'] t
    by (auto simp: fresh_of_def try_emplace_def split: option.splits)
  moreover have "HashKv_GetOrCreate h kv k v = Inr (Value_ptr (h k mod partition_num kv) k i, ?kv')"
    using assms t by (simp add: HashKv_GetOrCreate_def Hash_ok sub_map_ok)
  ultimately show thesis
    using that [of "Value_ptr (h k mod partition_num kv) k i" ?kv'] by (simp add: set_sub_map_def)
qed

lemma HashKv_Del_ok:
  assumes "kv_ok kv"
  obtains kv' where "HashKv_Del h kv k = Inr (True, kv')" and "kv_ok kv'"
    and "partition_num kv' = partition_num kv" and "entry h kv' = (entry h kv)(k := None)"
    and "\<forall>k'. fresh_of h kv k' \<le> fresh_of h kv' k'"
proof -
  let ?m = "map_vec kv ! part_of h kv k"
  let ?kv' = "set_sub_map kv (h k mod partition_num kv) (um_erase k ?m)"
  have "kv_ok ?kv'" using assms kv_ok_part [of kv h k] by (intro kv_ok_set_sub_map um_ok_ops)
  moreover have "entry h ?kv' = (entry h kv)(k := um_node (um_erase k ?m) k)"
    using assms by (intro entry_set_sub_map) (auto simp: um_erase_def)
  moreover have "\<forall>k'. fresh_of h kv k' \<le> fresh_of h ?kv' k'"
    using fresh_set_sub_map [OF assms, of h k "um_erase k ?m"] by (auto simp: fresh_of_def um_erase_def)
  ultimately show thesis
    using that [of ?kv'] assms
    by (simp add: HashKv_Del_def Hash_ok sub_map_ok set_sub_map_def um_erase_def)
qed

subsection \<open>The contract the clients use\<close>

text \<open>Looking a key up and reading through the address at once, as every caller of \<open>Get\<close> does.\<close>

definition HashKv_read :: "(string \<Rightarrow> u64) \<Rightarrow> 'v hash_kv \<Rightarrow> string \<Rightarrow> fault + 'v option" where
  "HashKv_read h kv k =
     sthen (HashKv_Get h kv k) (\<lambda>p.
       case p of None \<Rightarrow> Inr None | Some q \<Rightarrow> sthen (deref kv q) (\<lambda>v. Inr (Some v)))"

text \<open>Adding the entries of a list one after the other.\<close>

fun add_all :: "('s \<Rightarrow> string \<Rightarrow> 'v \<Rightarrow> fault + (bool \<times> 's)) \<Rightarrow> 's \<Rightarrow> (string \<times> 'v) list \<Rightarrow> fault + 's" where
  "add_all add s [] = Inr s"
| "add_all add s ((k, v) # kvs) = sthen (add s k v) (\<lambda>(_, s'). add_all add s' kvs)"

locale kv_store =
  fixes ok :: "'s \<Rightarrow> bool" and look :: "'s \<Rightarrow> string \<rightharpoonup> 'v"
    and readk :: "'s \<Rightarrow> string \<Rightarrow> fault + 'v option"
    and add :: "'s \<Rightarrow> string \<Rightarrow> 'v \<Rightarrow> fault + (bool \<times> 's)"
  assumes read_ok: "ok s \<Longrightarrow> readk s k = Inr (look s k)"
    and add_ok: "ok s \<Longrightarrow> \<exists>s'. add s k v = Inr (True, s') \<and> ok s' \<and> look s' = (look s)(k \<mapsto> v)"
begin

lemma add_all_ok:
  "ok s \<Longrightarrow> \<exists>s'. add_all add s kvs = Inr s' \<and> ok s' \<and> look s' = look s ++ map_of (rev kvs)"
proof (induction kvs arbitrary: s)
  case (Cons kv kvs)
  obtain k v where kv: "kv = (k, v)" by fastforce
  obtain s1 where "add s k v = Inr (True, s1)" "ok s1" "look s1 = (look s)(k \<mapsto> v)"
    using add_ok [OF Cons.prems] by blast
  then show ?case using Cons.IH [of s1] kv by (auto simp: map_add_upd_left map_add_def fun_eq_iff split: option.split)
qed simp

lemma read_after_add_all:
  assumes "ok s" and "add_all add s kvs = Inr s'"
  shows "readk s' k = Inr (case map_of (rev kvs) k of None \<Rightarrow> look s k | Some v \<Rightarrow> Some v)"
  using add_all_ok [OF assms(1), of kvs] assms(2) read_ok by (auto simp: map_add_def)

end

locale kv_store_del = kv_store ok look readk add
  for ok :: "'s \<Rightarrow> bool" and look :: "'s \<Rightarrow> string \<rightharpoonup> 'v" and readk and add +
  fixes del :: "'s \<Rightarrow> string \<Rightarrow> fault + (bool \<times> 's)"
  assumes del_ok: "ok s \<Longrightarrow> \<exists>s'. del s k = Inr (True, s') \<and> ok s' \<and> look s' = (look s)(k := None)"
begin

lemma del_after_add:
  assumes "ok s" and "add s k v = Inr (b, s1)" and "del s1 k = Inr (b', s2)"
  shows "look s2 = (look s)(k := None)"
  using add_ok [OF assms(1), of k v] del_ok [of s1 k] assms by auto

end

lemma HashKv_read_ok: "kv_ok kv \<Longrightarrow> HashKv_read h kv k = Inr (contents h kv k)"
  by (auto simp: HashKv_read_def HashKv_Get_ok deref_entry contents_def split: option.split)

interpretation hash_kv: kv_store_del kv_ok "contents h" "HashKv_read h" "HashKv_Add h" "HashKv_Del h" for h
proof unfold_locales
  fix kv :: "'a hash_kv" and k v
  assume ok: "kv_ok kv"
  show "HashKv_read h kv k = Inr (contents h kv k)" using ok by (rule HashKv_read_ok)
  show "\<exists>s'. HashKv_Add h kv k v = Inr (True, s') \<and> kv_ok s' \<and> contents h s' = (contents h kv)(k \<mapsto> v)"
    by (rule HashKv_Add_ok [OF ok, of h k v]) (auto simp: contents_def fun_eq_iff)
  show "\<exists>s'. HashKv_Del h kv k = Inr (True, s') \<and> kv_ok s' \<and> contents h s' = (contents h kv)(k := None)"
    by (rule HashKv_Del_ok [OF ok, of h k]) (auto simp: contents_def fun_eq_iff)
qed

subsection \<open>Sequences of operations\<close>

datatype 'v kv_op = Read string | Create string 'v | Put string 'v | Erase string
datatype 'v kv_out = Found "'v option" | Done bool

definition kv_step :: "(string \<Rightarrow> u64) \<Rightarrow> 'v hash_kv \<Rightarrow> 'v kv_op \<Rightarrow> fault + ('v kv_out \<times> 'v hash_kv)" where
  "kv_step h kv op =
     (case op of
        Read k \<Rightarrow> sthen (HashKv_read h kv k) (\<lambda>v. Inr (Found v, kv))
      | Create k v \<Rightarrow>
          sthen (HashKv_GetOrCreate h kv k v) (\<lambda>(p, kv').
            sthen (deref kv' p) (\<lambda>w. Inr (Found (Some w), kv')))
      | Put k v \<Rightarrow> sthen (HashKv_Add h kv k v) (\<lambda>(b, kv'). Inr (Done b, kv'))
      | Erase k \<Rightarrow> sthen (HashKv_Del h kv k) (\<lambda>(b, kv'). Inr (Done b, kv')))"

definition spec_step :: "(string \<rightharpoonup> 'v) \<Rightarrow> 'v kv_op \<Rightarrow> 'v kv_out \<times> (string \<rightharpoonup> 'v)" where
  "spec_step m op =
     (case op of
        Read k \<Rightarrow> (Found (m k), m)
      | Create k v \<Rightarrow> (let w = (case m k of None \<Rightarrow> v | Some w \<Rightarrow> w) in (Found (Some w), m(k \<mapsto> w)))
      | Put k v \<Rightarrow> (Done True, m(k \<mapsto> v))
      | Erase k \<Rightarrow> (Done True, m(k := None)))"

fun kv_run :: "(string \<Rightarrow> u64) \<Rightarrow> 'v hash_kv \<Rightarrow> 'v kv_op list \<Rightarrow> fault + ('v kv_out list \<times> 'v hash_kv)" where
  "kv_run h kv [] = Inr ([], kv)"
| "kv_run h kv (op # ops) =
     sthen (kv_step h kv op) (\<lambda>(out, kv').
       sthen (kv_run h kv' ops) (\<lambda>(outs, kv''). Inr (out # outs, kv'')))"

fun spec_run :: "(string \<rightharpoonup> 'v) \<Rightarrow> 'v kv_op list \<Rightarrow> 'v kv_out list \<times> (string \<rightharpoonup> 'v)" where
  "spec_run m [] = ([], m)"
| "spec_run m (op # ops) =
     (let (out, m') = spec_step m op; (outs, m'') = spec_run m' ops in (out # outs, m''))"

text \<open>What one step does to the node of a key: it keeps it, drops it, or makes a new one.\<close>

definition node_moves :: "(string \<Rightarrow> u64) \<Rightarrow> 'v kv_op \<Rightarrow> 'v hash_kv \<Rightarrow> 'v hash_kv \<Rightarrow> string \<Rightarrow> bool" where
  "node_moves h op kv kv' k \<longleftrightarrow>
     (case map_option fst (entry h kv k) of
        Some i \<Rightarrow> map_option fst (entry h kv' k) = (if op = Erase k then None else Some i)
      | None \<Rightarrow> \<forall>i. map_option fst (entry h kv' k) = Some i \<longrightarrow> fresh_of h kv k \<le> i)"

lemma kv_step_ok:
  assumes ok: "kv_ok kv"
  obtains out kv' where "kv_step h kv op = Inr (out, kv')" and "kv_ok kv'"
    and "partition_num kv' = partition_num kv" and "(out, contents h kv') = spec_step (contents h kv) op"
    and "\<forall>k. fresh_of h kv k \<le> fresh_of h kv' k" and "\<forall>k. node_moves h op kv kv' k"
proof (cases op)
  case (Read k)
  then show thesis
    using that [of "Found (contents h kv k)" kv] ok
    by (auto simp: kv_step_def spec_step_def HashKv_read_ok node_moves_def split: option.split)
next
  case (Create k v)
  obtain p kv' where c: "HashKv_GetOrCreate h kv k v = Inr (p, kv')" "kv_ok kv'" "partition_num kv' = partition_num kv"
    "p = Value_ptr (h k mod partition_num kv) k (fst (the (entry h kv' k)))"
    "entry h kv' = (entry h kv)(k \<mapsto> (case entry h kv k of Some e \<Rightarrow> e | None \<Rightarrow> (fresh_of h kv k, v)))"
    "\<forall>k'. fresh_of h kv k' \<le> fresh_of h kv' k'" by (rule HashKv_GetOrCreate_ok [OF ok])
  have d: "deref kv' p = Inr (case contents h kv k of None \<Rightarrow> v | Some w \<Rightarrow> w)"
    using deref_entry [OF c(2), of h k "fst (the (entry h kv' k))"] c(3,4,5)
    by (auto simp: contents_def split: option.splits)
  show thesis
    using that [of "Found (Some (case contents h kv k of None \<Rightarrow> v | Some w \<Rightarrow> w))" kv'] c d Create
    by (auto simp: kv_step_def spec_step_def node_moves_def contents_def fun_eq_iff split: option.split)
next
  case (Put k v)
  obtain kv' where c: "HashKv_Add h kv k v = Inr (True, kv')" "kv_ok kv'" "partition_num kv' = partition_num kv"
    "entry h kv' = (entry h kv)(k \<mapsto> (case entry h kv k of Some (i, _) \<Rightarrow> i | None \<Rightarrow> fresh_of h kv k, v))"
    "\<forall>k'. fresh_of h kv k' \<le> fresh_of h kv' k'" by (rule HashKv_Add_ok [OF ok])
  show thesis
    using that [of "Done True" kv'] c Put
    by (auto simp: kv_step_def spec_step_def node_moves_def contents_def fun_eq_iff split: option.split)
next
  case (Erase k)
  obtain kv' where c: "HashKv_Del h kv k = Inr (True, kv')" "kv_ok kv'" "partition_num kv' = partition_num kv"
    "entry h kv' = (entry h kv)(k := None)"
    "\<forall>k'. fresh_of h kv k' \<le> fresh_of h kv' k'" by (rule HashKv_Del_ok [OF ok])
  show thesis
    using that [of "Done True" kv'] c Erase
    by (auto simp: kv_step_def spec_step_def node_moves_def contents_def fun_eq_iff split: option.split)
qed

lemma kv_run_ok:
  "kv_ok kv \<Longrightarrow> \<exists>outs kv'. kv_run h kv ops = Inr (outs, kv') \<and> kv_ok kv' \<and>
     (outs, contents h kv') = spec_run (contents h kv) ops \<and> partition_num kv' = partition_num kv"
proof (induction ops arbitrary: kv)
  case (Cons op ops)
  obtain out kv1 where s: "kv_step h kv op = Inr (out, kv1)" "kv_ok kv1" "partition_num kv1 = partition_num kv"
    "(out, contents h kv1) = spec_step (contents h kv) op"
    by (rule kv_step_ok [OF Cons.prems, of h op])
  then show ?case using Cons.IH [of kv1] by (auto simp: s(4) [symmetric] split: prod.splits)
qed simp

text \<open>A node that is gone stays gone: identities are not reused.\<close>

lemma node_gone:
  assumes "kv_ok kv" and "kv_run h kv ops = Inr (outs, kv')"
    and "map_option fst (entry h kv k) \<noteq> Some i" and "i < fresh_of h kv k"
  shows "map_option fst (entry h kv' k) \<noteq> Some i"
  using assms
proof (induction ops arbitrary: kv outs)
  case (Cons op ops)
  obtain out kv1 where s: "kv_step h kv op = Inr (out, kv1)" "kv_ok kv1"
    "\<forall>k. fresh_of h kv k \<le> fresh_of h kv1 k" "\<forall>k. node_moves h op kv kv1 k"
    by (rule kv_step_ok [OF Cons.prems(1), of h op])
  obtain outs1 where r: "kv_run h kv1 ops = Inr (outs1, kv')"
    using Cons.prems(2) s(1) by (auto simp: sthen_eq_Inr)
  have "map_option fst (entry h kv1 k) \<noteq> Some i"
    using s(4) [THEN spec, of k] Cons.prems(3,4) by (auto simp: node_moves_def split: option.splits if_splits)
  moreover have "i < fresh_of h kv1 k" using s(3) Cons.prems(4) by (meson le_trans less_le_trans)
  ultimately show ?case using Cons.IH [OF s(2) r] by blast
qed simp

lemma node_kept:
  assumes "kv_ok kv" and "kv_run h kv ops = Inr (outs, kv')" and "map_option fst (entry h kv k) = Some i"
  shows "map_option fst (entry h kv' k) = Some i \<longleftrightarrow> Erase k \<notin> set ops"
  using assms
proof (induction ops arbitrary: kv outs)
  case (Cons op ops)
  obtain out kv1 where s: "kv_step h kv op = Inr (out, kv1)" "kv_ok kv1"
    "\<forall>k. fresh_of h kv k \<le> fresh_of h kv1 k" "\<forall>k. node_moves h op kv kv1 k"
    by (rule kv_step_ok [OF Cons.prems(1), of h op])
  obtain outs1 where r: "kv_run h kv1 ops = Inr (outs1, kv')"
    using Cons.prems(2) s(1) by (auto simp: sthen_eq_Inr)
  have m: "map_option fst (entry h kv1 k) = (if op = Erase k then None else Some i)"
    using s(4) [THEN spec, of k] Cons.prems(3) by (simp add: node_moves_def)
  have "i < fresh_of h kv k"
    using Cons.prems(1,3) kv_ok_part [of kv h k] by (auto simp: um_ok_def entry_def fresh_of_def)
  then have "i < fresh_of h kv1 k" using s(3) by (meson less_le_trans)
  then show ?case using Cons.IH [OF s(2) r] node_gone [OF s(2) r] m by (cases "op = Erase k") auto
qed simp

subsection \<open>Properties\<close>

text \<open>Claim C4. From \<open>Init\<close> on, the partitioned table answers every sequence of lookups, \<open>GetOrCreate\<close>s,
  additions and deletions exactly as one finite map from strings does, whatever the hash function and
  the number of partitions: no sequence runs out of the partition vector, and no lookup reads a freed node.\<close>

theorem HashKv_refines_map:
  assumes "0 < n" and "n < 2 ^ 31"
  shows "\<exists>kv kv'. HashKv_Init n = Inr (True, kv) \<and> kv_run h kv ops = Inr (fst (spec_run Map.empty ops), kv')
           \<and> contents h kv' = snd (spec_run Map.empty ops)"
proof -
  obtain kv :: "'a hash_kv" where i: "HashKv_Init n = Inr (True, kv)" "kv_ok kv" "contents h kv = Map.empty"
    using assms by (rule kv_ok_Init)
  then obtain outs kv' where "kv_run h kv ops = Inr (outs, kv')"
    "(outs, contents h kv') = spec_run Map.empty ops"
    using kv_run_ok [OF i(2), of h ops] by auto
  then show ?thesis using i(1) by (metis fst_conv snd_conv)
qed

theorem HashKv_refines_map_witness:
  "\<exists>kv kv'. HashKv_Init 87719 = Inr (True, kv) \<and>
     kv_run (\<lambda>s. word_of_nat (length s)) kv [Put ''a'' (5 :: int), Erase ''a'', Read ''a'']
       = Inr ([Done True, Done True, Found None], kv')"
  using HashKv_refines_map [of 87719 "\<lambda>s. word_of_nat (length s)" "[Put ''a'' (5 :: int), Erase ''a'', Read ''a'']"]
  by (auto simp: spec_step_def)

text \<open>Claim C15. The address \<open>Get\<close> hands out outlives the lock it was taken under: it reads the key's current
  value for as long as no \<open>Del\<close> of that key runs, and after one it dangles for good, even when the key is
  added again.\<close>

theorem HashKv_Get_ptr_lifetime:
  assumes "kv_ok kv" and "HashKv_Get h kv k = Inr (Some p)" and "kv_run h kv ops = Inr (outs, kv')"
  shows "deref kv' p = (if Erase k \<in> set ops then Inl Undefined else Inr (the (contents h kv' k)))"
proof -
  obtain i v where e: "entry h kv k = Some (i, v)" and p: "p = Value_ptr (h k mod partition_num kv) k i"
    using assms(2) HashKv_Get_ok [OF assms(1), of h k] by auto
  have kv': "kv_ok kv'" "partition_num kv' = partition_num kv"
    using kv_run_ok [OF assms(1), of h ops] assms(3) by auto
  then show ?thesis
    using deref_entry [OF kv'(1), of h k i] node_kept [OF assms(1,3), of k i] e p
    by (auto simp: contents_def split: option.splits)
qed

theorem HashKv_Get_ptr_lifetime_witness:
  "deref \<lparr>partition_num = 1, map_vec = [\<lparr>um_node = [''a'' \<mapsto> (1, 7 :: int)], um_fresh = 2\<rparr>]\<rparr> (Value_ptr 0 ''a'' 0)
     = Inl Undefined"
  using HashKv_Get_ptr_lifetime
    [of "\<lparr>partition_num = 1, map_vec = [\<lparr>um_node = [''a'' \<mapsto> (0, 5 :: int)], um_fresh = 1\<rparr>]\<rparr>" "\<lambda>_. 0" "''a''"
      "Value_ptr 0 ''a'' 0" "[Erase ''a'', Put ''a'' 7]" "[Done True, Done True]"
      "\<lparr>partition_num = 1, map_vec = [\<lparr>um_node = [''a'' \<mapsto> (1, 7 :: int)], um_fresh = 2\<rparr>]\<rparr>"]
  by (simp add: kv_ok_def um_ok_def HashKv_Get_def HashKv_Hash_def sub_map_def kv_step_def HashKv_Del_def
      HashKv_Add_def set_sub_map_def um_erase_def insert_or_assign_def)

end
