(* ===== verification/Zset.thy ===== *)
theory Zset
  imports Skip_List_Insert Hash_Kv "HOL-Library.Multiset"
begin

section \<open>The sorted set (cache/storage/memory/zset.h)\<close>

text \<open>
  A sorted set keeps the current score of each member in a \<open>HashKv\<close> and every (score, member)
  pair ever added in a skip list ordered by score; \<open>Range\<close> walks the skip list and keeps
  the pairs whose score is still the member's current one. Scores are \<open>int32_t\<close> values
  that the code only copies and compares, so they are integers here. Several sets share
  one arena, which their operations pass along.

  The skip list's order is an instance of \<open>key_order\<close> with the score as rank; the lemmas
  show what \<open>Range\<close> returns on every set that \<open>Add\<close> and \<open>Del\<close> can build.
\<close>

record zadd_request =
  score :: int
  zvalue :: string

definition Comparator :: "zadd_request \<Rightarrow> zadd_request \<Rightarrow> int" where
  "Comparator a b = (if score a < score b then -1 else if score a > score b then 1 else 0)"

interpretation zset_order: key_order Comparator score
  by unfold_locales (auto simp: Comparator_def)

record zset =
  value_map :: "int hash_kv"
  score_range_map :: "zadd_request skip_list"

text \<open>\<open>sizeof(Node)\<close>: an \<open>int32_t\<close>, its padding, a 32-byte \<open>std::string\<close> and one link.\<close>

definition sizeof_Node :: u64 where
  "sizeof_Node = 48"

definition Zset_ctor :: "bool \<Rightarrow> new_fn \<Rightarrow> mem \<Rightarrow> fault + (mem \<times> zset)" where
  "Zset_ctor dbg nw m =
     sthen (SkipList_ctor dbg nw sizeof_Node m \<lparr>score = 0, zvalue = ''''\<rparr>) (\<lambda>(m', sl).
     sthen (HashKv_Init 87719) (\<lambda>(_, kv).
       Inr (m', \<lparr>value_map = kv, score_range_map = sl\<rparr>)))"

definition Zset_Add ::
  "(string \<Rightarrow> u64) \<Rightarrow> bool \<Rightarrow> new_fn \<Rightarrow> mem \<Rightarrow> zset \<Rightarrow> int \<Rightarrow> string \<Rightarrow> (bool \<times> mem \<times> zset) run" where
  "Zset_Add h dbg nw m z s v =
     andthen (run_sum (HashKv_Add h (value_map z) v s)) (\<lambda>(_, kv).
     andthen (SkipList_Insert Comparator dbg nw sizeof_Node m (score_range_map z) \<lparr>score = s, zvalue = v\<rparr>) (\<lambda>(m', sl).
       returns (True, m', \<lparr>value_map = kv, score_range_map = sl\<rparr>)))"

partial_function (option) Range_loop ::
  "(string \<Rightarrow> u64) \<Rightarrow> bool \<Rightarrow> zset \<Rightarrow> int \<Rightarrow> link \<Rightarrow> zadd_request list \<Rightarrow> zadd_request list run" where
  "Range_loop h dbg z max_score it result =
     (if \<not> Valid it then returns result
      else
        andthen (Iterator_key dbg (score_range_map z) it) (\<lambda>k.
          if \<not> score k \<le> max_score then returns result
          else
            andthen (run_sum (HashKv_read h (value_map z) (zvalue k))) (\<lambda>s.
              let result' = (if s = Some (score k) then result @ [\<lparr>score = score k, zvalue = zvalue k\<rparr>] else result)
              in andthen (Iterator_Next dbg (score_range_map z) it) (\<lambda>it'.
                   Range_loop h dbg z max_score it' result'))))"

definition Zset_Range :: "(string \<Rightarrow> u64) \<Rightarrow> bool \<Rightarrow> zset \<Rightarrow> int \<Rightarrow> int \<Rightarrow> zadd_request list run" where
  "Zset_Range h dbg z min_score max_score =
     andthen (Iterator_Seek Comparator (score_range_map z) \<lparr>score = min_score, zvalue = ''''\<rparr>) (\<lambda>it.
       Range_loop h dbg z max_score it [])"

definition Zset_Del :: "(string \<Rightarrow> u64) \<Rightarrow> zset \<Rightarrow> string \<Rightarrow> fault + (bool \<times> zset)" where
  "Zset_Del h z v =
     sthen (HashKv_Del h (value_map z) v) (\<lambda>(b, kv). Inr (b, z\<lparr>value_map := kv\<rparr>))"

subsection \<open>Invariant\<close>

text \<open>The current scores, and the pairs in the skip list. Every current pair is in the list.\<close>

definition zscores :: "(string \<Rightarrow> u64) \<Rightarrow> zset \<Rightarrow> string \<rightharpoonup> int" where
  "zscores h z = contents h (value_map z)"

definition zset_inv ::
  "(string \<Rightarrow> u64) \<Rightarrow> new_fn \<Rightarrow> mem \<Rightarrow> region list \<Rightarrow> zset \<Rightarrow> addr list \<Rightarrow> bool" where
  "zset_inv h nw m R z L \<longleftrightarrow>
     kv_ok (value_map z) \<and> list_inv score nw m R (score_range_map z) L \<and>
     (\<forall>v s. zscores h z v = Some s \<longrightarrow> \<lparr>score = s, zvalue = v\<rparr> \<in> set (sl_keys (score_range_map z) L))"

definition current :: "(string \<Rightarrow> u64) \<Rightarrow> zset \<Rightarrow> zadd_request \<Rightarrow> bool" where
  "current h z k \<longleftrightarrow> zscores h z (zvalue k) = Some (score k)"

lemma node_size_ok_sizeof_Node [simp]: "node_size_ok sizeof_Node"
  by (simp add: node_size_ok_def sizeof_Node_def)

lemma Zset_ctor_ok:
  assumes "arena_inv nw m R"
  shows "Zset_ctor dbg nw m = Inl Bad_alloc \<and> refuses dbg nw m sizeof_Node \<or>
     (\<exists>m' z R'. Zset_ctor dbg nw m = Inr (m', z) \<and> zset_inv h nw m' R' z [] \<and>
        zscores h z = Map.empty \<and> set R \<subseteq> set R' \<and> grants dbg nw m sizeof_Node m')"
proof -
  obtain kv :: "int hash_kv" where kv: "HashKv_Init 87719 = Inr (True, kv)" "kv_ok kv" "contents h kv = Map.empty"
    using kv_ok_Init [of 87719 h] by auto
  from SkipList_ctor_correct [OF assms node_size_ok_sizeof_Node, of dbg "\<lparr>score = 0, zvalue = ''''\<rparr>" score]
  show ?thesis
  proof
    assume "SkipList_ctor dbg nw sizeof_Node m \<lparr>score = 0, zvalue = ''''\<rparr> = Inl Bad_alloc \<and>
      refuses dbg nw m sizeof_Node"
    then show ?thesis by (simp add: Zset_ctor_def)
  next
    assume "\<exists>m' sl h. SkipList_ctor dbg nw sizeof_Node m \<lparr>score = 0, zvalue = ''''\<rparr> = Inr (m', sl) \<and>
      list_inv score nw m' ((h, node_bytes sizeof_Node kMaxHeight) # R) sl [] \<and> head sl = h \<and>
      grants dbg nw m sizeof_Node m'"
    then obtain m' sl hd' where "SkipList_ctor dbg nw sizeof_Node m \<lparr>score = 0, zvalue = ''''\<rparr> = Inr (m', sl)"
      "list_inv score nw m' ((hd', node_bytes sizeof_Node kMaxHeight) # R) sl []" "grants dbg nw m sizeof_Node m'" by blast
    with kv show ?thesis
      by (intro disjI2 exI [of _ m'] exI [of _ "\<lparr>value_map = kv, score_range_map = sl\<rparr>"]
          exI [of _ "(hd', node_bytes sizeof_Node kMaxHeight) # R"])
        (auto simp: Zset_ctor_def zset_inv_def zscores_def)
  qed
qed

lemma Zset_Add_ok:
  assumes inv: "zset_inv h nw m R z L"
    and nodup: "\<not> (dbg \<and> s \<in> score ` set (sl_keys (score_range_map z) L))"
  shows "Zset_Add h dbg nw m z s v = fails Bad_alloc \<and> refuses dbg nw m sizeof_Node \<or>
     (\<exists>m' z' R' L'. Zset_Add h dbg nw m z s v = returns (True, m', z') \<and> zset_inv h nw m' R' z' L' \<and>
        zscores h z' = (zscores h z)(v \<mapsto> s) \<and>
        sl_keys (score_range_map z') L' = insort_key score \<lparr>score = s, zvalue = v\<rparr> (sl_keys (score_range_map z) L) \<and>
        set R \<subseteq> set R' \<and> grants dbg nw m sizeof_Node m')"
proof -
  have kv: "kv_ok (value_map z)" and li: "list_inv score nw m R (score_range_map z) L"
    using inv by (simp_all add: zset_inv_def)
  obtain kv' where add: "HashKv_Add h (value_map z) v s = Inr (True, kv')" "kv_ok kv'"
    "contents h kv' = (contents h (value_map z))(v \<mapsto> s)"
    using hash_kv.add_ok [OF kv, of h v s] by blast
  let ?k = "\<lparr>score = s, zvalue = v\<rparr>"
  consider (bad) "SkipList_Insert Comparator dbg nw sizeof_Node m (score_range_map z) ?k = fails Bad_alloc"
      "refuses dbg nw m sizeof_Node"
    | (ins) m' sl' R' L' where
      "SkipList_Insert Comparator dbg nw sizeof_Node m (score_range_map z) ?k = returns (m', sl')"
      "list_inv score nw m' R' sl' L'"
      "sl_keys sl' L' = insort_key score ?k (sl_keys (score_range_map z) L)" "set R \<subseteq> set R'"
      "grants dbg nw m sizeof_Node m'"
    using zset_order.SkipList_Insert_correct [OF li node_size_ok_sizeof_Node, of dbg ?k] nodup by auto
  then show ?thesis
  proof cases
    case bad
    then show ?thesis using add by (simp add: Zset_Add_def)
  next
    case ins
    let ?z' = "\<lparr>value_map = kv', score_range_map = sl'\<rparr>"
    have "zset_inv h nw m' R' ?z' L'"
      using inv ins add by (auto simp: zset_inv_def zscores_def set_insort_key split: if_splits)
    then show ?thesis
      using add ins by (intro disjI2 exI [of _ m'] exI [of _ ?z'] exI [of _ R'] exI [of _ L'])
        (simp add: Zset_Add_def zscores_def)
  qed
qed

lemma Zset_Del_ok:
  assumes inv: "zset_inv h nw m R z L"
  shows "\<exists>z'. Zset_Del h z v = Inr (True, z') \<and> zset_inv h nw m R z' L \<and>
     zscores h z' = (zscores h z)(v := None) \<and> score_range_map z' = score_range_map z"
proof -
  have kv: "kv_ok (value_map z)" using inv by (simp add: zset_inv_def)
  obtain kv' where "HashKv_Del h (value_map z) v = Inr (True, kv')" "kv_ok kv'"
    "contents h kv' = (contents h (value_map z))(v := None)"
    using hash_kv.del_ok [OF kv, of h v] by blast
  then show ?thesis
    using inv by (auto simp: Zset_Del_def zset_inv_def zscores_def split: if_splits)
qed

subsection \<open>What \<open>Range\<close> returns\<close>

lemma Range_loop_correct:
  assumes kv: "kv_ok (value_map z)" and ok: "sl_ok (score_range_map z) (P @ Q)"
  shows "Range_loop h dbg z hi (lnk (hd_opt Q)) acc
           = returns (acc @ filter (current h z) (takeWhile (\<lambda>k. score k \<le> hi) (sl_keys (score_range_map z) Q)))"
  using ok
proof (induction Q arbitrary: P acc)
  case Nil
  show ?case by (subst Range_loop.simps) (simp add: Valid_def sl_keys_def)
next
  case (Cons x Q)
  let ?sl = "score_range_map z" and ?k = "key_of (nodes (score_range_map z)) x"
  have key: "Iterator_key dbg ?sl (Ptr x) = returns ?k"
    using Iterator_key_correct [OF Cons.prems, of x] by simp
  have nxt: "Iterator_Next dbg ?sl (Ptr x) = returns (lnk (hd_opt Q))"
    using Iterator_Next_correct [OF Cons.prems] .
  have rd: "HashKv_read h (value_map z) (zvalue ?k) = Inr (zscores h z (zvalue ?k))"
    using kv by (simp add: zscores_def HashKv_read_ok)
  have ih: "Range_loop h dbg z hi (lnk (hd_opt Q)) acc' = returns (acc' @
      filter (current h z) (takeWhile (\<lambda>k. score k \<le> hi) (sl_keys ?sl Q)))" for acc'
    using Cons.IH [of "P @ [x]" acc'] Cons.prems by simp
  show ?case
    by (subst Range_loop.simps)
      (simp add: Valid_def key rd nxt ih sl_keys_def current_def Let_def)
qed

lemma Zset_Range_filter:
  assumes inv: "zset_inv h nw m R z L"
  shows "Zset_Range h dbg z lo hi =
     returns (filter (\<lambda>k. lo \<le> score k \<and> score k \<le> hi \<and> current h z k) (sl_keys (score_range_map z) L))"
proof -
  let ?sl = "score_range_map z" and ?min = "\<lparr>score = lo, zvalue = ''''\<rparr>"
  define Q where "Q = dropWhile (\<lambda>a. score (key_of (nodes ?sl) a) < lo) L"
  define P where "P = takeWhile (\<lambda>a. score (key_of (nodes ?sl) a) < lo) L"
  have ok: "sl_ok ?sl L" and srt: "sorted (map score (sl_keys ?sl L))" and kv: "kv_ok (value_map z)"
    using inv by (simp_all add: zset_inv_def list_inv_def)
  have PQ: "sl_ok ?sl (P @ Q)" using ok by (simp add: P_def Q_def)
  have "Iterator_Seek Comparator ?sl ?min = returns (lnk (hd_opt Q))"
    using zset_order.Seek_correct [OF ok srt, of ?min] by (simp add: Q_def)
  moreover have "sl_keys ?sl Q = dropWhile (\<lambda>k. score k < lo) (sl_keys ?sl L)"
    by (simp add: sl_keys_def Q_def dropWhile_map o_def)
  ultimately show ?thesis
    using Range_loop_correct [OF kv PQ, of h dbg hi "[]"]
    by (simp add: Zset_Range_def sorted_window [OF srt] conj_commute conj_left_commute)
qed

subsection \<open>Histories\<close>

datatype zop = ZAdd int string | ZDel string

fun zset_run :: "(string \<Rightarrow> u64) \<Rightarrow> bool \<Rightarrow> new_fn \<Rightarrow> mem \<Rightarrow> zset \<Rightarrow> zop list \<Rightarrow> (mem \<times> zset) run" where
  "zset_run h dbg nw m z [] = returns (m, z)"
| "zset_run h dbg nw m z (ZAdd s v # ops) =
     andthen (Zset_Add h dbg nw m z s v) (\<lambda>(_, m', z'). zset_run h dbg nw m' z' ops)"
| "zset_run h dbg nw m z (ZDel v # ops) =
     andthen (run_sum (Zset_Del h z v)) (\<lambda>(_, z'). zset_run h dbg nw m z' ops)"

text \<open>The current scores after a history, and the pairs it added.\<close>

fun scores_after :: "(string \<rightharpoonup> int) \<Rightarrow> zop list \<Rightarrow> string \<rightharpoonup> int" where
  "scores_after c [] = c"
| "scores_after c (ZAdd s v # ops) = scores_after (c(v \<mapsto> s)) ops"
| "scores_after c (ZDel v # ops) = scores_after (c(v := None)) ops"

fun adds :: "zop list \<Rightarrow> zadd_request list" where
  "adds [] = []"
| "adds (ZAdd s v # ops) = \<lparr>score = s, zvalue = v\<rparr> # adds ops"
| "adds (ZDel v # ops) = adds ops"

text \<open>A score that the skip list has already fails the assertion of \<open>Insert\<close>.\<close>

lemma Zset_Add_repeated:
  assumes inv: "zset_inv h nw m R z L" and s: "s \<in> score ` set (sl_keys (score_range_map z) L)"
  shows "Zset_Add h True nw m z s v = fails Assertion"
proof -
  have "SkipList_Insert Comparator True nw sizeof_Node m (score_range_map z) \<lparr>score = s, zvalue = v\<rparr> = fails Assertion"
    using zset_order.SkipList_Insert_duplicate [of nw m R "score_range_map z" L] inv s by (simp add: zset_inv_def)
  moreover obtain kv where "HashKv_Add h (value_map z) v s = Inr (True, kv)"
    using hash_kv.add_ok [of "value_map z" h v s] inv by (auto simp: zset_inv_def)
  ultimately show ?thesis by (simp add: Zset_Add_def)
qed

text \<open>Whether a history adds a score the set has had before.\<close>

definition repeats_score_in :: "zadd_request list \<Rightarrow> zop list \<Rightarrow> bool" where
  "repeats_score_in old ops \<longleftrightarrow> \<not> distinct (map score (adds ops)) \<or> score ` set (adds ops) \<inter> score ` set old \<noteq> {}"

lemma repeats_score_in_simps [simp]:
  "\<not> repeats_score_in old []"
  "repeats_score_in old (ZDel v # ops) \<longleftrightarrow> repeats_score_in old ops"
  "repeats_score_in old (ZAdd s v # ops) \<longleftrightarrow> s \<in> score ` set old \<or> repeats_score_in (insort_key score \<lparr>score = s, zvalue = v\<rparr> old) ops"
  by (auto simp: repeats_score_in_def set_insort_key)

lemma zset_run_ok:
  assumes "zset_inv h nw m R z L"
  shows "zset_run h dbg nw m z ops = fails Bad_alloc \<or>
     (if dbg \<and> repeats_score_in (sl_keys (score_range_map z) L) ops then zset_run h dbg nw m z ops = fails Assertion
      else \<exists>m' z' R' L'. zset_run h dbg nw m z ops = returns (m', z') \<and> zset_inv h nw m' R' z' L' \<and>
        zscores h z' = scores_after (zscores h z) ops \<and>
        mset (sl_keys (score_range_map z') L') = mset (sl_keys (score_range_map z) L) + mset (adds ops) \<and>
        set R \<subseteq> set R')"
  using assms
proof (induction ops arbitrary: m R z L)
  case Nil
  then show ?case by auto
next
  case (Cons op ops)
  show ?case
  proof (cases op)
    case (ZAdd s v)
    let ?k = "\<lparr>score = s, zvalue = v\<rparr>" and ?ks = "sl_keys (score_range_map z) L"
    show ?thesis
    proof (cases "dbg \<and> s \<in> score ` set ?ks")
      case True
      then show ?thesis using Zset_Add_repeated [OF Cons.prems, of s v] ZAdd by simp
    next
      case nodup: False
      from Zset_Add_ok [OF Cons.prems nodup, of v] show ?thesis
      proof (elim disjE exE conjE)
        fix m1 z1 R1 L1
        assume a: "Zset_Add h dbg nw m z s v = returns (True, m1, z1)" "zset_inv h nw m1 R1 z1 L1"
          "zscores h z1 = (zscores h z)(v \<mapsto> s)" "set R \<subseteq> set R1" "sl_keys (score_range_map z1) L1 = insort_key score ?k ?ks"
        have rep: "dbg \<and> repeats_score_in ?ks (op # ops) \<longleftrightarrow> dbg \<and> repeats_score_in (sl_keys (score_range_map z1) L1) ops"
          using nodup ZAdd a(5) by auto
        have run: "zset_run h dbg nw m z (op # ops) = zset_run h dbg nw m1 z1 ops" using a(1) ZAdd by simp
        show ?thesis
          using Cons.IH [OF a(2)] subset_trans [OF a(4)] unfolding rep run a(3,5)
          by (elim disjE) (auto simp: ZAdd fun_upd_def split: if_splits, blast+)
      qed (simp add: ZAdd)
    qed
  next
    case (ZDel v)
    obtain z1 where d: "Zset_Del h z v = Inr (True, z1)" "zset_inv h nw m R z1 L"
      "zscores h z1 = (zscores h z)(v := None)" "score_range_map z1 = score_range_map z"
      using Zset_Del_ok [OF Cons.prems(1)] by blast
    have run: "zset_run h dbg nw m z (op # ops) = zset_run h dbg nw m z1 ops" using d(1) ZDel by simp
    show ?thesis using Cons.IH [OF d(2)] unfolding run d(3,4) unfolding ZDel scores_after.simps adds.simps repeats_score_in_simps .
  qed
qed

lemma Zset_ctor_inv:
  assumes "arena_inv nw m0 R" and "Zset_ctor dbg nw m0 = Inr (m, z)"
  obtains R' where "zset_inv h nw m R' z []" and "zscores h z = Map.empty" and "sl_keys (score_range_map z) [] = []"
  using Zset_ctor_ok [OF assms(1), of dbg h] assms(2) that by (auto simp: sl_keys_def)

subsection \<open>Sets on the bumping free store, for the witnesses\<close>

lemma arena_inv_empty: "arena_inv bump_new (Arena_ctor, []) []"
  by (simp add: arena_inv_def new_ok_bump arena_ok_ctor store_ok_def)

lemma sizeof_Node_small: "unat sizeof_Node \<le> 4000"
  by (simp add: sizeof_Node_def)

lemma bump_ctor:
  obtains m z R where "Zset_ctor dbg bump_new (Arena_ctor, []) = Inr (m, z)" and "zset_inv h bump_new m R z []"
    and "plenty 8 m"
proof -
  have "plenty 9 (Arena_ctor, [])" by (simp add: plenty_def store_end_def)
  then show thesis
    using Zset_ctor_ok [OF arena_inv_empty, of dbg h] that
      plenty_grants [OF _ arena_inv_empty node_size_ok_sizeof_Node sizeof_Node_small, of 8 dbg]
    by (auto simp: eval_nat_numeral)
qed

lemma bump_add:
  assumes inv: "zset_inv h bump_new m R z L" and room: "plenty (Suc n) m"
    and nodup: "\<not> (dbg \<and> s \<in> score ` set (sl_keys (score_range_map z) L))"
  obtains m' z' R' L' where "Zset_Add h dbg bump_new m z s v = returns (True, m', z')"
    and "zset_inv h bump_new m' R' z' L'" and "plenty n m'"
    and "sl_keys (score_range_map z') L' = insort_key score \<lparr>score = s, zvalue = v\<rparr> (sl_keys (score_range_map z) L)"
proof -
  have "arena_inv bump_new m R" using inv by (simp add: zset_inv_def list_inv_def)
  note room = plenty_grants [OF room this node_size_ok_sizeof_Node sizeof_Node_small]
  show thesis using Zset_Add_ok [OF inv nodup, of v] room that by blast
qed

text \<open>The history of a fresh set, and what \<open>Range\<close> returns after it.\<close>

lemma zset_history:
  assumes "arena_inv nw m0 R" and "Zset_ctor dbg nw m0 = Inr (m, z)"
  obtains "zset_run h dbg nw m z ops = fails Bad_alloc"
  | "dbg" "\<not> distinct (map score (adds ops))" "zset_run h dbg nw m z ops = fails Assertion"
  | m' z' R' L' where "\<not> (dbg \<and> \<not> distinct (map score (adds ops)))" "zset_run h dbg nw m z ops = returns (m', z')"
      "zset_inv h nw m' R' z' L'" "zscores h z' = scores_after Map.empty ops" "mset (sl_keys (score_range_map z') L') = mset (adds ops)"
proof -
  obtain R1 where i: "zset_inv h nw m R1 z []" "zscores h z = Map.empty" "sl_keys (score_range_map z) [] = []"
    using Zset_ctor_inv [OF assms] .
  have rep: "repeats_score_in [] ops \<longleftrightarrow> \<not> distinct (map score (adds ops))" by (simp add: repeats_score_in_def)
  consider "zset_run h dbg nw m z ops = fails Bad_alloc"
    | "dbg \<and> \<not> distinct (map score (adds ops))" "zset_run h dbg nw m z ops = fails Assertion"
    | m' z' R' L' where "\<not> (dbg \<and> \<not> distinct (map score (adds ops)))" "zset_run h dbg nw m z ops = returns (m', z')"
      "zset_inv h nw m' R' z' L'" "zscores h z' = scores_after (zscores h z) ops"
      "mset (sl_keys (score_range_map z') L') = mset (sl_keys (score_range_map z) []) + mset (adds ops)"
    using zset_run_ok [OF i(1), of dbg ops] unfolding i(3) rep by (metis (full_types))
  then show thesis by cases (use that i(2,3) in simp_all)
qed

lemma Range_after_history:
  assumes "zset_inv h nw m' R' z' L'" "zscores h z' = scores_after Map.empty ops"
    and m: "mset (sl_keys (score_range_map z') L') = mset (adds ops)"
  obtains res where "Zset_Range h dbg z' lo hi = returns res" "sorted (map score res)"
    "set res = {k. lo \<le> score k \<and> score k \<le> hi \<and> scores_after Map.empty ops (zvalue k) = Some (score k)}"
    "\<And>k. k \<in> set res \<Longrightarrow> count_list res k = count_list (adds ops) k"
proof -
  let ?keys = "sl_keys (score_range_map z') L'"
  let ?in = "\<lambda>k. lo \<le> score k \<and> score k \<le> hi \<and> current h z' k"
  have srt: "sorted (map score ?keys)" using assms(1) by (simp add: zset_inv_def list_inv_def)
  have mem: "k \<in> set ?keys" if "current h z' k" for k
    using that assms(1) by (cases k) (auto simp: zset_inv_def current_def)
  have "count_list (filter ?in ?keys) k = count_list (adds ops) k" if "k \<in> set (filter ?in ?keys)" for k
    using that arg_cong [OF m, of "\<lambda>M. count M k"] by (simp flip: count_mset)
  moreover have "set (filter ?in ?keys) = {k. lo \<le> score k \<and> score k \<le> hi \<and> scores_after Map.empty ops (zvalue k) = Some (score k)}"
    using mem assms(2) by (auto simp: current_def)
  ultimately show thesis
    using that [of "filter ?in ?keys"] Zset_Range_filter [OF assms(1), of dbg lo hi] sorted_filter [OF srt, of ?in] by blast
qed

lemma distinct_count: "distinct xs \<longleftrightarrow> (\<forall>x\<in>set xs. count_list xs x = 1)"
  by (simp add: distinct_count_atmost_1 flip: count_mset) (metis count_greater_zero_iff count_mset_0_iff set_mset_mset)

subsection \<open>Properties\<close>

text \<open>Claim C2. Start from an empty sorted set and apply any history of \<open>Add\<close>s and \<open>Del\<close>s. Memory may run out. In a build
  with assertions the process stops when the history adds a score that was added before, whatever the member. Otherwise every
  call returns, and then \<open>Range\<close> returns, for every pair of bounds, exactly the (score, member) pairs whose score lies
  within the bounds and is the score the member was given last and not removed since, in ascending order of score, each as often as the
  history added it.\<close>

theorem Zset_history_correct:
  assumes "arena_inv nw m0 R" and "Zset_ctor dbg nw m0 = Inr (m, z)"
  shows "zset_run h dbg nw m z ops = fails Bad_alloc \<or>
     (if dbg \<and> \<not> distinct (map score (adds ops)) then zset_run h dbg nw m z ops = fails Assertion
      else \<exists>m' z'. zset_run h dbg nw m z ops = returns (m', z') \<and>
        (\<forall>lo hi. \<exists>res. Zset_Range h dbg z' lo hi = returns res \<and> sorted (map score res) \<and>
           set res = {k. lo \<le> score k \<and> score k \<le> hi \<and> scores_after Map.empty ops (zvalue k) = Some (score k)} \<and>
           (\<forall>k\<in>set res. count_list res k = count_list (adds ops) k)))"
proof (rule zset_history [OF assms, of h ops], goal_cases)
  case (3 m' z' R' L')
  have "\<exists>res. Zset_Range h dbg z' lo hi = returns res \<and> sorted (map score res) \<and>
           set res = {k. lo \<le> score k \<and> score k \<le> hi \<and> scores_after Map.empty ops (zvalue k) = Some (score k)} \<and>
           (\<forall>k\<in>set res. count_list res k = count_list (adds ops) k)" for lo hi
    by (rule Range_after_history [OF 3(3-5), of dbg lo hi]) blast
  then show ?case using 3(1,2) by auto
qed auto

theorem Zset_history_correct_witness:
  "\<exists>m z. Zset_ctor True bump_new (Arena_ctor, []) = Inr (m, z) \<and>
     (let ops = [ZAdd 7 ''a'', ZAdd 3 ''b'', ZAdd 5 ''a'', ZDel ''b''] in
      zset_run (\<lambda>_. 0) True bump_new m z ops = fails Bad_alloc \<or>
      (\<exists>m' z'. zset_run (\<lambda>_. 0) True bump_new m z ops = returns (m', z') \<and>
         (\<forall>lo hi. \<exists>res. Zset_Range (\<lambda>_. 0) True z' lo hi = returns res \<and> sorted (map score res) \<and>
            set res = {k. lo \<le> score k \<and> score k \<le> hi \<and> scores_after Map.empty ops (zvalue k) = Some (score k)} \<and>
            (\<forall>k\<in>set res. count_list res k = count_list (adds ops) k))))"
proof -
  obtain m z R where c: "Zset_ctor True bump_new (Arena_ctor, []) = Inr (m, z)"
    by (rule bump_ctor [of True "\<lambda>_. 0"])
  show ?thesis
    using Zset_history_correct [OF arena_inv_empty c, of "\<lambda>_. 0" "[ZAdd 7 ''a'', ZAdd 3 ''b'', ZAdd 5 ''a'', ZDel ''b'']"] c
    unfolding Let_def by (intro exI [of _ m] exI [of _ z] conjI) simp_all
qed

text \<open>Claim C14. A sorted set as the interface describes it lists each member once. In a build without assertions this set does so
  exactly when none of the pairs it lists was added more than once: adding a member again with the score it has, or with an earlier one,
  makes every later \<open>Range\<close> list it again.\<close>

theorem Zset_members_once_iff:
  assumes "arena_inv nw m0 R" and "Zset_ctor False nw m0 = Inr (m, z)" and "zset_run h False nw m z ops = returns (m', z')"
  shows "\<exists>res. Zset_Range h False z' lo hi = returns res \<and>
    (distinct (map zvalue res) \<longleftrightarrow>
      (\<forall>k. lo \<le> score k \<and> score k \<le> hi \<and> scores_after Map.empty ops (zvalue k) = Some (score k) \<longrightarrow> count_list (adds ops) k = 1))"
proof (rule zset_history [OF assms(1,2), of h ops], goal_cases)
  case (3 m1 z1 R' L')
  then have z1: "z1 = z'" using assms(3) by simp
  obtain res where r: "Zset_Range h False z' lo hi = returns res"
    "set res = {k. lo \<le> score k \<and> score k \<le> hi \<and> scores_after Map.empty ops (zvalue k) = Some (score k)}"
    "\<And>k. k \<in> set res \<Longrightarrow> count_list res k = count_list (adds ops) k"
    by (rule Range_after_history [OF 3(3-5), of False lo hi]) (simp add: z1)
  have "inj_on zvalue (set res)" unfolding r(2) by (auto simp: inj_on_def)
  then have "distinct (map zvalue res) \<longleftrightarrow> (\<forall>k\<in>set res. count_list (adds ops) k = 1)"
    unfolding distinct_map by (subst distinct_count) (use r(3) in simp)
  then show ?case using r(1) unfolding r(2) by auto
qed (use assms(3) in auto)

theorem Zset_members_once_iff_witness:
  "\<exists>m z m' z' res. Zset_ctor False bump_new (Arena_ctor, []) = Inr (m, z) \<and>
     zset_run (\<lambda>_. 0) False bump_new m z [ZAdd 1 ''alice'', ZAdd 1 ''alice''] = returns (m', z') \<and>
     Zset_Range (\<lambda>_. 0) False z' 0 5 = returns res \<and> \<not> distinct (map zvalue res)"
proof -
  obtain m z R where c: "Zset_ctor False bump_new (Arena_ctor, []) = Inr (m, z)"
    and inv: "zset_inv (\<lambda>_. 0) bump_new m R z []" and room: "plenty 8 m" by (rule bump_ctor)
  have room: "plenty (Suc (Suc 6)) m" using room by (simp add: eval_nat_numeral)
  obtain m1 z1 R1 L1 where a1: "Zset_Add (\<lambda>_. 0) False bump_new m z 1 ''alice'' = returns (True, m1, z1)"
    "zset_inv (\<lambda>_. 0) bump_new m1 R1 z1 L1" "plenty (Suc 6) m1"
    by (rule bump_add [OF inv room, of False 1 "''alice''"]) auto
  obtain m2 z2 where a2: "Zset_Add (\<lambda>_. 0) False bump_new m1 z1 1 ''alice'' = returns (True, m2, z2)"
    by (rule bump_add [OF a1(2,3), of False 1 "''alice''"]) auto
  have r: "zset_run (\<lambda>_. 0) False bump_new m z [ZAdd 1 ''alice'', ZAdd 1 ''alice''] = returns (m2, z2)"
    using a1(1) a2 by simp
  from Zset_members_once_iff [OF arena_inv_empty c r, of 0 5]
  obtain res where res: "Zset_Range (\<lambda>_. 0) False z2 0 5 = returns res" "\<not> distinct (map zvalue res)"
    by (auto dest!: spec [of _ "\<lparr>score = 1, zvalue = ''alice''\<rparr>"])
  show ?thesis
    by (rule exI [of _ m], rule exI [of _ z], rule exI [of _ m2], rule exI [of _ z2], rule exI [of _ res]) (intro conjI c r res)
qed

text \<open>Claim C13. In a build with assertions a sorted set cannot hold two members with the same score: once a
  score has been added, adding it again with any member, even after the first was deleted, stops the process.\<close>

theorem Zset_equal_scores_abort:
  assumes "arena_inv nw m0 R" and "Zset_ctor True nw m0 = Inr (m, z)"
    and "zset_run h True nw m z ops = returns (m', z')" and "ZAdd s v \<in> set ops"
  shows "Zset_Add h True nw m' z' s w = fails Assertion"
proof (rule zset_history [OF assms(1,2), of h ops], goal_cases)
  case (3 m1 z1 R' L')
  have "\<lparr>score = s, zvalue = v\<rparr> \<in> set (adds ops)"
    using assms(4) by (induction ops rule: adds.induct) auto
  then have "s \<in> score ` set (sl_keys (score_range_map z1) L')"
    using arg_cong [OF 3(5), of set_mset] by force
  then show ?case using Zset_Add_repeated [OF 3(3), of s w] 3(2) assms(3) by simp
qed (use assms(3) in auto)

theorem Zset_equal_scores_abort_witness:
  "\<exists>m z m' z'. Zset_ctor True bump_new (Arena_ctor, []) = Inr (m, z) \<and>
     zset_run (\<lambda>_. 0) True bump_new m z [ZAdd 1 ''alice''] = returns (m', z') \<and>
     Zset_Add (\<lambda>_. 0) True bump_new m' z' 1 ''bob'' = fails Assertion"
proof -
  obtain m z R where c: "Zset_ctor True bump_new (Arena_ctor, []) = Inr (m, z)"
    and inv: "zset_inv (\<lambda>_. 0) bump_new m R z []" and room: "plenty 8 m" by (rule bump_ctor)
  have room: "plenty (Suc 7) m" using room by (simp add: eval_nat_numeral)
  obtain m' z' where "Zset_Add (\<lambda>_. 0) True bump_new m z 1 ''alice'' = returns (True, m', z')"
    by (rule bump_add [OF inv room, of True 1 "''alice''"]) (auto simp: sl_keys_def)
  then have r: "zset_run (\<lambda>_. 0) True bump_new m z [ZAdd 1 ''alice''] = returns (m', z')" by simp
  show ?thesis
    using Zset_equal_scores_abort [OF arena_inv_empty c r, of 1 "''alice''" "''bob''"] c r
    by (intro exI [of _ m] exI [of _ z] exI [of _ m'] exI [of _ z'] conjI) simp_all
qed

end
