(* ===== verification/Flare_String.thy ===== *)
theory Flare_String
  imports Prelude "HOL-Library.Sublist"
begin

section \<open>String utilities (flare/base/string.h, string.cc)\<close>

text \<open>
  The string helpers the HTTP code is written with. A \<open>std::string\<close> is a list of
  characters; a position is an index or \<open>npos\<close>, which is \<open>None\<close>. Three facts of the C++
  code shape the model. The case tables are indexed with a plain \<open>char\<close>, which is signed,
  so a byte of 128 or more indexes out of bounds and is \<open>Undefined\<close>. \<open>JoinImpl\<close>
  adds up the size of its result in an \<open>int\<close>, so the sum wraps at 32 bits. And number
  parsing goes through \<open>strtoll\<close>, which stops at a NUL, skips leading white space, and
  reports overflow through \<open>errno\<close> without ever clearing it; \<open>errno\<close> is therefore passed in
  and out. Parsing of floating-point numbers is not modelled.

  The lemmas relate the position arithmetic to the list functions it computes: splitting
  and joining are inverse, replacing agrees with a reference that never looks back, and
  numbers parse back from their decimal notation.
\<close>

subsection \<open>Characters\<close>

abbreviation code :: "char \<Rightarrow> nat" where
  "code \<equiv> of_char"

definition ascii :: "string \<Rightarrow> bool" where
  "ascii s \<longleftrightarrow> (\<forall>c\<in>set s. code c < 128)"

definition kLowerChars :: "nat \<Rightarrow> char" where
  "kLowerChars i = (if 65 \<le> i \<and> i \<le> 90 then char_of (i - 65 + 97) else char_of i)"

definition kUpperChars :: "nat \<Rightarrow> char" where
  "kUpperChars i = (if 97 \<le> i \<and> i \<le> 122 then char_of (i - 97 + 65) else char_of i)"

text \<open>\<open>kLowerChars[c]\<close> with a signed \<open>c\<close>: a negative index is out of bounds.\<close>

definition ToLower_char :: "char \<Rightarrow> fault + char" where
  "ToLower_char c = (if code c < 128 then Inr (kLowerChars (code c)) else Inl Undefined)"

definition ToUpper_char :: "char \<Rightarrow> fault + char" where
  "ToUpper_char c = (if code c < 128 then Inr (kUpperChars (code c)) else Inl Undefined)"

fun ToLower :: "string \<Rightarrow> fault + string" where
  "ToLower [] = Inr []"
| "ToLower (c # s) = sthen (ToLower_char c) (\<lambda>d. sthen (ToLower s) (\<lambda>r. Inr (d # r)))"

fun ToUpper :: "string \<Rightarrow> fault + string" where
  "ToUpper [] = Inr []"
| "ToUpper (c # s) = sthen (ToUpper_char c) (\<lambda>d. sthen (ToUpper s) (\<lambda>r. Inr (d # r)))"

fun IEquals_loop :: "string \<Rightarrow> string \<Rightarrow> fault + bool" where
  "IEquals_loop (a # as) (b # bs) =
     sthen (ToLower_char a) (\<lambda>x. sthen (ToLower_char b) (\<lambda>y.
       if x \<noteq> y then Inr False else IEquals_loop as bs))"
| "IEquals_loop _ _ = Inr True"

definition IEquals :: "string \<Rightarrow> string \<Rightarrow> fault + bool" where
  "IEquals first second = (if length first \<noteq> length second then Inr False else IEquals_loop first second)"

subsection \<open>Searching, replacing, trimming\<close>

definition StartsWith :: "string \<Rightarrow> string \<Rightarrow> bool" where
  "StartsWith s pre \<longleftrightarrow> length s \<ge> length pre \<and> take (length pre) s = pre"

definition EndsWith :: "string \<Rightarrow> string \<Rightarrow> bool" where
  "EndsWith s suf \<longleftrightarrow> length s \<ge> length suf \<and> drop (length s - length suf) s = suf"

text \<open>\<open>std::string::find\<close>, from the start and from a position.\<close>

fun find_sub :: "string \<Rightarrow> string \<Rightarrow> nat option" where
  "find_sub pat [] = (if pat = [] then Some 0 else None)"
| "find_sub pat (c # s) = (if StartsWith (c # s) pat then Some 0 else map_option Suc (find_sub pat s))"

definition find_from :: "string \<Rightarrow> string \<Rightarrow> nat \<Rightarrow> nat option" where
  "find_from pat s i = (if i > length s then None else map_option ((+) i) (find_sub pat (drop i s)))"

fun Replace_loop :: "string \<Rightarrow> string \<Rightarrow> string \<Rightarrow> nat option \<Rightarrow> nat \<Rightarrow> string" where
  "Replace_loop from to str None count = str"
| "Replace_loop from to str (Some p) 0 = str"
| "Replace_loop from to str (Some p) (Suc count) =
     (let str' = take p str @ to @ drop (p + length from) str
      in Replace_loop from to str' (find_from from str' (p + length to)) count)"

definition Replace :: "string \<Rightarrow> string \<Rightarrow> string \<Rightarrow> nat \<Rightarrow> fault + string" where
  "Replace from to str count =
     (if from = [] then Inl Assertion else Inr (Replace_loop from to str (find_sub from str) count))"

fun find_first_not_of :: "char \<Rightarrow> string \<Rightarrow> nat option" where
  "find_first_not_of c [] = None"
| "find_first_not_of c (d # s) = (if d \<noteq> c then Some 0 else map_option Suc (find_first_not_of c s))"

definition find_last_not_of :: "char \<Rightarrow> string \<Rightarrow> nat option" where
  "find_last_not_of c s = map_option (\<lambda>i. length s - 1 - i) (find_first_not_of c (rev s))"

definition npos :: nat where
  "npos = 2 ^ 64 - 1"

definition Trim :: "string \<Rightarrow> string" where
  "Trim str =
     (if str = [] then []
      else
        (case (if hd str = CHR '' '' then find_first_not_of (CHR '' '') str else Some 0) of
           None \<Rightarrow> []
         | Some s \<Rightarrow>
             (let e = (if last str = CHR '' ''
                       then (case find_last_not_of (CHR '' '') str of None \<Rightarrow> npos | Some e \<Rightarrow> e)
                       else length str)
              in take (e - s + 1) (drop s str))))"

subsection \<open>Splitting and joining\<close>

function Split_loop :: "string \<Rightarrow> string \<Rightarrow> bool \<Rightarrow> string list" where
  "Split_loop current delim keep_empty =
     (if delim = [] then []
      else
        (case find_sub delim current of
           None \<Rightarrow> [current]
         | Some pos \<Rightarrow>
             (if pos \<noteq> 0 \<or> keep_empty then [take pos current] else []) @
             (let rest = drop (pos + length delim) current
              in if rest = [] then (if keep_empty then [[]] else [])
                 else Split_loop rest delim keep_empty)))"
  by pat_completeness auto
termination
proof (relation "measure (\<lambda>(current, _, _). length current)", goal_cases)
  case (2 current delim keep_empty pos rest)
  have "length (drop (pos + length delim) current) < length current"
    using 2 by (cases current) (auto simp: neq_Nil_conv)
  then show ?case using 2 by simp
qed simp

definition Split :: "string \<Rightarrow> string \<Rightarrow> bool \<Rightarrow> fault + string list" where
  "Split s delim keep_empty =
     (if s = [] then Inr [] else if delim = [] then Inl Assertion else Inr (Split_loop s delim keep_empty))"

definition Split_char :: "string \<Rightarrow> char \<Rightarrow> bool \<Rightarrow> fault + string list" where
  "Split_char s delim keep_empty = Split s [delim] keep_empty"

text \<open>The size is an \<open>int\<close>: the additions wrap, and a negative size makes \<open>reserve\<close> throw.\<close>

fun join_parts :: "string list \<Rightarrow> string \<Rightarrow> string" where
  "join_parts [] delim = []"
| "join_parts [p] delim = p"
| "join_parts (p # ps) delim = p @ delim @ join_parts ps delim"

definition JoinImpl :: "string list \<Rightarrow> string \<Rightarrow> fault + string" where
  "JoinImpl parts delim =
     (let size = fold (\<lambda>e n. n + word_of_nat (length e + length delim)) parts (0 :: 32 word)
      in if size = 0 then Inr []
         else if sint (size - word_of_nat (length delim)) < 0 then Inl Length_error
         else Inr (join_parts parts delim))"

definition Join :: "string list \<Rightarrow> string \<Rightarrow> fault + string" where
  "Join parts delim = JoinImpl parts delim"

subsection \<open>Parsing numbers\<close>

text \<open>\<open>strtoll\<close> and \<open>strtoull\<close> of the C library on a string without its terminating NUL. They return the
  value, what follows the number, and \<open>errno == ERANGE\<close> afterwards. Without a digit nothing is consumed.\<close>

definition is_space :: "char \<Rightarrow> bool" where
  "is_space c \<longleftrightarrow> code c = 32 \<or> (9 \<le> code c \<and> code c \<le> 13)"

definition digit_val :: "char \<Rightarrow> nat option" where
  "digit_val c =
     (if 48 \<le> code c \<and> code c \<le> 57 then Some (code c - 48)
      else if 97 \<le> code c \<and> code c \<le> 122 then Some (code c - 87)
      else if 65 \<le> code c \<and> code c \<le> 90 then Some (code c - 55)
      else None)"

definition is_digit :: "nat \<Rightarrow> char \<Rightarrow> bool" where
  "is_digit base c \<longleftrightarrow> (case digit_val c of None \<Rightarrow> False | Some d \<Rightarrow> d < base)"

definition digits_val :: "nat \<Rightarrow> string \<Rightarrow> nat" where
  "digits_val base ds = foldl (\<lambda>n c. n * base + the (digit_val c)) 0 ds"

definition strip_sign :: "string \<Rightarrow> bool \<times> string" where
  "strip_sign s =
     (case s of
        c # r \<Rightarrow> if c = CHR ''-'' then (True, r) else if c = CHR ''+'' then (False, r) else (False, s)
      | [] \<Rightarrow> (False, s))"

definition strip_0x :: "nat \<Rightarrow> string \<Rightarrow> string" where
  "strip_0x base s =
     (case s of
        z # x # d # r \<Rightarrow>
          if base = 16 \<and> z = CHR ''0'' \<and> (x = CHR ''x'' \<or> x = CHR ''X'') \<and> is_digit 16 d then d # r else s
      | _ \<Rightarrow> s)"

definition scan_number :: "nat \<Rightarrow> string \<Rightarrow> (bool \<times> nat \<times> string) option" where
  "scan_number base s =
     (let (neg, t) = strip_sign (dropWhile is_space s);
          u = strip_0x base t;
          ds = takeWhile (is_digit base) u
      in if ds = [] then None else Some (neg, digits_val base ds, dropWhile (is_digit base) u))"

definition strtoll :: "bool \<Rightarrow> nat \<Rightarrow> string \<Rightarrow> int \<times> string \<times> bool" where
  "strtoll erange base s =
     (case scan_number base s of
        None \<Rightarrow> (0, s, erange)
      | Some (neg, n, rest) \<Rightarrow>
          if neg then
            (if int n > 2 ^ 63 then (- (2 ^ 63), rest, True) else (- int n, rest, erange))
          else
            (if int n > 2 ^ 63 - 1 then (2 ^ 63 - 1, rest, True) else (int n, rest, erange)))"

definition strtoull :: "bool \<Rightarrow> nat \<Rightarrow> string \<Rightarrow> int \<times> string \<times> bool" where
  "strtoull erange base s =
     (case scan_number base s of
        None \<Rightarrow> (0, s, erange)
      | Some (neg, n, rest) \<Rightarrow>
          if int n > 2 ^ 64 - 1 then (2 ^ 64 - 1, rest, True)
          else ((if neg then (- int n) mod 2 ^ 64 else int n), rest, erange))"

definition TryParseImpl ::
  "(bool \<Rightarrow> nat \<Rightarrow> string \<Rightarrow> int \<times> string \<times> bool) \<Rightarrow> int list \<Rightarrow> bool \<Rightarrow> nat \<Rightarrow> string \<Rightarrow> int option \<times> bool" where
  "TryParseImpl fptr invs erange base s =
     (if s = [] then (None, erange)
      else
        (let (result, rest, erange') = fptr erange base s
         in if rest \<noteq> [] then (None, erange')
            else if result \<in> set invs \<and> erange' then (None, erange')
            else (Some result, erange')))"

definition TryNarrowCast :: "int \<Rightarrow> int \<Rightarrow> int option \<Rightarrow> int option" where
  "TryNarrowCast lo hi x =
     (case x of None \<Rightarrow> None | Some n \<Rightarrow> if n > hi \<or> n < lo then None else Some n)"

text \<open>The copy into the zero-terminated \<open>temp_buffer\<close>: what \<open>strtoll\<close> sees ends at the first NUL.\<close>

definition c_str :: "string \<Rightarrow> string" where
  "c_str s = takeWhile (\<lambda>c. code c \<noteq> 0) s"

definition TryParse_signed :: "nat \<Rightarrow> bool \<Rightarrow> nat \<Rightarrow> string \<Rightarrow> int option \<times> bool" where
  "TryParse_signed bits erange base s =
     (if length s > 128 then (None, erange)
      else
        (let (opt, erange') = TryParseImpl strtoll [- (2 ^ 63), 2 ^ 63 - 1] erange base (c_str s)
         in (TryNarrowCast (- (2 ^ (bits - 1))) (2 ^ (bits - 1) - 1) opt, erange')))"

definition TryParse_unsigned :: "nat \<Rightarrow> bool \<Rightarrow> nat \<Rightarrow> string \<Rightarrow> int option \<times> bool" where
  "TryParse_unsigned bits erange base s =
     (if length s > 128 then (None, erange)
      else
        (let (opt, erange') = TryParseImpl strtoull [2 ^ 64 - 1] erange base (c_str s)
         in (TryNarrowCast 0 (2 ^ bits - 1) opt, erange')))"

text \<open>The two flags of the boolean parser are accepted and never read.\<close>

fun any_IEquals :: "string \<Rightarrow> string list \<Rightarrow> fault + bool" where
  "any_IEquals s [] = Inr False"
| "any_IEquals s (t # ts) = sthen (IEquals s t) (\<lambda>b. if b then Inr True else any_IEquals s ts)"

definition TryParse_bool :: "bool \<Rightarrow> string \<Rightarrow> bool \<Rightarrow> bool \<Rightarrow> fault + bool option" where
  "TryParse_bool erange s recognizes_alphabet_symbol ignore_case =
     (case fst (TryParse_signed 32 erange 10 s) of
        Some n \<Rightarrow> Inr (if n = 0 then Some False else if n = 1 then Some True else None)
      | None \<Rightarrow>
          sthen (any_IEquals s [''y'', ''yes'', ''true'']) (\<lambda>yes.
            if yes then Inr (Some True)
            else sthen (any_IEquals s [''n'', ''no'', ''false'']) (\<lambda>no.
              if no then Inr (Some False) else Inr None)))"

section \<open>What the string utilities compute\<close>

subsection \<open>Case\<close>

definition lower :: "string \<Rightarrow> string" where
  "lower = map (\<lambda>c. kLowerChars (code c))"

lemma ToLower_ascii: "ascii s \<Longrightarrow> ToLower s = Inr (lower s)"
  by (induction s) (simp_all add: ascii_def ToLower_char_def lower_def)

lemma IEquals_ascii: "ascii s \<Longrightarrow> ascii t \<Longrightarrow> IEquals s t = Inr (lower s = lower t)"
proof -
  have "length s = length t \<Longrightarrow> ascii s \<Longrightarrow> ascii t \<Longrightarrow> IEquals_loop s t = Inr (lower s = lower t)"
    by (induction s t rule: list_induct2) (auto simp: ascii_def ToLower_char_def lower_def)
  moreover have "length s \<noteq> length t \<Longrightarrow> lower s \<noteq> lower t"
    by (metis lower_def length_map)
  ultimately show "ascii s \<Longrightarrow> ascii t \<Longrightarrow> ?thesis" by (auto simp: IEquals_def)
qed

subsection \<open>Searching\<close>

lemma StartsWith_prefix: "StartsWith s p \<longleftrightarrow> prefix p s"
  by (auto simp: StartsWith_def prefix_def) (metis append_take_drop_id)

lemma EndsWith_suffix: "EndsWith s p \<longleftrightarrow> suffix p s"
  by (auto simp: EndsWith_def suffix_def) (metis append_take_drop_id)

lemma find_sub_Some:
  "find_sub pat s = Some i \<Longrightarrow> prefix pat (drop i s) \<and> i + length pat \<le> length s \<and> (\<forall>j<i. \<not> prefix pat (drop j s))"
proof (induction s arbitrary: i)
  case (Cons c s)
  show ?case
  proof (cases "StartsWith (c # s) pat")
    case True
    then show ?thesis using Cons.prems by (auto simp: StartsWith_prefix dest: prefix_length_le)
  next
    case False
    then obtain j where "find_sub pat s = Some j" "i = Suc j" using Cons.prems by auto
    then show ?thesis using Cons.IH [of j] False
      by (auto simp: StartsWith_prefix less_Suc_eq_0_disj)
  qed
qed (auto split: if_splits)

lemma find_sub_None: "find_sub pat s = None \<longleftrightarrow> \<not> sublist pat s"
proof (induction s)
  case (Cons c s)
  then show ?case by (auto simp: StartsWith_prefix sublist_Cons_right)
qed auto

lemma find_sub_char_None: "find_sub [c] s = None \<longleftrightarrow> c \<notin> set s"
  unfolding find_sub_None by (auto simp: sublist_def in_set_conv_decomp)

lemma find_sub_split:
  assumes "find_sub pat s = Some i"
  shows "s = take i s @ pat @ drop (i + length pat) s"
proof -
  obtain r where "drop i s = pat @ r" using find_sub_Some [OF assms] by (auto simp: prefix_def)
  moreover from this have "drop (i + length pat) s = r" by (metis append_eq_conv_conj drop_drop add.commute)
  ultimately show ?thesis by (metis append_take_drop_id)
qed

subsection \<open>Trimming and replacing\<close>

lemma find_first_not_of_takeWhile:
  "find_first_not_of c s = (if \<forall>d\<in>set s. d = c then None else Some (length (takeWhile (\<lambda>d. d = c) s)))"
  by (induction s) auto

lemma Trim_dropWhile: "Trim s = rev (dropWhile (\<lambda>c. c = CHR '' '') (rev (dropWhile (\<lambda>c. c = CHR '' '') s)))"
proof (cases "\<forall>d\<in>set s. d = CHR '' ''")
  case True
  moreover have "hd s = CHR '' ''" if "s \<noteq> []" using that True by (cases s) auto
  ultimately have "Trim s = []" by (simp add: Trim_def find_first_not_of_takeWhile)
  moreover have "dropWhile (\<lambda>c. c = CHR '' '') s = []" using True by (rule dropWhile_eq_Nil_conv [THEN iffD2])
  ultimately show ?thesis by (simp only: rev.simps dropWhile.simps)
next
  case False
  let ?P = "\<lambda>c. c = CHR '' ''"
  let ?n = "length (takeWhile ?P s)" and ?t = "length (takeWhile ?P (rev s))" and ?u = "dropWhile ?P s"
  have s: "s \<noteq> []" using False by (cases s) simp_all
  have first: "(if hd s = CHR '' '' then find_first_not_of (CHR '' '') s else Some 0) = Some ?n"
    using False s by (cases s) (auto simp: find_first_not_of_takeWhile)
  have u: "drop ?n s = ?u" by (simp add: dropWhile_eq_drop)
  have ne: "\<exists>d\<in>set ?u. \<not> ?P d" using False by (induction s) auto
  have "rev s = rev ?u @ rev (takeWhile ?P s)" by (metis rev_append takeWhile_dropWhile_id)
  then have t: "takeWhile ?P (rev s) = takeWhile ?P (rev ?u)"
    using ne takeWhile_append1 [of _ "rev ?u" ?P "rev (takeWhile ?P s)"] by auto
  have len: "length s = ?n + length ?u" by (metis length_append takeWhile_dropWhile_id)
  have "length (takeWhile ?P xs) < length xs" if "\<exists>d\<in>set xs. \<not> ?P d" for xs :: string
    using that by (induction xs) auto
  from this [of "rev ?u"] have "?t < length ?u" using t ne by simp
  then have e: "(if last s = CHR '' '' then (case find_last_not_of (CHR '' '') s of None \<Rightarrow> npos | Some e \<Rightarrow> e)
             else length s) = (if ?t = 0 then length s else length s - 1 - ?t)"
    using False s by (cases s rule: rev_cases) (auto simp: find_last_not_of_def find_first_not_of_takeWhile)
  have "Trim s = take ((if ?t = 0 then length s else length s - 1 - ?t) - ?n + 1) ?u"
    using s first e u by (simp add: Trim_def)
  also have "\<dots> = take (length ?u - ?t) ?u" using len \<open>?t < length ?u\<close> by (auto simp: Suc_diff_Suc)
  also have "\<dots> = rev (drop ?t (rev ?u))" by (simp add: rev_drop)
  also have "\<dots> = rev (dropWhile ?P (rev ?u))" using t by (simp add: dropWhile_eq_drop)
  finally show ?thesis .
qed

text \<open>Replacing from left to right, never looking back at what was put in.\<close>

fun replace_ref :: "string \<Rightarrow> string \<Rightarrow> nat \<Rightarrow> string \<Rightarrow> string" where
  "replace_ref from to 0 s = s"
| "replace_ref from to (Suc n) s =
     (case find_sub from s of
        None \<Rightarrow> s
      | Some i \<Rightarrow> take i s @ to @ replace_ref from to n (drop (i + length from) s))"

lemma find_from_append: "find_from pat (p @ s) (length p) = map_option ((+) (length p)) (find_sub pat s)"
  by (simp add: find_from_def)

lemma Replace_loop_ref:
  "Replace_loop from to (pre @ s) (map_option ((+) (length pre)) (find_sub from s)) n = pre @ replace_ref from to n s"
proof (induction n arbitrary: pre s)
  case 0
  then show ?case by (cases "find_sub from s") simp_all
next
  case (Suc n)
  show ?case
  proof (cases "find_sub from s")
    case (Some i)
    let ?pre' = "pre @ take i s @ to" and ?s' = "drop (i + length from) s"
    have "i \<le> length s" using find_sub_Some [OF Some] by simp
    then have l: "length ?pre' = length pre + i + length to" by simp
    show ?thesis
      using Suc.IH [of ?pre' ?s', unfolded l] find_from_append [of "from" ?pre' ?s', unfolded l] Some
      by (simp add: Let_def)
  qed simp
qed

subsection \<open>Splitting and joining are inverse\<close>

declare Split_loop.simps [simp del]

lemma Split_loop_nonempty [simp]: "delim \<noteq> [] \<Longrightarrow> Split_loop s delim True \<noteq> []"
  by (subst Split_loop.simps) (simp split: option.split)

lemma join_parts_Cons: "ps \<noteq> [] \<Longrightarrow> join_parts (p # ps) delim = p @ delim @ join_parts ps delim"
  by (cases ps) simp_all

lemma join_Split_loop: "delim \<noteq> [] \<Longrightarrow> join_parts (Split_loop s delim True) delim = s"
proof (induction s delim True rule: Split_loop.induct)
  case (1 current delim)
  show ?case
  proof (cases "find_sub delim current")
    case None
    then show ?thesis using 1 by (subst Split_loop.simps) simp
  next
    case (Some pos)
    let ?rest = "drop (pos + length delim) current"
    have c: "current = take pos current @ delim @ ?rest" by (rule find_sub_split [OF Some])
    show ?thesis
    proof (cases "?rest = []")
      case True
      then show ?thesis using 1 Some c by (subst Split_loop.simps) simp
    next
      case False
      then have "join_parts (Split_loop ?rest delim True) delim = ?rest"
        using 1 Some by simp
      then show ?thesis using 1 Some c False by (subst Split_loop.simps) (simp add: join_parts_Cons)
    qed
  qed
qed

lemma find_sub_char:
  "c \<notin> set p \<Longrightarrow> find_sub [c] (p @ c # r) = Some (length p)"
  "c \<notin> set p \<Longrightarrow> find_sub [c] p = None"
  by (induction p) (auto simp: StartsWith_def)

lemma Split_loop_join:
  "parts \<noteq> [] \<Longrightarrow> \<forall>p\<in>set parts. c \<notin> set p \<Longrightarrow> Split_loop (join_parts parts [c]) [c] True = parts"
proof (induction parts "[c]" rule: join_parts.induct)
  case (2 p)
  then show ?case by (subst Split_loop.simps) (simp add: find_sub_char)
next
  case (3 p q ps)
  show ?case
  proof (cases "q = [] \<and> ps = []")
    case True
    then show ?thesis using 3 by (subst Split_loop.simps) (simp add: find_sub_char)
  next
    case False
    then have "join_parts (q # ps) [c] \<noteq> []" by (cases ps) auto
    then show ?thesis using 3 by (subst Split_loop.simps) (simp add: find_sub_char Let_def)
  qed
qed simp

definition join_size :: "string list \<Rightarrow> string \<Rightarrow> nat" where
  "join_size parts delim = (\<Sum>e\<leftarrow>parts. length e + length delim)"

lemma length_join_parts: "parts \<noteq> [] \<Longrightarrow> length (join_parts parts delim) + length delim = join_size parts delim"
  by (induction parts delim rule: join_parts.induct) (simp_all add: join_size_def)

lemma JoinImpl_ok:
  assumes "join_size parts delim < 2 ^ 31"
  shows "JoinImpl parts delim = Inr (join_parts parts delim)"
proof (cases "parts = []")
  case False
  let ?n = "join_size parts delim"
  have "fold (\<lambda>e n. n + word_of_nat (length e + length delim)) parts a = a + (word_of_nat ?n :: 32 word)" for a
    by (induction parts arbitrary: a) (simp_all add: join_size_def add.assoc add.commute add.left_commute)
  then have size: "fold (\<lambda>e n. n + word_of_nat (length e + length delim)) parts 0 = (word_of_nat ?n :: 32 word)"
    by simp
  have d: "length delim \<le> ?n" using length_join_parts [OF False, of delim] by simp
  have "(word_of_nat ?n :: 32 word) - word_of_nat (length delim) = word_of_nat (?n - length delim)"
    using d by (simp add: of_nat_diff)
  moreover have "sint (word_of_nat m :: 32 word) \<ge> 0" if "m < 2 ^ 31" for m
    using that by (simp add: signed_of_nat signed_take_bit_int_eq_self)
  moreover have "(word_of_nat ?n :: 32 word) = 0 \<longleftrightarrow> ?n = 0"
    using assms by (simp add: word_unat_eq_iff unsigned_of_nat take_bit_nat_eq_self)
  moreover have "join_parts parts delim = []" if "?n = 0" using length_join_parts [OF False, of delim] that by auto
  moreover have "?n - length delim < 2 ^ 31" using assms by simp
  ultimately show ?thesis
    unfolding JoinImpl_def size Let_def by (cases "?n = 0") (simp_all add: not_less)
qed (simp add: JoinImpl_def)

subsection \<open>Numbers parse back\<close>

lemma digit_val_dec: "48 \<le> code c \<Longrightarrow> code c \<le> 57 \<Longrightarrow> digit_val c = Some (code c - 48) \<and> is_digit 10 c"
  by (simp add: digit_val_def is_digit_def)

lemma digits_val_snoc: "digits_val b (ds @ [c]) = digits_val b ds * b + the (digit_val c)"
  by (simp add: digits_val_def)

lemma digits_val_show_nat: "digits_val 10 (show_nat n) = n"
proof (induction n rule: show_nat.induct)
  case (1 n)
  show ?case
  proof (cases "n < 10")
    case True
    then show ?thesis by (simp add: show_nat.simps [of n] digits_val_def digit_val_def)
  next
    case False
    have "digit_val (char_of (48 + n mod 10)) = Some (n mod 10)" by (simp add: digit_val_def)
    then show ?thesis using 1 False by (simp add: show_nat.simps [of n] digits_val_snoc)
  qed
qed

lemma show_nat_is_digit: "\<forall>c\<in>set (show_nat n). is_digit 10 c"
  using show_nat_digits digit_val_dec by blast

lemma scan_show_nat:
  "scan_number 10 (show_nat n) = Some (False, n, [])" "scan_number 10 (CHR ''-'' # show_nat n) = Some (True, n, [])"
proof -
  obtain c r where s: "show_nat n = c # r" by (cases "show_nat n") auto
  have c: "48 \<le> code c" "code c \<le> 57" using show_nat_digits [of c n] s by auto
  then have "\<not> is_space c" "c \<noteq> CHR ''-''" "c \<noteq> CHR ''+''" by (auto simp: is_space_def)
  then have "strip_sign (dropWhile is_space (show_nat n)) = (False, show_nat n)" by (simp add: s strip_sign_def)
  moreover have "strip_sign (dropWhile is_space (CHR ''-'' # show_nat n)) = (True, show_nat n)"
    by (simp add: is_space_def strip_sign_def)
  moreover have "strip_0x 10 (show_nat n) = show_nat n" by (simp add: strip_0x_def split: list.split)
  moreover have tw: "takeWhile (is_digit 10) (show_nat n) = show_nat n" "dropWhile (is_digit 10) (show_nat n) = []"
    using show_nat_is_digit [of n] by (auto simp: takeWhile_eq_all_conv dropWhile_eq_Nil_conv)
  ultimately show "scan_number 10 (show_nat n) = Some (False, n, [])"
    "scan_number 10 (CHR ''-'' # show_nat n) = Some (True, n, [])"
    by (simp_all only: scan_number_def Let_def digits_val_show_nat prod.case tw show_nat_nonempty if_False)
qed

lemma c_str_show_int: "c_str (show_int n) = show_int n"
proof -
  have "code c \<noteq> 0" if "c \<in> set (show_int n)" for c
    using that show_nat_digits [of c] by (fastforce simp: show_int_def split: if_splits)
  then show ?thesis by (simp add: c_str_def takeWhile_eq_all_conv)
qed

lemma length_show_int:
  assumes "- (2 ^ 63) \<le> n" and "n < 2 ^ 63"
  shows "length (show_int n) \<le> 128"
proof -
  have "nat \<bar>n\<bar> < 10 ^ 19" using assms by simp
  from length_show_nat [OF this] show ?thesis by (auto simp: show_int_def split: if_splits)
qed

lemma strtoll_show_int:
  assumes "- (2 ^ 63) \<le> n" and "n < 2 ^ 63"
  shows "strtoll erange 10 (show_int n) = (n, [], erange)"
  using assms by (auto simp: strtoll_def show_int_def scan_show_nat)

subsection \<open>Properties\<close>

text \<open>Claim C35. Splitting with \<open>keep_empty\<close> and joining are inverse both ways: joining what \<open>Split\<close> returned with
  the same delimiter gives a string that is not empty back, and splitting at a character what \<open>Join\<close> put together gives the
  parts back when none of them contains that character and they are not just one empty part; all sizes below 2^31.\<close>

theorem Split_Join_roundtrip:
  assumes "s \<noteq> []" and "delim \<noteq> []" and "length s + length delim < 2 ^ 31"
    and "parts \<noteq> []" and "parts \<noteq> [[]]" and "\<forall>p\<in>set parts. c \<notin> set p" and "join_size parts [c] < 2 ^ 31"
  shows "sthen (Split s delim True) (\<lambda>ps. Join ps delim) = Inr s
         \<and> sthen (Join parts [c]) (\<lambda>t. Split_char t c True) = Inr parts"
proof -
  have "join_size (Split_loop s delim True) delim = length s + length delim"
    using length_join_parts [of "Split_loop s delim True" delim] assms(2) by (simp add: join_Split_loop)
  then have "Join (Split_loop s delim True) delim = Inr s"
    using JoinImpl_ok [of "Split_loop s delim True" delim] assms by (simp add: Join_def join_Split_loop)
  moreover have "join_parts parts [c] \<noteq> []"
    using assms(4,5) by (cases parts; cases "tl parts") auto
  ultimately show ?thesis
    using assms JoinImpl_ok [of parts "[c]"] Split_loop_join [of parts c]
    by (simp add: Split_def Split_char_def Join_def)
qed

theorem Split_Join_roundtrip_witness:
  "sthen (Split ''a--b-'' ''-'' True) (\<lambda>ps. Join ps ''-'') = Inr ''a--b-''
   \<and> sthen (Join [''k'', '''', ''v''] [CHR ''/'']) (\<lambda>t. Split_char t (CHR ''/'') True) = Inr [''k'', '''', ''v'']"
  by (rule Split_Join_roundtrip) (simp_all add: join_size_def)

text \<open>Claim C37. \<open>Replace\<close>, which searches and edits one string in place, computes the left-to-right replacement
  of the first \<open>count\<close> occurrences that never looks at what it has put in; it refuses an empty pattern.\<close>

theorem Replace_correct:
  "Replace from to str count = (if from = [] then Inl Assertion else Inr (replace_ref from to count str))"
proof -
  have "map_option ((+) 0) x = x" for x :: "nat option" by (cases x) simp_all
  then show ?thesis using Replace_loop_ref [of "from" to "[]" str count] by (simp add: Replace_def)
qed

text \<open>\<open>Trim\<close> removes the spaces at both ends and nothing else.\<close>

lemma Trim_correct:
  "\<exists>l r. s = l @ Trim s @ r \<and> set (l @ r) \<subseteq> {CHR '' ''} \<and>
         (Trim s \<noteq> [] \<longrightarrow> hd (Trim s) \<noteq> CHR '' '' \<and> last (Trim s) \<noteq> CHR '' '')"
proof -
  let ?P = "\<lambda>c. c = CHR '' ''"
  let ?u = "dropWhile ?P s"
  have "s = takeWhile ?P s @ ?u" by simp
  moreover have "?u = Trim s @ rev (takeWhile ?P (rev ?u))"
    unfolding Trim_dropWhile by (metis rev_append rev_rev_ident takeWhile_dropWhile_id)
  ultimately have "s = takeWhile ?P s @ Trim s @ rev (takeWhile ?P (rev ?u))" by metis
  moreover have "set (takeWhile ?P s @ rev (takeWhile ?P (rev ?u))) \<subseteq> {CHR '' ''}"
    by (auto dest: set_takeWhileD)
  moreover have "hd (Trim s) \<noteq> CHR '' '' \<and> last (Trim s) \<noteq> CHR '' ''" if "Trim s \<noteq> []"
  proof -
    have "last (Trim s) \<noteq> CHR '' ''"
      using that hd_dropWhile [of ?P "rev ?u"] unfolding Trim_dropWhile
      by (metis last_rev rev_is_Nil_conv)
    moreover have "hd (Trim s) = hd ?u" "?u \<noteq> []"
      using \<open>?u = Trim s @ _\<close> that by (metis hd_append2, metis append_is_Nil_conv)
    ultimately show ?thesis using hd_dropWhile [of ?P s] by simp
  qed
  ultimately show ?thesis by blast
qed

text \<open>Claim C38. Every value of a signed integer type parses back from its decimal notation, whatever \<open>errno\<close> was,
  with one exception: the two extreme 64-bit values are rejected when \<open>errno\<close> still holds \<open>ERANGE\<close> from an
  earlier call.\<close>

theorem TryParse_signed_roundtrip:
  assumes "0 < bits" and "bits \<le> 64" and "- (2 ^ (bits - 1)) \<le> n" and "n < 2 ^ (bits - 1)"
  shows "TryParse_signed bits erange 10 (show_int n)
           = ((if erange \<and> (n = - (2 ^ 63) \<or> n = 2 ^ 63 - 1) then None else Some n), erange)"
proof -
  have "(2 :: int) ^ (bits - 1) \<le> 2 ^ 63" using assms(2) by (intro power_increasing) auto
  then have r: "- (2 ^ 63) \<le> n" "n < 2 ^ 63" using assms(3,4) by linarith+
  have "show_int n \<noteq> []" by (simp add: show_int_def)
  then show ?thesis
    using assms strtoll_show_int [OF r] length_show_int [OF r]
    by (auto simp: TryParse_signed_def c_str_show_int TryParseImpl_def TryNarrowCast_def)
qed

theorem TryParse_signed_roundtrip_witness:
  "TryParse_signed 64 True 10 (show_int (2 ^ 63 - 1)) = (None, True)
   \<and> TryParse_signed 32 False 10 (show_int (- 42)) = (Some (- 42), False)"
  using TryParse_signed_roundtrip [of 64 "2 ^ 63 - 1" True] TryParse_signed_roundtrip [of 32 "- 42" False]
  by simp

text \<open>The parser of unsigned types accepts a minus sign: it returns the two's complement of the number
  whenever that fits, so a 32-bit parse of \<open>-18446744073709551615\<close> is 1 rather than an error.\<close>

lemma TryParse_unsigned_accepts_minus:
  assumes "0 < n" and "n < 2 ^ 64" and "2 ^ 64 - n < 2 ^ bits" and "\<not> erange"
  shows "TryParse_unsigned bits erange 10 (show_int (- n)) = (Some (2 ^ 64 - n), False)"
proof -
  have "nat n < 10 ^ 20" using assms(2) by simp
  from length_show_nat [OF this] have len: "length (show_int (- n)) \<le> 128"
    using assms(1) by (simp add: show_int_def)
  have "(- n) mod 2 ^ 64 = 2 ^ 64 - n"
    using assms(1,2) by (simp add: zmod_zminus1_eq_if)
  moreover have "\<not> 18446744073709551615 < nat n" using assms(2) by (simp add: not_less nat_le_iff)
  ultimately have "strtoull erange 10 (show_int (- n)) = (2 ^ 64 - n, [], erange)"
    using assms(1) by (simp add: strtoull_def show_int_def scan_show_nat)
  moreover have "show_int (- n) \<noteq> []" by (simp add: show_int_def)
  ultimately show ?thesis
    using assms len by (simp add: TryParse_unsigned_def c_str_show_int TryParseImpl_def TryNarrowCast_def)
qed

end
