(* ===== verification/Hash_Map.thy ===== *)
theory Hash_Map
  imports Prelude
begin

unbundle bit_operations_syntax

section \<open>The chained hash map (flare/base/internal/hash_map.h)\<close>

text \<open>
  \<open>HashMap\<close> keeps a power-of-two array of buckets. A bucket is an inline node and, on
  collision, a chain of further nodes; the chains are private to the map, so a bucket is the
  list of its nodes' key-value pairs, empty when the inline node is. The hash function and the equality are
  arguments that may themselves fail, because the ones used for HTTP headers do. Capacity,
  mask, threshold and size are 64-bit; memory is taken to suffice for the arrays. A cursor is a bucket and
  a position in it, or \<open>None\<close> for the sentinel.

  An insertion may rehash, and rehashing inserts into a map of twice the capacity. The
  recursion depth is an argument, and running out of it is divergence; one level below the first (\<open>insert_depth\<close>)
  is always enough, since the doubled map never rehashes in turn (\<open>insert_all_ok\<close>).

  The locale \<open>hash_key\<close> is what hash and equality must promise: both respect a normal form
  of the keys. Its lemmas show that every operation implements a finite map from normal forms.
\<close>

type_synonym 'k hash_fn = "'k \<Rightarrow> fault + u64"
type_synonym 'k eq_fn = "'k \<Rightarrow> 'k \<Rightarrow> fault + bool"
type_synonym cursor = "(nat \<times> nat) option"

record ('k, 'v) hash_map =
  hm_nodes :: "('k \<times> 'v) list list"
  hm_capacity :: u64
  hm_mask :: u64
  hm_rehash_threshold :: u64
  hm_size :: u64

subsection \<open>Hash values\<close>

definition HashCombine :: "u64 \<Rightarrow> u64 \<Rightarrow> u64" where
  "HashCombine seed v = seed XOR (v + 0x9e3779b9 + push_bit 6 seed + drop_bit 2 seed)"

definition HashRange :: "('a \<Rightarrow> u64) \<Rightarrow> 'a list \<Rightarrow> u64" where
  "HashRange hasher xs = fold (\<lambda>x seed. HashCombine seed (hasher x)) xs 0"

definition Hash_pointer :: "u64 \<Rightarrow> u64 \<Rightarrow> u64" where
  "Hash_pointer align ptr = ptr div align"

definition Hash_pair :: "('a \<Rightarrow> u64) \<Rightarrow> ('b \<Rightarrow> u64) \<Rightarrow> 'a \<times> 'b \<Rightarrow> u64" where
  "Hash_pair ht hu p = HashCombine (HashCombine 0 (ht (fst p))) (hu (snd p))"

subsection \<open>Construction\<close>

definition NextPowerOfTwo :: "u64 \<Rightarrow> u64" where
  "NextPowerOfTwo v0 =
     (let v = v0 - 1;
          v = v OR drop_bit 1 v;
          v = v OR drop_bit 2 v;
          v = v OR drop_bit 4 v;
          v = v OR drop_bit 8 v;
          v = v OR drop_bit 16 v;
          v = v OR drop_bit 32 v
      in v + 1)"

definition InitializeFor :: "u64 \<Rightarrow> fault + ('k, 'v) hash_map" where
  "InitializeFor capacity =
     (if \<not> capacity \<ge> 4 then Inl Assertion
      else if capacity AND (capacity - 1) \<noteq> 0 then Inl Assertion
      else Inr \<lparr>hm_nodes = replicate (unat capacity) [], hm_capacity = capacity, hm_mask = capacity - 1,
                hm_rehash_threshold = capacity * 3 div 4, hm_size = 0\<rparr>)"

definition HashMap_ctor :: "u64 \<Rightarrow> fault + ('k, 'v) hash_map" where
  "HashMap_ctor initial_capacity = InitializeFor (NextPowerOfTwo initial_capacity)"

definition HashMap_default :: "fault + ('k, 'v) hash_map" where
  "HashMap_default = HashMap_ctor 16"

subsection \<open>Cursors\<close>

definition hm_empty :: "('k, 'v) hash_map \<Rightarrow> bool" where
  "hm_empty m \<longleftrightarrow> hm_size m = 0"

definition SentinelCursor :: cursor where
  "SentinelCursor = None"

text \<open>The scan for the next bucket that is not empty.\<close>

fun next_bucket :: "('k \<times> 'v) list list \<Rightarrow> nat \<Rightarrow> cursor" where
  "next_bucket [] i = SentinelCursor"
| "next_bucket (b # bs) i = (if b \<noteq> [] then Some (i, 0) else next_bucket bs (Suc i))"

definition NextCursor :: "('k, 'v) hash_map \<Rightarrow> nat \<times> nat \<Rightarrow> bool \<Rightarrow> cursor" where
  "NextCursor m c initialized =
     (let (bucket_id, pos) = c
      in if initialized \<and> Suc pos < length (hm_nodes m ! bucket_id) then Some (bucket_id, Suc pos)
         else next_bucket (drop (Suc bucket_id) (hm_nodes m)) (Suc bucket_id))"

definition FirstNonEmptyCursor :: "('k, 'v) hash_map \<Rightarrow> cursor" where
  "FirstNonEmptyCursor m =
     (if hm_empty m then SentinelCursor
      else if hm_nodes m ! 0 = [] then NextCursor m (0, 0) False
      else Some (0, 0))"

text \<open>What a range-based \<open>for\<close> over the map visits: from \<open>begin\<close>, advancing until the sentinel.\<close>

lemma next_bucket_ge: "next_bucket bs i = Some (j, p) \<Longrightarrow> i \<le> j \<and> j < i + length bs \<and> bs ! (j - i) \<noteq> [] \<and> p = 0"
proof (induction bs i rule: next_bucket.induct)
  case (2 b bs i)
  then show ?case
    by (cases "b = []") (fastforce simp: Suc_diff_le nth_Cons' SentinelCursor_def Suc_le_eq)+
qed (simp add: SentinelCursor_def)

function entries_from :: "('k, 'v) hash_map \<Rightarrow> cursor \<Rightarrow> ('k \<times> 'v) list" where
  "entries_from m None = []"
| "entries_from m (Some (b, p)) =
     (if b < length (hm_nodes m) \<and> p < length (hm_nodes m ! b) then
        hm_nodes m ! b ! p # entries_from m (NextCursor m (b, p) True)
      else [])"
  by pat_completeness auto
termination
proof (relation "measures [\<lambda>(m, c). case c of None \<Rightarrow> 0 | Some (b, p) \<Rightarrow> Suc (length (hm_nodes m)) - b,
    \<lambda>(m, c). case c of None \<Rightarrow> 0 | Some (b, p) \<Rightarrow> length (hm_nodes m ! b) - p]", goal_cases)
  case (2 m b p)
  then show ?case
    by (auto simp: NextCursor_def split: option.split dest!: next_bucket_ge)
qed simp

definition HashMap_entries :: "('k, 'v) hash_map \<Rightarrow> ('k \<times> 'v) list" where
  "HashMap_entries m = entries_from m (FirstNonEmptyCursor m)"

subsection \<open>Looking up\<close>

definition GetBucket :: "'k hash_fn \<Rightarrow> ('k, 'v) hash_map \<Rightarrow> 'k \<Rightarrow> fault + nat" where
  "GetBucket h m key = sthen (h key) (\<lambda>hash. Inr (unat (hash AND hm_mask m)))"

fun LocateKeySlow :: "'k eq_fn \<Rightarrow> 'k \<Rightarrow> nat \<Rightarrow> ('k \<times> 'v) list \<Rightarrow> nat \<Rightarrow> fault + cursor" where
  "LocateKeySlow e key idx [] pos = Inr None"
| "LocateKeySlow e key idx ((k, v) # nodes) pos =
     sthen (e k key) (\<lambda>eq. if eq then Inr (Some (idx, pos)) else LocateKeySlow e key idx nodes (Suc pos))"

definition LocateKey :: "'k hash_fn \<Rightarrow> 'k eq_fn \<Rightarrow> ('k, 'v) hash_map \<Rightarrow> 'k \<Rightarrow> fault + cursor" where
  "LocateKey h e m key =
     sthen (GetBucket h m key) (\<lambda>idx.
       case hm_nodes m ! idx of
         [] \<Rightarrow> Inr None
       | (k, v) # nodes \<Rightarrow>
           sthen (e k key) (\<lambda>eq.
             if eq then Inr (Some (idx, 0))
             else if nodes = [] then Inr None
             else LocateKeySlow e key idx nodes 1))"

definition HashMap_find :: "'k hash_fn \<Rightarrow> 'k eq_fn \<Rightarrow> ('k, 'v) hash_map \<Rightarrow> 'k \<Rightarrow> fault + cursor" where
  "HashMap_find h e m key = LocateKey h e m key"

definition HashMap_contains :: "'k hash_fn \<Rightarrow> 'k eq_fn \<Rightarrow> ('k, 'v) hash_map \<Rightarrow> 'k \<Rightarrow> fault + bool" where
  "HashMap_contains h e m key = sthen (HashMap_find h e m key) (\<lambda>c. Inr (c \<noteq> SentinelCursor))"

fun TryGetSlow :: "'k eq_fn \<Rightarrow> ('k \<times> 'v) list \<Rightarrow> 'k \<Rightarrow> fault + 'v option" where
  "TryGetSlow e [] key = Inr None"
| "TryGetSlow e ((k, v) # bucket) key =
     sthen (e k key) (\<lambda>eq. if eq then Inr (Some v) else TryGetSlow e bucket key)"

definition HashMap_TryGet :: "'k hash_fn \<Rightarrow> 'k eq_fn \<Rightarrow> ('k, 'v) hash_map \<Rightarrow> 'k \<Rightarrow> fault + 'v option" where
  "HashMap_TryGet h e m key =
     sthen (GetBucket h m key) (\<lambda>idx.
       case hm_nodes m ! idx of
         [] \<Rightarrow> Inr None
       | (k, v) # bucket \<Rightarrow>
           sthen (e k key) (\<lambda>eq. if eq then Inr (Some v) else TryGetSlow e bucket key))"

definition HashMap_at :: "'k hash_fn \<Rightarrow> 'k eq_fn \<Rightarrow> ('k, 'v) hash_map \<Rightarrow> 'k \<Rightarrow> fault + 'v" where
  "HashMap_at h e m key =
     sthen (HashMap_TryGet h e m key) (\<lambda>p. case p of None \<Rightarrow> Inl Assertion | Some v \<Rightarrow> Inr v)"

subsection \<open>Inserting\<close>

type_synonym ('k, 'v) inserter = "('k, 'v) hash_map \<Rightarrow> 'k \<Rightarrow> 'v \<Rightarrow> ((nat \<times> nat) \<times> ('k, 'v) hash_map) run"

fun insert_all :: "('k, 'v) inserter \<Rightarrow> ('k, 'v) hash_map \<Rightarrow> ('k \<times> 'v) list \<Rightarrow> ('k, 'v) hash_map run" where
  "insert_all ins m [] = returns m"
| "insert_all ins m ((k, v) # kvs) = andthen (ins m k v) (\<lambda>(_, m'). insert_all ins m' kvs)"

definition Rehash :: "('k, 'v) inserter \<Rightarrow> ('k, 'v) hash_map \<Rightarrow> ('k, 'v) hash_map run" where
  "Rehash ins m =
     andthen (run_sum (HashMap_ctor (hm_capacity m * 2))) (\<lambda>doubled.
     andthen (insert_all ins doubled (HashMap_entries m)) (\<lambda>doubled'.
       if hm_size doubled' \<noteq> hm_size m then fails Assertion else returns doubled'))"

definition RehashIfNecessary :: "('k, 'v) inserter \<Rightarrow> ('k, 'v) hash_map \<Rightarrow> ('k, 'v) hash_map run" where
  "RehashIfNecessary ins m = (if hm_size m \<ge> hm_rehash_threshold m then Rehash ins m else returns m)"

text \<open>The result of locating or creating: the place, whether its node is still empty, and the map with the size updated.\<close>

fun CreateOrLocateKeySlow :: "'k eq_fn \<Rightarrow> 'k \<Rightarrow> ('k \<times> 'v) list \<Rightarrow> nat \<Rightarrow> fault + (nat \<times> bool)" where
  "CreateOrLocateKeySlow e key [] pos = Inr (pos, True)"
| "CreateOrLocateKeySlow e key ((k, v) # nodes) pos =
     sthen (e k key) (\<lambda>eq. if eq then Inr (pos, False) else CreateOrLocateKeySlow e key nodes (Suc pos))"

definition grow :: "('k, 'v) hash_map \<Rightarrow> ('k, 'v) hash_map" where
  "grow m = m\<lparr>hm_size := hm_size m + 1\<rparr>"

definition CreateOrLocateKey ::
  "('k, 'v) inserter \<Rightarrow> 'k hash_fn \<Rightarrow> 'k eq_fn \<Rightarrow> ('k, 'v) hash_map \<Rightarrow> 'k \<Rightarrow> (nat \<times> nat \<times> bool \<times> ('k, 'v) hash_map) run" where
  "CreateOrLocateKey ins h e m0 key =
     andthen (RehashIfNecessary ins m0) (\<lambda>m.
     andthen (run_sum (GetBucket h m key)) (\<lambda>idx.
       case hm_nodes m ! idx of
         [] \<Rightarrow> returns (idx, 0, True, grow m)
       | (k, v) # nodes \<Rightarrow>
           andthen (run_sum (e k key)) (\<lambda>eq.
             if eq then returns (idx, 0, False, m)
             else if nodes = [] then returns (idx, 1, True, grow m)
             else
               andthen (run_sum (CreateOrLocateKeySlow e key (hm_nodes m ! idx) 0)) (\<lambda>(pos, fresh).
                 returns (idx, pos, fresh, if fresh then grow m else m)))))"

text \<open>\<open>Accept\<close> fills the new node at the end of its chain; otherwise the value is assigned in place.\<close>

definition put_node :: "('k, 'v) hash_map \<Rightarrow> nat \<Rightarrow> ('k \<times> 'v) list \<Rightarrow> ('k, 'v) hash_map" where
  "put_node m idx b = m\<lparr>hm_nodes := (hm_nodes m)[idx := b]\<rparr>"

definition Accept :: "('k, 'v) hash_map \<Rightarrow> nat \<Rightarrow> 'k \<Rightarrow> 'v \<Rightarrow> ('k, 'v) hash_map" where
  "Accept m idx key v = put_node m idx (hm_nodes m ! idx @ [(key, v)])"

definition assign_at :: "('k, 'v) hash_map \<Rightarrow> nat \<Rightarrow> nat \<Rightarrow> 'v \<Rightarrow> ('k, 'v) hash_map" where
  "assign_at m idx pos v =
     put_node m idx ((hm_nodes m ! idx)[pos := (fst (hm_nodes m ! idx ! pos), v)])"

definition insert_with ::
  "('k, 'v) inserter \<Rightarrow> 'k hash_fn \<Rightarrow> 'k eq_fn \<Rightarrow> ('k, 'v) inserter" where
  "insert_with ins h e m key v =
     andthen (CreateOrLocateKey ins h e m key) (\<lambda>(idx, pos, fresh, m').
       returns ((idx, pos), if fresh then Accept m' idx key v else assign_at m' idx pos v))"

primrec insert_n :: "nat \<Rightarrow> 'k hash_fn \<Rightarrow> 'k eq_fn \<Rightarrow> ('k, 'v) inserter" where
  "insert_n 0 h e = (\<lambda>_ _ _. None)"
| "insert_n (Suc n) h e = insert_with (insert_n n h e) h e"

definition insert_depth :: nat where
  "insert_depth = 1"

definition HashMap_insert_or_assign :: "'k hash_fn \<Rightarrow> 'k eq_fn \<Rightarrow> ('k, 'v) inserter" where
  "HashMap_insert_or_assign h e = insert_with (insert_n insert_depth h e) h e"

text \<open>\<open>operator[]\<close>: a new key gets the default value; the result is where the value lives.\<close>

definition HashMap_index ::
  "'k hash_fn \<Rightarrow> 'k eq_fn \<Rightarrow> 'v \<Rightarrow> ('k, 'v) hash_map \<Rightarrow> 'k \<Rightarrow> ((nat \<times> nat) \<times> ('k, 'v) hash_map) run" where
  "HashMap_index h e dflt m key =
     andthen (CreateOrLocateKey (insert_n insert_depth h e) h e m key) (\<lambda>(idx, pos, fresh, m').
       returns ((idx, pos), if fresh then Accept m' idx key dflt else m'))"

definition MergeFrom :: "'k hash_fn \<Rightarrow> 'k eq_fn \<Rightarrow> ('k, 'v) hash_map \<Rightarrow> ('k, 'v) hash_map \<Rightarrow> ('k, 'v) hash_map run" where
  "MergeFrom h e m other = insert_all (HashMap_insert_or_assign h e) m (HashMap_entries other)"

definition HashMap_copy :: "'k hash_fn \<Rightarrow> 'k eq_fn \<Rightarrow> ('k, 'v) hash_map \<Rightarrow> ('k, 'v) hash_map run" where
  "HashMap_copy h e other = andthen (run_sum HashMap_default) (\<lambda>m. MergeFrom h e m other)"

definition HashMap_init_list :: "'k hash_fn \<Rightarrow> 'k eq_fn \<Rightarrow> ('k \<times> 'v) list \<Rightarrow> ('k, 'v) hash_map run" where
  "HashMap_init_list h e init =
     andthen (run_sum HashMap_default) (\<lambda>m. insert_all (HashMap_insert_or_assign h e) m init)"

subsection \<open>Removing\<close>

definition HashMap_clear :: "('k, 'v) hash_map \<Rightarrow> ('k, 'v) hash_map" where
  "HashMap_clear m =
     (if hm_size m = 0 then m else m\<lparr>hm_nodes := map (\<lambda>_. []) (hm_nodes m), hm_size := 0\<rparr>)"

definition HashMap_swap :: "('k, 'v) hash_map \<Rightarrow> ('k, 'v) hash_map \<Rightarrow> ('k, 'v) hash_map \<times> ('k, 'v) hash_map" where
  "HashMap_swap m other = (other, m)"

definition HashMap_move :: "('k, 'v) hash_map \<Rightarrow> fault + (('k, 'v) hash_map \<times> ('k, 'v) hash_map)" where
  "HashMap_move other = sthen HashMap_default (\<lambda>m. Inr (HashMap_swap m other))"

text \<open>The assignments; \<open>same\<close> says that source and target are one object.\<close>

definition HashMap_move_assign ::
  "bool \<Rightarrow> ('k, 'v) hash_map \<Rightarrow> ('k, 'v) hash_map \<Rightarrow> ('k, 'v) hash_map \<times> ('k, 'v) hash_map" where
  "HashMap_move_assign same m other = (if same then (m, other) else HashMap_swap (HashMap_clear m) other)"

definition HashMap_copy_assign ::
  "'k hash_fn \<Rightarrow> 'k eq_fn \<Rightarrow> bool \<Rightarrow> ('k, 'v) hash_map \<Rightarrow> ('k, 'v) hash_map \<Rightarrow> ('k, 'v) hash_map run" where
  "HashMap_copy_assign h e same m other =
     (if same then returns m else MergeFrom h e (HashMap_clear m) other)"

text \<open>Erasing the inline node lifts its successor up; the iterator returned is the next element. When the
  erased node had a successor in its chain that element is now at the erased position.\<close>

definition HashMap_erase_at :: "('k, 'v) hash_map \<Rightarrow> nat \<times> nat \<Rightarrow> cursor \<times> ('k, 'v) hash_map" where
  "HashMap_erase_at m c =
     (let (idx, pos) = c;
          b = hm_nodes m ! idx;
          nxt = (if Suc pos < length b then Some (idx, pos) else NextCursor m c True)
      in (nxt, (put_node m idx (take pos b @ drop (Suc pos) b))\<lparr>hm_size := hm_size m - 1\<rparr>))"

definition HashMap_erase :: "'k hash_fn \<Rightarrow> 'k eq_fn \<Rightarrow> ('k, 'v) hash_map \<Rightarrow> 'k \<Rightarrow> fault + (nat \<times> ('k, 'v) hash_map)" where
  "HashMap_erase h e m key =
     sthen (HashMap_find h e m key) (\<lambda>c.
       case c of None \<Rightarrow> Inr (0, m) | Some p \<Rightarrow> Inr (1, snd (HashMap_erase_at m p)))"


section \<open>Correctness\<close>

subsection \<open>Rounding up to a power of two\<close>

text \<open>Or-ing a word with itself shifted right by \<open>k\<close> spreads every bit over the \<open>k\<close> positions below
  the stretch it already covers.\<close>

lemma smear_step:
  fixes v w :: u64
  assumes "\<And>i. bit w i \<longleftrightarrow> (\<exists>j. i \<le> j \<and> j < i + k \<and> bit v j)" and l: "l = 2 * k"
  shows "bit (w OR drop_bit k w) i \<longleftrightarrow> (\<exists>j. i \<le> j \<and> j < i + l \<and> bit v j)"
proof -
  have "bit (w OR drop_bit k w) i \<longleftrightarrow>
      (\<exists>j. i \<le> j \<and> j < i + k \<and> bit v j) \<or> (\<exists>j. i + k \<le> j \<and> j < i + k + k \<and> bit v j)"
    by (simp only: bit_or_iff bit_drop_bit_eq comp_apply assms(1) add.commute [of k])
  also have "\<dots> \<longleftrightarrow> (\<exists>j. i \<le> j \<and> j < i + l \<and> bit v j)"
  proof -
    have "i \<le> j \<and> j < i + l \<longleftrightarrow> i \<le> j \<and> j < i + k \<or> i + k \<le> j \<and> j < i + k + k" for j
      unfolding l by linarith
    then show ?thesis
      by blast
  qed
  finally show ?thesis .
qed

lemma smear_word:
  fixes v :: u64
  defines "a \<equiv> v OR drop_bit 1 v"
  defines "b \<equiv> a OR drop_bit 2 a"
  defines "c \<equiv> b OR drop_bit 4 b"
  defines "d \<equiv> c OR drop_bit 8 c"
  defines "f \<equiv> d OR drop_bit 16 d"
  shows "bit (f OR drop_bit 32 f) i \<longleftrightarrow> (\<exists>j. i \<le> j \<and> j < i + 64 \<and> bit v j)"
proof -
  let ?near = "\<lambda>k i. \<exists>j. i \<le> j \<and> j < i + k \<and> bit v j"
  have 0: "bit v i \<longleftrightarrow> ?near 1 i" for i
    by (metis le_refl less_add_one less_add_one le_less_Suc_eq Suc_eq_plus1)
  have 1: "bit a i \<longleftrightarrow> ?near 2 i" for i
    unfolding a_def by (rule smear_step [OF 0]) simp
  have 2: "bit b i \<longleftrightarrow> ?near 4 i" for i
    unfolding b_def by (rule smear_step [OF 1]) simp
  have 3: "bit c i \<longleftrightarrow> ?near 8 i" for i
    unfolding c_def by (rule smear_step [OF 2]) simp
  have 4: "bit d i \<longleftrightarrow> ?near 16 i" for i
    unfolding d_def by (rule smear_step [OF 3]) simp
  have 5: "bit f i \<longleftrightarrow> ?near 32 i" for i
    unfolding f_def by (rule smear_step [OF 4]) simp
  show ?thesis
    by (rule smear_step [OF 5]) simp
qed

lemma top_bit:
  fixes w :: u64
  assumes "2 ^ n \<le> unat w" "unat w < 2 ^ Suc n"
  shows "bit w n" "n < i \<Longrightarrow> \<not> bit w i"
proof -
  have bit: "bit w i \<longleftrightarrow> odd (unat w div 2 ^ i)" for i
    using bit_unsigned_iff [where ?'a = nat, of w i] by (simp add: bit_iff_odd [of "unat w"])
  show "bit w n"
    using assms div_nat_eqI [of "2 ^ n" 1 "unat w"] unfolding bit by simp
  assume "n < i"
  then have "(2::nat) ^ Suc n \<le> 2 ^ i"
    by (intro power_increasing) simp_all
  then show "\<not> bit w i"
    using assms unfolding bit by simp
qed

lemma NextPowerOfTwo_eq:
  assumes "2 ^ n < unat v" "unat v \<le> 2 ^ Suc n"
  shows "NextPowerOfTwo v = 2 ^ Suc n"
proof -
  let ?w = "v - 1"
  have pos: "v \<noteq> 0"
    using assms(1) by auto
  then have w: "unat ?w = unat v - 1"
    by (simp add: unat_minus_one)
  have "(2::nat) ^ n < 2 ^ 64"
    using assms(1) unsigned_less [of v, where ?'a = nat] by simp
  then have n: "n < 64"
    using power_less_imp_less_exp [of "2::nat" n 64] by simp
  have "2 ^ n \<le> unat ?w" "unat ?w < 2 ^ Suc n"
    using assms w by linarith+
  note top = top_bit [OF this]
  have "NextPowerOfTwo v = mask (Suc n) + 1"
    unfolding NextPowerOfTwo_def Let_def
  proof (rule arg_cong [where f = "\<lambda>x. x + 1"], rule bit_eqI, unfold smear_word)
    fix i assume i: "possible_bit TYPE(64 word) i"
    have bits: "j \<le> n" if "bit ?w j" for j
      using top(2) [of j] that by (rule_tac leI) blast
    have "(\<exists>j. i \<le> j \<and> j < i + 64 \<and> bit ?w j) \<longleftrightarrow> i \<le> n"
    proof
      assume "i \<le> n"
      then show "\<exists>j. i \<le> j \<and> j < i + 64 \<and> bit ?w j"
        using top(1) n by (intro exI [of _ n]) simp
    qed (use bits order_trans in blast)
    then show "(\<exists>j. i \<le> j \<and> j < i + 64 \<and> bit ?w j) \<longleftrightarrow> bit (mask (Suc n) :: u64) i"
      using i by (simp add: bit_mask_iff less_Suc_eq_le)
  qed
  then show ?thesis
    by (simp add: mask_eq_exp_minus_1)
qed

lemma unat_word_of_small: "n < 2 ^ 64 \<Longrightarrow> unat (word_of_nat n :: u64) = n"
  by (simp add: unsigned_of_nat take_bit_nat_eq_self)

lemma unat_two_power: "c < 64 \<Longrightarrow> unat (2 ^ c :: u64) = 2 ^ c"
  using unat_word_of_small [of "2 ^ c"] power_strict_increasing [of c 64 "2::nat"] by simp

text \<open>For every size between 2 and 2^63, rounding up gives a power of two that is at least the size and less than
  twice it.\<close>

lemma NextPowerOfTwo_correct:
  assumes "1 < unat v" "unat v \<le> 2 ^ 63"
  shows "\<exists>n. NextPowerOfTwo v = 2 ^ n \<and> unat v \<le> unat (NextPowerOfTwo v) \<and> unat (NextPowerOfTwo v) < 2 * unat v"
proof -
  define n where "n = (LEAST n. unat v \<le> 2 ^ Suc n)"
  have up: "unat v \<le> 2 ^ Suc n"
    unfolding n_def by (rule LeastI [of _ 62]) (use assms in simp)
  have low: "2 ^ n < unat v"
  proof (cases n)
    case (Suc m)
    then show ?thesis
      using not_less_Least [of m "\<lambda>n. unat v \<le> 2 ^ Suc n"] by (simp add: n_def)
  qed (use assms in simp)
  have "n < 63"
    using low assms(2) power_less_imp_less_exp [of "2::nat" n 63] by simp
  then have "unat (2 ^ Suc n :: u64) = 2 ^ Suc n"
    by (intro unat_two_power) simp
  then show ?thesis
    using NextPowerOfTwo_eq [OF low up] low up by (intro exI [of _ "Suc n"]) simp
qed

subsection \<open>Buckets as association lists\<close>

text \<open>A bucket read modulo the keys' normal form, and the first place of a normal form in it.\<close>

definition normed :: "('k \<Rightarrow> 'n) \<Rightarrow> ('k \<times> 'v) list \<Rightarrow> ('n \<times> 'v) list" where
  "normed norm b = map (\<lambda>(k, v). (norm k, v)) b"

definition norms :: "('k \<Rightarrow> 'n) \<Rightarrow> ('k \<times> 'v) list \<Rightarrow> 'n list" where
  "norms norm b = map (norm \<circ> fst) b"

definition place :: "('k \<Rightarrow> 'n) \<Rightarrow> 'n \<Rightarrow> ('k \<times> 'v) list \<Rightarrow> nat" where
  "place norm n b = length (takeWhile (\<lambda>x. x \<noteq> n) (norms norm b))"

lemma normed_simps [simp]:
  "normed norm [] = []"
  "normed norm ((k, v) # b) = (norm k, v) # normed norm b"
  "normed norm (a @ b) = normed norm a @ normed norm b"
  by (simp_all add: normed_def)

lemma norms_simps [simp]:
  "norms norm [] = []"
  "norms norm ((k, v) # b) = norm k # norms norm b"
  "norms norm (a @ b) = norms norm a @ norms norm b"
  "length (norms norm b) = length b"
  by (simp_all add: norms_def)

lemma place_simps [simp]:
  "place norm n [] = 0"
  "place norm n ((k, v) # b) = (if norm k = n then 0 else Suc (place norm n b))"
  by (simp_all add: place_def)

lemma fst_normed: "map fst (normed norm b) = norms norm b"
  by (induction b) auto

lemma map_of_normed_None: "map_of (normed norm b) n = None \<longleftrightarrow> n \<notin> set (norms norm b)"
  by (induction b) (auto split: if_splits)

lemma place_less: "place norm n b < length b \<longleftrightarrow> n \<in> set (norms norm b)"
  by (induction b) (auto split: if_splits)

lemma place_absent: "n \<notin> set (norms norm b) \<Longrightarrow> place norm n b = length b"
  by (induction b) auto

definition bucket_put :: "('k \<Rightarrow> 'n) \<Rightarrow> 'k \<Rightarrow> 'v \<Rightarrow> ('k \<times> 'v) list \<Rightarrow> ('k \<times> 'v) list" where
  "bucket_put norm key v b =
     (let p = place norm (norm key) b
      in if p < length b then b[p := (fst (b ! p), v)] else b @ [(key, v)])"

definition bucket_del :: "('k \<Rightarrow> 'n) \<Rightarrow> 'n \<Rightarrow> ('k \<times> 'v) list \<Rightarrow> ('k \<times> 'v) list" where
  "bucket_del norm n b = (let p = place norm n b in take p b @ drop (Suc p) b)"

lemma bucket_put_simps [simp]:
  "bucket_put norm key v [] = [(key, v)]"
  "bucket_put norm key v ((k, w) # b) = (if norm k = norm key then (k, v) # b else (k, w) # bucket_put norm key v b)"
  by (simp_all add: bucket_put_def Let_def)

lemma bucket_del_simps [simp]:
  "bucket_del norm n [] = []"
  "bucket_del norm n ((k, w) # b) = (if norm k = n then b else (k, w) # bucket_del norm n b)"
  by (simp_all add: bucket_del_def Let_def)

lemma map_of_bucket_put: "map_of (normed norm (bucket_put norm key v b)) = (map_of (normed norm b))(norm key \<mapsto> v)"
  by (induction b) (auto simp: fun_upd_twist)

lemma norms_bucket_put:
  "norms norm (bucket_put norm key v b) =
     (if norm key \<in> set (norms norm b) then norms norm b else norms norm b @ [norm key])"
  by (induction b) auto

lemma fst_bucket_put:
  "map fst (bucket_put norm key v b) = (if norm key \<in> set (norms norm b) then map fst b else map fst b @ [key])"
  by (induction b) auto

lemma map_of_bucket_del:
  "distinct (norms norm b) \<Longrightarrow> map_of (normed norm (bucket_del norm n b)) = (map_of (normed norm b))(n := None)"
proof (induction b)
  case (Cons x b)
  then show ?case
    using map_of_normed_None [of norm b n] by (cases x) (auto simp: fun_upd_twist fun_upd_idem)
qed simp

lemma norms_bucket_del: "norms norm (bucket_del norm n b) = remove1 n (norms norm b)"
  by (induction b) auto

lemma set_bucket_del: "set (bucket_del norm n b) \<subseteq> set b"
  by (induction b) (auto split: if_splits)

subsection \<open>The invariant and the map a hash map stands for\<close>

definition bucket_of :: "('n \<Rightarrow> u64) \<Rightarrow> ('k, 'v) hash_map \<Rightarrow> 'n \<Rightarrow> nat" where
  "bucket_of hv m n = unat (hv n AND hm_mask m)"

definition hm_shape :: "('k, 'v) hash_map \<Rightarrow> nat \<Rightarrow> bool" where
  "hm_shape m c \<longleftrightarrow> 2 \<le> c \<and> c \<le> 60 \<and> hm_capacity m = 2 ^ c \<and> hm_mask m = 2 ^ c - 1 \<and>
     hm_rehash_threshold m = word_of_nat (3 * 2 ^ (c - 2)) \<and> length (hm_nodes m) = 2 ^ c"

definition hm_ok :: "('k \<Rightarrow> 'n) \<Rightarrow> ('k \<Rightarrow> bool) \<Rightarrow> ('n \<Rightarrow> u64) \<Rightarrow> ('k, 'v) hash_map \<Rightarrow> bool" where
  "hm_ok norm adm hv m \<longleftrightarrow>
     (\<exists>c. hm_shape m c \<and> length (concat (hm_nodes m)) \<le> 3 * 2 ^ (c - 2)) \<and>
     hm_size m = word_of_nat (length (concat (hm_nodes m))) \<and>
     (\<forall>i < length (hm_nodes m). distinct (norms norm (hm_nodes m ! i)) \<and>
        (\<forall>k \<in> fst ` set (hm_nodes m ! i). adm k \<and> bucket_of hv m (norm k) = i))"

definition hm_lookup :: "('k \<Rightarrow> 'n) \<Rightarrow> ('n \<Rightarrow> u64) \<Rightarrow> ('k, 'v) hash_map \<Rightarrow> 'n \<rightharpoonup> 'v" where
  "hm_lookup norm hv m n = map_of (normed norm (hm_nodes m ! bucket_of hv m n)) n"

definition hm_count :: "('k, 'v) hash_map \<Rightarrow> nat" where
  "hm_count m = length (concat (hm_nodes m))"


lemma length_concat_update:
  "i < length xs \<Longrightarrow> length (concat (xs[i := b])) + length (xs ! i) = length (concat xs) + length b"
proof (induction xs arbitrary: i)
  case (Cons x xs)
  then show ?case
    by (cases i) auto
qed simp

lemma bucket_of_less:
  assumes "hm_shape m c"
  shows "bucket_of hv m n < length (hm_nodes m)"
proof -
  have "hm_mask m = mask c"
    using assms by (simp add: hm_shape_def mask_eq_exp_minus_1)
  then have "bucket_of hv m n = unat (take_bit c (hv n))"
    by (simp add: bucket_of_def take_bit_eq_mask)
  then show ?thesis
    using assms take_bit_nat_less_exp by (simp add: hm_shape_def unsigned_take_bit_eq)
qed

lemma bucket_of_cong: "hm_mask m' = hm_mask m \<Longrightarrow> bucket_of hv m' = bucket_of hv m"
  by (simp add: bucket_of_def fun_eq_iff)

lemma hm_shape_cong:
  "hm_shape m c \<Longrightarrow> length ns = length (hm_nodes m) \<Longrightarrow> hm_shape (m\<lparr>hm_nodes := ns, hm_size := s\<rparr>) c"
  by (simp add: hm_shape_def)

lemma hm_okD:
  assumes "hm_ok norm adm hv m"
  shows "bucket_of hv m n < length (hm_nodes m)"
    and "distinct (norms norm (hm_nodes m ! bucket_of hv m n))"
    and "k \<in> fst ` set (hm_nodes m ! bucket_of hv m n) \<Longrightarrow> adm k"
    and "k \<in> fst ` set (hm_nodes m ! bucket_of hv m n) \<Longrightarrow> bucket_of hv m (norm k) = bucket_of hv m n"
    and "hm_size m = word_of_nat (hm_count m)"
    and "hm_count m < 2 ^ 60"
proof -
  obtain c where c: "hm_shape m c" "hm_count m \<le> 3 * 2 ^ (c - 2)"
    using assms by (auto simp: hm_ok_def hm_count_def)
  then show less: "bucket_of hv m n < length (hm_nodes m)"
    by (intro bucket_of_less)
  have "(2::nat) ^ (c - 2) \<le> 2 ^ 58"
    using c(1) by (intro power_increasing) (auto simp: hm_shape_def)
  then show "hm_count m < 2 ^ 60"
    using c(2) by simp
  show "distinct (norms norm (hm_nodes m ! bucket_of hv m n))"
    "k \<in> fst ` set (hm_nodes m ! bucket_of hv m n) \<Longrightarrow> adm k"
    "k \<in> fst ` set (hm_nodes m ! bucket_of hv m n) \<Longrightarrow> bucket_of hv m (norm k) = bucket_of hv m n"
    using assms less unfolding hm_ok_def by blast+
  show "hm_size m = word_of_nat (hm_count m)"
    using assms by (simp add: hm_ok_def hm_count_def)
qed

text \<open>Iteration visits the buckets in order, and each bucket from its inline node on.\<close>

declare entries_from.simps(2) [simp del]

lemma entries_from_next_bucket:
  assumes "\<And>i. k \<le> i \<Longrightarrow> i < length (hm_nodes m) \<Longrightarrow> hm_nodes m ! i \<noteq> [] \<Longrightarrow>
      entries_from m (Some (i, 0)) = concat (drop i (hm_nodes m))"
  shows "entries_from m (next_bucket (drop k (hm_nodes m)) k) = concat (drop k (hm_nodes m))"
  using assms
proof (induction "length (hm_nodes m) - k" arbitrary: k)
  case (Suc d)
  then have k: "k < length (hm_nodes m)"
    by linarith
  show ?case
  proof (cases "hm_nodes m ! k = []")
    case True
    then show ?thesis
      using Suc(1) [of "Suc k"] Suc(2,3) Cons_nth_drop_Suc [OF k, symmetric] by simp
  next
    case False
    then show ?thesis
      using Suc(3) [of k] k Cons_nth_drop_Suc [OF k, symmetric] by simp
  qed
qed (simp add: SentinelCursor_def)

lemma entries_from_eq:
  "i < length (hm_nodes m) \<Longrightarrow> p < length (hm_nodes m ! i) \<Longrightarrow>
   entries_from m (Some (i, p)) = drop p (hm_nodes m ! i) @ concat (drop (Suc i) (hm_nodes m))"
proof (induction "length (hm_nodes m) - i" arbitrary: i p rule: less_induct)
  case less
  have rest: "entries_from m (next_bucket (drop (Suc i) (hm_nodes m)) (Suc i)) = concat (drop (Suc i) (hm_nodes m))"
  proof (rule entries_from_next_bucket)
    fix j assume j: "Suc i \<le> j" "j < length (hm_nodes m)" "hm_nodes m ! j \<noteq> []"
    then show "entries_from m (Some (j, 0)) = concat (drop j (hm_nodes m))"
      using less(1) [of j 0] Cons_nth_drop_Suc [OF j(2), symmetric] by simp
  qed
  show ?case
    using less.prems(2)
  proof (induction "length (hm_nodes m ! i) - p" arbitrary: p)
    case (Suc d)
    note p = Cons_nth_drop_Suc [OF Suc(3), symmetric]
    show ?case
    proof (cases "Suc p < length (hm_nodes m ! i)")
      case True
      then show ?thesis
        using Suc(1) [of "Suc p"] Suc(2,3) less.prems(1) p by (simp add: entries_from.simps(2) NextCursor_def)
    next
      case False
      then show ?thesis
        using Suc(3) less.prems(1) rest p by (simp add: entries_from.simps(2) NextCursor_def)
    qed
  qed simp
qed

lemma word_of_count_eq_0: "n < 2 ^ 60 \<Longrightarrow> (word_of_nat n :: u64) = 0 \<longleftrightarrow> n = 0"
  by (auto simp: word_of_nat_eq_0_iff dest!: dvd_imp_le)

lemma HashMap_entries_eq:
  assumes ok: "hm_ok norm adm hv m"
  shows "HashMap_entries m = concat (hm_nodes m)"
proof -
  have size: "hm_size m = 0 \<longleftrightarrow> concat (hm_nodes m) = []"
    using hm_okD(5,6) [OF ok] by (simp only: word_of_count_eq_0 hm_count_def length_0_conv)
  obtain b bs where nodes: "hm_nodes m = b # bs"
    using hm_okD(1) [OF ok] by (cases "hm_nodes m") auto
  have start: "entries_from m (Some (i, 0)) = concat (drop i (hm_nodes m))" if "i < length (hm_nodes m)" "hm_nodes m ! i \<noteq> []" for i
    using that entries_from_eq [of i m 0] Cons_nth_drop_Suc [OF that(1), symmetric] by simp
  have "entries_from m (next_bucket (drop 1 (hm_nodes m)) 1) = concat (drop 1 (hm_nodes m))"
    by (rule entries_from_next_bucket) (rule start)
  then show ?thesis
    using size start [of 0]
    by (simp add: HashMap_entries_def FirstNonEmptyCursor_def hm_empty_def SentinelCursor_def NextCursor_def nodes)
qed

lemma hm_lookup_None:
  "hm_lookup norm hv m n = None \<longleftrightarrow> n \<notin> set (norms norm (hm_nodes m ! bucket_of hv m n))"
  by (simp add: hm_lookup_def map_of_normed_None)

text \<open>Keys of different buckets differ, so the map is also that of all entries in order, and the
  number of entries is the size of its domain.\<close>

lemma map_of_rev_distinct: "distinct (map fst xs) \<Longrightarrow> map_of (rev xs) = map_of xs"
  using map_of_inject_set [of "rev xs" xs] by (simp flip: rev_map)

lemma distinct_concat_indexed:
  "(\<And>i. i < length xs \<Longrightarrow> distinct (xs ! i) \<and> (\<forall>x \<in> set (xs ! i). f x = i)) \<Longrightarrow> distinct (concat xs)"
proof (induction xs rule: rev_induct)
  case (snoc y ys)
  have ys: "distinct (ys ! i) \<and> (\<forall>x \<in> set (ys ! i). f x = i)" if "i < length ys" for i
    using snoc.prems [of i] that by (simp add: nth_append)
  have "f x < length ys" if "x \<in> set (concat ys)" for x
    using that ys by (metis UN_E in_set_conv_nth set_concat)
  moreover have "distinct y" "\<And>x. x \<in> set y \<Longrightarrow> f x = length ys"
    using snoc.prems [of "length ys"] by simp_all
  ultimately have "set (concat ys) \<inter> set y = {}"
    by (metis disjoint_iff less_irrefl)
  then show ?case
    using snoc.IH [OF ys] \<open>distinct y\<close> by simp
qed simp

lemma map_of_concat_indexed:
  "(\<And>i. i < length xs \<Longrightarrow> \<forall>x \<in> fst ` set (xs ! i). f x = i) \<Longrightarrow>
   map_of (concat xs) n = (if f n < length xs then map_of (xs ! f n) n else None)"
proof (induction xs rule: rev_induct)
  case (snoc y ys)
  have ys: "\<forall>x \<in> fst ` set (ys ! i). f x = i" if "i < length ys" for i
    using snoc.prems [of i] that by (simp add: nth_append)
  have "f n = length ys" if "map_of y n \<noteq> None"
    using that snoc.prems [of "length ys"] by (metis lessI length_append_singleton map_of_eq_None_iff nth_append_length)
  then show ?case
    using snoc.IH [OF ys] by (cases "map_of y n") (auto simp: nth_append map_add_def less_Suc_eq split: option.split)
qed simp

lemma hm_entries:
  assumes ok: "hm_ok norm adm hv m"
  shows "distinct (norms norm (concat (hm_nodes m)))"
    and "map_of (normed norm (concat (hm_nodes m))) = hm_lookup norm hv m"
    and "k \<in> fst ` set (concat (hm_nodes m)) \<Longrightarrow> adm k"
proof -
  have "\<forall>x \<in> set (norms norm (hm_nodes m ! i)). bucket_of hv m x = i" if "i < length (hm_nodes m)" for i
    using ok that by (auto simp: hm_ok_def norms_def)
  note ix = this
  have "norms norm (concat (hm_nodes m)) = concat (map (norms norm) (hm_nodes m))"
    by (simp add: norms_def [abs_def] map_concat comp_def)
  also have "distinct \<dots>"
    by (rule distinct_concat_indexed [where f = "bucket_of hv m"]) (use ok ix in \<open>simp add: hm_ok_def\<close>)
  finally show "distinct (norms norm (concat (hm_nodes m)))" .
  have "normed norm (concat (hm_nodes m)) = concat (map (normed norm) (hm_nodes m))"
    by (simp add: normed_def [abs_def] map_concat)
  also have "map_of \<dots> = hm_lookup norm hv m"
  proof
    show "map_of (concat (map (normed norm) (hm_nodes m))) n = hm_lookup norm hv m n" for n
      using map_of_concat_indexed [of "map (normed norm) (hm_nodes m)" "bucket_of hv m" n] ix hm_okD(1) [OF ok, of n]
      by (simp add: hm_lookup_def fst_normed flip: set_map)
  qed
  finally show "map_of (normed norm (concat (hm_nodes m))) = hm_lookup norm hv m" .
  show "k \<in> fst ` set (concat (hm_nodes m)) \<Longrightarrow> adm k"
  proof -
    assume "k \<in> fst ` set (concat (hm_nodes m))"
    then obtain b where "b \<in> set (hm_nodes m)" "k \<in> fst ` set b"
      by auto
    then show "adm k"
      using ok unfolding hm_ok_def by (metis in_set_conv_nth)
  qed
qed

lemma hm_count_eq:
  assumes ok: "hm_ok norm adm hv m"
  shows "hm_count m = card (dom (hm_lookup norm hv m))"
proof -
  have "dom (hm_lookup norm hv m) = set (norms norm (concat (hm_nodes m)))"
    unfolding hm_entries(2) [OF ok, symmetric] dom_map_of_conv_image_fst by (simp add: fst_normed flip: set_map)
  then show ?thesis
    using distinct_card [OF hm_entries(1) [OF ok]] by (simp add: hm_count_def)
qed

text \<open>Replacing the bucket of a normal form \<open>n\<close> by one that agrees with it on the other normal
  forms keeps the invariant and changes the map at \<open>n\<close> only.\<close>

lemma replace_bucket:
  fixes m :: "('k, 'v) hash_map"
  defines "b0 \<equiv> \<lambda>m n hv. hm_nodes (m :: ('k, 'v) hash_map) ! bucket_of hv m n"
  assumes ok: "hm_ok norm adm hv m"
    and d: "distinct (norms norm b)"
    and k: "\<And>k. k \<in> fst ` set b \<Longrightarrow> adm k \<and> bucket_of hv m (norm k) = bucket_of hv m n"
    and mo: "map_of (normed norm b) = (map_of (normed norm (b0 m n hv)))(n := x)"
    and c: "hm_shape m c"
    and cnt: "cnt + length (b0 m n hv) = hm_count m + length b" "cnt \<le> 3 * 2 ^ (c - 2)"
    and m': "m' = m\<lparr>hm_nodes := (hm_nodes m)[bucket_of hv m n := b], hm_size := word_of_nat cnt\<rparr>"
  shows "hm_ok norm adm hv m'" "hm_lookup norm hv m' = (hm_lookup norm hv m)(n := x)" "hm_count m' = cnt"
proof -
  note less = hm_okD(1) [OF ok, of n]
  show count: "hm_count m' = cnt"
    using length_concat_update [OF less, of b] cnt(1) by (simp add: hm_count_def b0_def m')
  have bo: "bucket_of hv m' = bucket_of hv m" and size: "hm_size m' = word_of_nat cnt"
    by (rule bucket_of_cong) (simp_all add: m')
  have "hm_shape m' c"
    using hm_shape_cong [OF c] by (simp add: m')
  moreover have "distinct (norms norm (hm_nodes m' ! i)) \<and>
      (\<forall>k \<in> fst ` set (hm_nodes m' ! i). adm k \<and> bucket_of hv m' (norm k) = i)" if "i < length (hm_nodes m')" for i
  proof (cases "i = bucket_of hv m n")
    case True
    then show ?thesis
      using d k less unfolding bo by (simp add: m')
  next
    case False
    then show ?thesis
      using ok that unfolding bo by (simp add: hm_ok_def m')
  qed
  ultimately show "hm_ok norm adm hv m'"
    using cnt(2) size unfolding hm_ok_def hm_count_def [symmetric] count by blast
  show "hm_lookup norm hv m' = (hm_lookup norm hv m)(n := x)"
  proof
    fix n'
    have "hm_lookup norm hv m' n' = map_of (normed norm ((hm_nodes m)[bucket_of hv m n := b] ! bucket_of hv m n')) n'"
      unfolding hm_lookup_def bo by (simp add: m')
    then show "hm_lookup norm hv m' n' = ((hm_lookup norm hv m)(n := x)) n'"
      using less by (cases "bucket_of hv m n' = bucket_of hv m n")
        (auto simp: mo b0_def hm_lookup_def nth_list_update)
  qed
qed


lemma below_threshold:
  assumes "hm_ok norm adm hv m" "hm_shape m c"
  shows "hm_size m < hm_rehash_threshold m \<longleftrightarrow> hm_count m < 3 * 2 ^ (c - 2)"
proof -
  have "(2::nat) ^ (c - 2) \<le> 2 ^ 58"
    using assms(2) by (intro power_increasing) (auto simp: hm_shape_def)
  then have "unat (word_of_nat (3 * 2 ^ (c - 2)) :: u64) = 3 * 2 ^ (c - 2)"
    by (intro unat_word_of_small) simp
  moreover have "unat (word_of_nat (hm_count m) :: u64) = hm_count m"
    using hm_okD(6) [OF assms(1)] by (intro unat_word_of_small) simp
  ultimately show ?thesis
    using hm_okD(5) [OF assms(1)] assms(2) unfolding hm_shape_def by (simp only: word_less_nat_alt)
qed

lemma hm_shape_unique:
  assumes "hm_ok norm adm hv m'" "hm_shape m c" "hm_capacity m' = hm_capacity m"
  shows "hm_shape m' c"
proof -
  obtain c' where c': "hm_shape m' c'"
    using assms(1) by (auto simp: hm_ok_def)
  have "c < 64" "c' < 64" "(2 :: u64) ^ c' = 2 ^ c"
    using c' assms(2,3) by (auto simp: hm_shape_def)
  then have "(2::nat) ^ c' = 2 ^ c"
    using unat_two_power by metis
  then have "c' = c"
    by simp
  then show ?thesis
    using c' by simp
qed

lemma HashMap_ctor_ok:
  assumes c: "2 \<le> c" "c \<le> 60"
  obtains m :: "('k, 'v) hash_map" where "HashMap_ctor (2 ^ c) = Inr m" "hm_ok norm adm hv m" "hm_shape m c"
    "hm_lookup norm hv m = Map.empty" "hm_count m = 0"
proof -
  define m :: "('k, 'v) hash_map" where "m = \<lparr>hm_nodes = replicate (2 ^ c) [], hm_capacity = 2 ^ c, hm_mask = 2 ^ c - 1,
    hm_rehash_threshold = word_of_nat (3 * 2 ^ (c - 2)), hm_size = 0\<rparr>"
  have u: "unat (2 ^ c :: u64) = 2 ^ c"
    using c by (intro unat_two_power) simp
  have "(2::nat) ^ (c - 1) < unat (2 ^ c :: u64)" "unat (2 ^ c :: u64) \<le> 2 ^ Suc (c - 1)"
    unfolding u using c by simp_all
  from NextPowerOfTwo_eq [OF this] have npt: "NextPowerOfTwo (2 ^ c) = 2 ^ c"
    using c by simp
  have four: "4 \<le> (2 ^ c :: u64)"
    unfolding word_le_nat_alt u using power_increasing [of 2 c "2::nat"] c by simp
  have pow: "(2 ^ c AND (2 ^ c - 1) :: u64) = 0"
    by (rule bit_eqI) (simp add: bit_and_iff bit_exp_iff flip: mask_eq_exp_minus_1 add: bit_mask_iff)
  have thr: "(2 ^ c * 3 div 4 :: u64) = word_of_nat (3 * 2 ^ (c - 2))"
  proof -
    obtain d where d: "c = d + 2"
      using c(1) by (metis add.commute le_Suc_ex)
    have le: "(2::nat) ^ d \<le> 2 ^ 58"
      using c(2) d by (intro power_increasing) auto
    have "unat (2 ^ c * 3 :: u64) = unat (2 ^ c :: u64) * unat (3 :: u64)"
      using le by (subst unat_mult_lem [symmetric]) (simp add: u, simp add: d)
    then have "unat (2 ^ c * 3 div 4 :: u64) = 3 * 2 ^ d"
      unfolding unat_div u by (simp add: d)
    moreover have "unat (word_of_nat (3 * 2 ^ (c - 2)) :: u64) = 3 * 2 ^ d"
      using le d by (subst unat_word_of_small) simp_all
    ultimately show ?thesis
      by (intro unsigned_word_eqI [where ?'a = nat]) (simp only:)
  qed
  have "HashMap_ctor (2 ^ c) = Inr m"
    using four by (simp add: HashMap_ctor_def InitializeFor_def npt pow u m_def thr)
  moreover have sh: "hm_shape m c"
    using c by (simp add: hm_shape_def m_def)
  moreover have "hm_ok norm adm hv m"
    using sh unfolding hm_ok_def by (intro conjI exI [of _ c]) (simp_all add: m_def)
  moreover have "hm_lookup norm hv m = Map.empty"
    using bucket_of_less [OF sh, of hv] by (simp add: hm_lookup_def fun_eq_iff) (simp add: m_def)
  moreover have "hm_count m = 0"
    by (simp add: hm_count_def m_def)
  ultimately show thesis
    by (rule_tac that)
qed

subsection \<open>Keys that hash and compare by a normal form\<close>

locale hash_key =
  fixes h :: "'k hash_fn" and e :: "'k eq_fn" and norm :: "'k \<Rightarrow> 'n" and adm :: "'k \<Rightarrow> bool" and hv :: "'n \<Rightarrow> u64"
  assumes hash_ok: "adm k \<Longrightarrow> h k = Inr (hv (norm k))"
    and eq_ok: "adm a \<Longrightarrow> adm b \<Longrightarrow> e a b = Inr (norm a = norm b)"
begin

lemma GetBucket_ok: "adm key \<Longrightarrow> GetBucket h m key = Inr (bucket_of hv m (norm key))"
  by (simp add: GetBucket_def hash_ok bucket_of_def)

lemma chain_scans:
  assumes "adm key" "\<And>k. k \<in> fst ` set b \<Longrightarrow> adm k"
  shows "LocateKeySlow e key idx b p =
      Inr (if norm key \<in> set (norms norm b) then Some (idx, p + place norm (norm key) b) else None)"
    and "TryGetSlow e b key = Inr (map_of (normed norm b) (norm key))"
    and "CreateOrLocateKeySlow e key b p = Inr (p + place norm (norm key) b, norm key \<notin> set (norms norm b))"
  using assms(2)
proof (induction b arbitrary: p)
  case (Cons x b)
  { case 1 with assms(1) Cons.IH(1) [of "Suc p"] show ?case by (cases x) (auto simp: eq_ok) }
  { case 2 with assms(1) Cons.IH(2) show ?case by (cases x) (auto simp: eq_ok) }
  { case 3 with assms(1) Cons.IH(3) [of "Suc p"] show ?case by (cases x) (auto simp: eq_ok) }
qed simp_all

lemma LocateKey_ok:
  assumes ok: "hm_ok norm adm hv m" and key: "adm key"
  defines "i \<equiv> bucket_of hv m (norm key)"
  shows "LocateKey h e m key =
    Inr (if hm_lookup norm hv m (norm key) = None then None else Some (i, place norm (norm key) (hm_nodes m ! i)))"
proof (cases "hm_nodes m ! i")
  case Nil
  then show ?thesis
    by (simp add: LocateKey_def GetBucket_ok [OF key] i_def [symmetric] hm_lookup_None)
next
  case (Cons x nodes)
  then obtain k v where b: "hm_nodes m ! i = (k, v) # nodes"
    by (cases x) simp
  have adm: "adm k" "\<And>k'. k' \<in> fst ` set nodes \<Longrightarrow> adm k'"
    using hm_okD(3) [OF ok, of _ "norm key"] b by (auto simp: i_def)
  then show ?thesis
    using b by (simp add: LocateKey_def GetBucket_ok [OF key] i_def [symmetric] hm_lookup_None eq_ok [OF _ key]
      chain_scans(1) [OF key adm(2)])
qed

lemma find_ok:
  assumes "hm_ok norm adm hv m" "adm key"
  shows "HashMap_contains h e m key = Inr (norm key \<in> dom (hm_lookup norm hv m))"
  by (simp add: HashMap_contains_def HashMap_find_def LocateKey_ok [OF assms] SentinelCursor_def domIff)

lemma TryGet_ok:
  assumes ok: "hm_ok norm adm hv m" and key: "adm key"
  shows "HashMap_TryGet h e m key = Inr (hm_lookup norm hv m (norm key))"
proof (cases "hm_nodes m ! bucket_of hv m (norm key)")
  case Nil
  then show ?thesis
    by (simp add: HashMap_TryGet_def GetBucket_ok [OF key] hm_lookup_def)
next
  case (Cons x nodes)
  then obtain k v where b: "hm_nodes m ! bucket_of hv m (norm key) = (k, v) # nodes"
    by (cases x) simp
  have adm: "adm k" "\<And>k'. k' \<in> fst ` set nodes \<Longrightarrow> adm k'"
    using hm_okD(3) [OF ok, of _ "norm key"] b by auto
  then show ?thesis
    using b by (auto simp: HashMap_TryGet_def GetBucket_ok [OF key] hm_lookup_def eq_ok [OF _ key]
      chain_scans(2) [OF key adm(2)])
qed

lemma at_ok:
  assumes "hm_ok norm adm hv m" "adm key"
  shows "HashMap_at h e m key = (case hm_lookup norm hv m (norm key) of None \<Rightarrow> Inl Assertion | Some v \<Rightarrow> Inr v)"
  by (simp add: HashMap_at_def TryGet_ok [OF assms])

text \<open>What \<open>CreateOrLocateKey\<close> does once the map is large enough.\<close>

lemma CreateOrLocateKey_ok:
  assumes ok: "hm_ok norm adm hv m" and key: "adm key" and re: "RehashIfNecessary ins m0 = returns m"
  defines "i \<equiv> bucket_of hv m (norm key)"
  shows "CreateOrLocateKey ins h e m0 key =
    returns (i, place norm (norm key) (hm_nodes m ! i), hm_lookup norm hv m (norm key) = None,
      if hm_lookup norm hv m (norm key) = None then grow m else m)"
proof (cases "hm_nodes m ! i")
  case Nil
  then show ?thesis
    by (simp add: CreateOrLocateKey_def re GetBucket_ok [OF key] i_def [symmetric] hm_lookup_None)
next
  case (Cons x nodes)
  then obtain k v where b: "hm_nodes m ! i = (k, v) # nodes"
    by (cases x) simp
  have adm: "adm k" "\<And>k'. k' \<in> fst ` set nodes \<Longrightarrow> adm k'"
    using hm_okD(3) [OF ok, of _ "norm key"] b by (auto simp: i_def)
  show ?thesis
    using b adm(1) chain_scans(3) [OF key adm(2), where b = nodes and p = "Suc 0"]
    by (simp add: CreateOrLocateKey_def re GetBucket_ok [OF key] i_def [symmetric] hm_lookup_None eq_ok [OF _ key])
qed

lemma put_ok:
  fixes m :: "('k, 'v) hash_map" and v :: 'v
  assumes ok: "hm_ok norm adm hv m" and key: "adm key" and c: "hm_shape m c" and room: "hm_count m < 3 * 2 ^ (c - 2)"
  defines "i \<equiv> bucket_of hv m (norm key)"
  defines "b \<equiv> hm_nodes m ! i"
  defines "m1 \<equiv> if hm_lookup norm hv m (norm key) = None then grow m else m"
  defines "m' \<equiv> put_node m1 i (bucket_put norm key v b)"
  shows "hm_ok norm adm hv m'" "hm_lookup norm hv m' = (hm_lookup norm hv m)(norm key \<mapsto> v)"
    "hm_count m' = hm_count m + (if norm key \<in> dom (hm_lookup norm hv m) then 0 else 1)"
proof -
  let ?cnt = "hm_count m + (if norm key \<in> dom (hm_lookup norm hv m) then 0 else 1)"
  have len: "length (bucket_put norm key v b) = length b + (if norm key \<in> dom (hm_lookup norm hv m) then 0 else 1)"
    using arg_cong [OF fst_bucket_put, of length norm key v b] by (simp add: b_def i_def domIff hm_lookup_None)
  have m': "m' = m\<lparr>hm_nodes := (hm_nodes m)[i := bucket_put norm key v b], hm_size := word_of_nat ?cnt\<rparr>"
    using hm_okD(5) [OF ok] by (auto simp: m'_def m1_def put_node_def grow_def domIff)
  have k: "adm k \<and> bucket_of hv m (norm k) = i" if "k \<in> fst ` set (bucket_put norm key v b)" for k
  proof -
    have "k = key \<or> k \<in> fst ` set b"
      using that fst_bucket_put [of norm key v b] by (metis list.set_map Un_iff set_append list.set(1,2) singletonD)
    then show ?thesis
      using hm_okD(3,4) [OF ok, of k "norm key"] key by (auto simp: b_def i_def)
  qed
  have d: "distinct (norms norm (bucket_put norm key v b))"
    using hm_okD(2) [OF ok, of "norm key"] by (simp add: norms_bucket_put b_def i_def)
  have mo: "map_of (normed norm (bucket_put norm key v b)) =
      (map_of (normed norm (hm_nodes m ! bucket_of hv m (norm key))))(norm key \<mapsto> v)"
    by (simp add: map_of_bucket_put b_def i_def)
  have cnt: "?cnt + length (hm_nodes m ! bucket_of hv m (norm key)) = hm_count m + length (bucket_put norm key v b)"
      "?cnt \<le> 3 * 2 ^ (c - 2)"
    using len room by (simp_all add: b_def i_def)
  note R = replace_bucket [OF ok d k [unfolded i_def] mo c cnt m' [unfolded i_def]]
  show "hm_ok norm adm hv m'" "hm_lookup norm hv m' = (hm_lookup norm hv m)(norm key \<mapsto> v)" "hm_count m' = ?cnt"
    by (rule R(1), assumption, rule R(2), assumption, rule R(3))
qed

lemma insert_with_ok:
  assumes ok: "hm_ok norm adm hv m" and key: "adm key" and re: "RehashIfNecessary ins m0 = returns m"
    and c: "hm_shape m c" and room: "hm_count m < 3 * 2 ^ (c - 2)"
  obtains pos m' where "insert_with ins h e m0 key v = returns (pos, m')" "hm_ok norm adm hv m'"
    "hm_lookup norm hv m' = (hm_lookup norm hv m)(norm key \<mapsto> v)" "hm_capacity m' = hm_capacity m"
    "hm_count m' \<le> Suc (hm_count m)"
proof -
  let ?i = "bucket_of hv m (norm key)"
  let ?n = "hm_lookup norm hv m (norm key) = None"
  let ?m' = "put_node (if ?n then grow m else m) ?i (bucket_put norm key v (hm_nodes m ! ?i))"
  have p: "place norm (norm key) (hm_nodes m ! ?i) < length (hm_nodes m ! ?i) \<longleftrightarrow> \<not> ?n"
    by (simp add: hm_lookup_None place_less)
  have eq: "insert_with ins h e m0 key v = returns ((?i, place norm (norm key) (hm_nodes m ! ?i)), ?m')"
    using p by (simp add: insert_with_def CreateOrLocateKey_ok [OF ok key re] Accept_def assign_at_def bucket_put_def
      Let_def grow_def)
  have cap: "hm_capacity ?m' = hm_capacity m"
    by (simp add: put_node_def grow_def)
  note put = put_ok [OF ok key c room, of v]
  have cnt: "hm_count ?m' \<le> Suc (hm_count m)"
    unfolding put(3) by simp
  show thesis
    by (rule that [OF eq put(1,2) cap cnt])
qed

text \<open>Below the threshold no rehash happens, so a depth of one is enough.\<close>

lemma insert_all_ok:
  assumes "hm_ok norm adm hv m" "hm_shape m c" "\<And>k. k \<in> fst ` set kvs \<Longrightarrow> adm k"
    "hm_count m + length kvs \<le> 3 * 2 ^ (c - 2)"
  shows "\<exists>m'. insert_all (insert_n (Suc d) h e) m kvs = returns m' \<and> hm_ok norm adm hv m' \<and> hm_shape m' c \<and>
    hm_lookup norm hv m' = hm_lookup norm hv m ++ map_of (rev (normed norm kvs))"
  using assms
proof (induction kvs arbitrary: m)
  case (Cons kv kvs)
  obtain k v where kv: "kv = (k, v)"
    by (cases kv)
  have re: "RehashIfNecessary (insert_n d h e) m = returns m"
    using Cons.prems(4) below_threshold [OF Cons.prems(1,2)] by (simp add: RehashIfNecessary_def not_le [symmetric])
  have room: "hm_count m < 3 * 2 ^ (c - 2)"
    using Cons.prems(4) by simp
  obtain pos m' where m': "insert_with (insert_n d h e) h e m k v = returns (pos, m')" "hm_ok norm adm hv m'"
    "hm_lookup norm hv m' = (hm_lookup norm hv m)(norm k \<mapsto> v)" "hm_capacity m' = hm_capacity m"
    "hm_count m' \<le> Suc (hm_count m)"
    using Cons.prems(3) kv by (rule_tac insert_with_ok [OF Cons.prems(1) _ re Cons.prems(2) room, of k v]) auto
  have c: "hm_shape m' c"
    by (rule hm_shape_unique [OF m'(2) Cons.prems(2) m'(4)])
  obtain m'' where "insert_all (insert_n (Suc d) h e) m' kvs = returns m''" "hm_ok norm adm hv m''" "hm_shape m'' c"
    "hm_lookup norm hv m'' = hm_lookup norm hv m' ++ map_of (rev (normed norm kvs))"
    using Cons.IH [OF m'(2) c] Cons.prems(3,4) m'(5) by auto
  then show ?case
    using m'(1) kv unfolding m'(3) by (intro exI [of _ m'']) simp
qed simp

lemma Rehash_ok:
  fixes m :: "('k, 'v) hash_map"
  assumes ok: "hm_ok norm adm hv m" and c: "hm_shape m c" "c < 60"
  obtains m' where "Rehash (insert_n (Suc d) h e) m = returns m'" "hm_ok norm adm hv m'" "hm_shape m' (Suc c)"
    "hm_lookup norm hv m' = hm_lookup norm hv m"
proof -
  have cap: "hm_capacity m * 2 = 2 ^ Suc c"
    using c by (simp add: hm_shape_def)
  obtain dbl :: "('k, 'v) hash_map" where dbl: "HashMap_ctor (2 ^ Suc c) = Inr dbl" "hm_ok norm adm hv dbl" "hm_shape dbl (Suc c)"
    "hm_lookup norm hv dbl = Map.empty" "hm_count dbl = 0"
    using c by (rule_tac HashMap_ctor_ok [of "Suc c"]) (auto simp: hm_shape_def)
  have room: "hm_count dbl + length (concat (hm_nodes m)) \<le> 3 * 2 ^ (Suc c - 2)"
  proof -
    obtain c' where c': "hm_shape m c'" "hm_count m \<le> 3 * 2 ^ (c' - 2)"
      using ok by (auto simp: hm_ok_def hm_count_def)
    then have "c' = c"
      using c(1) by (auto simp: hm_shape_def)
    then have "hm_count m \<le> 3 * 2 ^ (c - 2)"
      using c'(2) by simp
    also have "\<dots> \<le> 3 * 2 ^ (Suc c - 2)"
      by (intro mult_le_mono power_increasing) auto
    finally show ?thesis
      by (simp only: hm_count_def [symmetric] dbl(5) add_0)
  qed
  obtain m' where m': "insert_all (insert_n (Suc d) h e) dbl (concat (hm_nodes m)) = returns m'" "hm_ok norm adm hv m'" "hm_shape m' (Suc c)"
    "hm_lookup norm hv m' = hm_lookup norm hv dbl ++ map_of (rev (normed norm (concat (hm_nodes m))))"
    using insert_all_ok [OF dbl(2,3) hm_entries(3) [OF ok] room] by blast
  have "map_of (rev (normed norm (concat (hm_nodes m)))) = map_of (normed norm (concat (hm_nodes m)))"
    using hm_entries(1) [OF ok] by (intro map_of_rev_distinct) (simp add: fst_normed)
  then have look: "hm_lookup norm hv m' = hm_lookup norm hv m"
    by (simp add: m'(4) dbl(4) hm_entries(2) [OF ok])
  have "hm_size m' = hm_size m"
    using hm_okD(5) [OF m'(2)] hm_okD(5) [OF ok] hm_count_eq [OF m'(2)] hm_count_eq [OF ok] look by simp
  then have "Rehash (insert_n (Suc d) h e) m = returns m'"
    using m'(1) by (simp add: Rehash_def cap dbl(1) HashMap_entries_eq [OF ok] del: insert_n.simps power_Suc)
  then show thesis
    using m'(2,3) look by (rule that)
qed

text \<open>With room for another entry, the map is below its threshold after the rehash check, and two levels
  of recursion suffice for it.\<close>

lemma RehashIfNecessary_ok:
  fixes m :: "('k, 'v) hash_map"
  assumes ok: "hm_ok norm adm hv m" and few: "hm_count m < 2 ^ 58"
  obtains m' c where "RehashIfNecessary (insert_n (Suc d) h e) m = returns m'" "hm_ok norm adm hv m'" "hm_shape m' c"
    "hm_lookup norm hv m' = hm_lookup norm hv m" "hm_count m' < 3 * 2 ^ (c - 2)" "hm_count m' = hm_count m"
proof -
  obtain c where c: "hm_shape m c" "hm_count m \<le> 3 * 2 ^ (c - 2)"
    using ok by (auto simp: hm_ok_def hm_count_def)
  show thesis
  proof (cases "hm_count m < 3 * 2 ^ (c - 2)")
    case True
    then show ?thesis
      using that [OF _ ok c(1)] below_threshold [OF ok c(1)] by (simp add: RehashIfNecessary_def flip: not_le)
  next
    case False
    then have "3 * 2 ^ (c - 2) < (2::nat) ^ 58"
      using few by simp
    then have "2 ^ (c - 2) < (2::nat) ^ 58"
      by (rule le_less_trans [rotated]) simp
    then have "c - 2 < 58"
      by (rule power_less_imp_less_exp [rotated]) simp
    then have "c < 60"
      by simp
    then obtain m' where m': "Rehash (insert_n (Suc d) h e) m = returns m'" "hm_ok norm adm hv m'" "hm_shape m' (Suc c)"
      "hm_lookup norm hv m' = hm_lookup norm hv m"
      by (rule Rehash_ok [OF ok c(1)])
    have cnt: "hm_count m' = hm_count m"
      by (simp add: hm_count_eq [OF ok] hm_count_eq [OF m'(2)] m'(4))
    have "hm_count m \<le> 3 * 2 ^ (c - 2)" "Suc c - 2 = Suc (c - 2)"
      using c by (auto simp: hm_shape_def)
    then have "hm_count m' < 3 * 2 ^ (Suc c - 2)"
      unfolding cnt by (simp add: le_less_trans)
    then show ?thesis
      using that [OF _ m'(2,3,4) _ cnt] m'(1) below_threshold [OF ok c(1)] False
      by (simp add: RehashIfNecessary_def not_less del: insert_n.simps)
  qed
qed

lemma insert_or_assign_ok:
  fixes m :: "('k, 'v) hash_map"
  assumes ok: "hm_ok norm adm hv m" and key: "adm key" and few: "hm_count m < 2 ^ 58"
  obtains pos m' where "HashMap_insert_or_assign h e m key v = returns (pos, m')" "hm_ok norm adm hv m'"
    "hm_lookup norm hv m' = (hm_lookup norm hv m)(norm key \<mapsto> v)" "hm_count m' \<le> Suc (hm_count m)"
proof -
  obtain m1 c where m1: "RehashIfNecessary (insert_n (Suc 0) h e) m = returns m1" "hm_ok norm adm hv m1" "hm_shape m1 c"
    "hm_lookup norm hv m1 = hm_lookup norm hv m" "hm_count m1 < 3 * 2 ^ (c - 2)" "hm_count m1 = hm_count m"
    by (rule RehashIfNecessary_ok [OF ok few])
  obtain pos m' where m': "insert_with (insert_n (Suc 0) h e) h e m key v = returns (pos, m')" "hm_ok norm adm hv m'"
    "hm_lookup norm hv m' = (hm_lookup norm hv m1)(norm key \<mapsto> v)" "hm_count m' \<le> Suc (hm_count m1)"
    by (rule insert_with_ok [OF m1(2) key m1(1) m1(3,5)])
  show thesis
    by (rule that [of pos m'])
       (use m' in \<open>simp_all add: HashMap_insert_or_assign_def insert_depth_def m1(4,6)\<close>)
qed

lemma erase_ok:
  fixes m :: "('k, 'v) hash_map"
  assumes ok: "hm_ok norm adm hv m" and key: "adm key"
  obtains m' where
    "HashMap_erase h e m key = Inr (if norm key \<in> dom (hm_lookup norm hv m) then 1 else 0, m')" "hm_ok norm adm hv m'"
    "hm_lookup norm hv m' = (hm_lookup norm hv m)(norm key := None)" "hm_count m' \<le> hm_count m"
proof (cases "hm_lookup norm hv m (norm key) = None")
  case True
  then show thesis
    using that [of m] ok by (simp add: HashMap_erase_def HashMap_find_def LocateKey_ok [OF ok key] domIff fun_upd_idem)
next
  case False
  let ?i = "bucket_of hv m (norm key)"
  let ?b = "hm_nodes m ! ?i"
  let ?m' = "m\<lparr>hm_nodes := (hm_nodes m)[?i := bucket_del norm (norm key) ?b], hm_size := word_of_nat (hm_count m - 1)\<rparr>"
  obtain c where c: "hm_shape m c" "hm_count m \<le> 3 * 2 ^ (c - 2)"
    using ok by (auto simp: hm_ok_def hm_count_def)
  have mem: "norm key \<in> set (norms norm ?b)"
    using False by (simp add: hm_lookup_None)
  have d: "distinct (norms norm (bucket_del norm (norm key) ?b))"
    using hm_okD(2) [OF ok, of "norm key"] by (simp add: norms_bucket_del)
  have k: "adm k \<and> bucket_of hv m (norm k) = ?i" if "k \<in> fst ` set (bucket_del norm (norm key) ?b)" for k
    using that set_bucket_del hm_okD(3,4) [OF ok, of k "norm key"] by (meson image_mono subsetD)
  have "length (bucket_del norm (norm key) ?b) = length ?b - 1"
    using arg_cong [OF norms_bucket_del, of length norm "norm key" ?b] mem by (simp add: length_remove1)
  moreover have pos: "length ?b \<noteq> 0"
    using mem by (cases "?b") auto
  moreover have le: "length ?b \<le> hm_count m"
    using length_concat_update [OF hm_okD(1) [OF ok], of "norm key" ?b] length_concat_update [OF hm_okD(1) [OF ok], of "norm key" "[]"]
    by (simp add: hm_count_def)
  ultimately have cnt: "hm_count m - 1 + length ?b = hm_count m + length (bucket_del norm (norm key) ?b)" "hm_count m - 1 \<le> 3 * 2 ^ (c - 2)"
    using c(2) by linarith+
  have "(word_of_nat (hm_count m) - 1 :: u64) = word_of_nat (hm_count m - 1)"
    using pos le by (subst of_nat_diff) (linarith, simp)
  then have eq: "HashMap_erase h e m key = Inr (if norm key \<in> dom (hm_lookup norm hv m) then 1 else 0, ?m')"
    using False by (simp add: HashMap_erase_def HashMap_find_def LocateKey_ok [OF ok key] domIff HashMap_erase_at_def
      put_node_def bucket_del_def Let_def hm_okD(5) [OF ok])
  note R = replace_bucket [OF ok d k map_of_bucket_del [OF hm_okD(2) [OF ok]] c(1) cnt refl]
  show thesis
    by (rule that [OF eq R(1,2)], assumption+, subst R(3), assumption) simp
qed

lemma clear_ok:
  assumes ok: "hm_ok norm adm hv m"
  shows "hm_ok norm adm hv (HashMap_clear m)" "hm_lookup norm hv (HashMap_clear m) = Map.empty"
    "hm_count (HashMap_clear m) = 0"
proof -
  obtain c where c: "hm_shape m c"
    using ok by (auto simp: hm_ok_def)
  have size: "hm_size m = 0 \<longleftrightarrow> concat (hm_nodes m) = []"
    using hm_okD(5,6) [OF ok] by (simp only: word_of_count_eq_0 hm_count_def length_0_conv)
  show cnt: "hm_count (HashMap_clear m) = 0"
    using size by (simp add: HashMap_clear_def hm_count_def)
  have nodes: "hm_nodes (HashMap_clear m) ! i = []" if "i < length (hm_nodes m)" for i
    using size that by (simp add: HashMap_clear_def)
  have bo: "bucket_of hv (HashMap_clear m) = bucket_of hv m"
    by (rule bucket_of_cong) (simp add: HashMap_clear_def)
  show "hm_lookup norm hv (HashMap_clear m) = Map.empty"
    using nodes hm_okD(1) [OF ok] by (simp add: hm_lookup_def bo fun_eq_iff)
  have "hm_shape (HashMap_clear m) c" "hm_size (HashMap_clear m) = 0" "length (hm_nodes (HashMap_clear m)) = length (hm_nodes m)"
    using c by (auto simp: HashMap_clear_def hm_shape_def)
  then show "hm_ok norm adm hv (HashMap_clear m)"
    using cnt nodes unfolding hm_ok_def hm_count_def [symmetric] by (intro conjI exI [of _ c]) simp_all
qed

text \<open>Inserting many: the later entry of a key wins.\<close>

lemma insert_or_assign_all_ok:
  fixes m :: "('k, 'v) hash_map"
  assumes "hm_ok norm adm hv m" "\<And>k. k \<in> fst ` set kvs \<Longrightarrow> adm k" "hm_count m + length kvs \<le> 2 ^ 58"
  shows "\<exists>m'. insert_all (HashMap_insert_or_assign h e) m kvs = returns m' \<and> hm_ok norm adm hv m' \<and>
    hm_lookup norm hv m' = hm_lookup norm hv m ++ map_of (rev (normed norm kvs))"
  using assms
proof (induction kvs arbitrary: m)
  case (Cons kv kvs)
  obtain k v where kv: "kv = (k, v)"
    by (cases kv)
  obtain pos m' where m': "HashMap_insert_or_assign h e m k v = returns (pos, m')" "hm_ok norm adm hv m'"
    "hm_lookup norm hv m' = (hm_lookup norm hv m)(norm k \<mapsto> v)" "hm_count m' \<le> Suc (hm_count m)"
    using Cons.prems kv by (rule_tac insert_or_assign_ok [of m k v]) auto
  obtain m'' where "insert_all (HashMap_insert_or_assign h e) m' kvs = returns m''" "hm_ok norm adm hv m''"
    "hm_lookup norm hv m'' = hm_lookup norm hv m' ++ map_of (rev (normed norm kvs))"
    using Cons.IH [OF m'(2)] Cons.prems(2,3) m'(4) by auto
  then show ?case
    using m'(1) kv unfolding m'(3) by (intro exI [of _ m'']) simp
qed simp

lemma default_ok:
  obtains m :: "('k, 'v) hash_map" where "HashMap_default = Inr m" "hm_ok norm adm hv m"
    "hm_lookup norm hv m = Map.empty" "hm_count m = 0"
  using HashMap_ctor_ok [of 4, where norm = norm and adm = adm and hv = hv] by (auto simp: HashMap_default_def)

lemma copy_ok:
  fixes m :: "('k, 'v) hash_map"
  assumes ok: "hm_ok norm adm hv m" and few: "hm_count m \<le> 2 ^ 58"
  obtains m' where "HashMap_copy h e m = returns m'" "hm_ok norm adm hv m'" "hm_lookup norm hv m' = hm_lookup norm hv m"
proof -
  obtain m0 :: "('k, 'v) hash_map" where m0: "HashMap_default = Inr m0" "hm_ok norm adm hv m0"
    "hm_lookup norm hv m0 = Map.empty" "hm_count m0 = 0"
    by (rule default_ok)
  have "hm_count m0 + length (concat (hm_nodes m)) \<le> 2 ^ 58"
    using few by (simp only: hm_count_def [symmetric] m0(4) add_0)
  with insert_or_assign_all_ok [OF m0(2) hm_entries(3) [OF ok]]
  obtain m' where m': "insert_all (HashMap_insert_or_assign h e) m0 (concat (hm_nodes m)) = returns m'" "hm_ok norm adm hv m'"
    "hm_lookup norm hv m' = hm_lookup norm hv m0 ++ map_of (rev (normed norm (concat (hm_nodes m))))"
    by blast
  have "map_of (rev (normed norm (concat (hm_nodes m)))) = hm_lookup norm hv m"
    using hm_entries(1,2) [OF ok] by (simp add: map_of_rev_distinct fst_normed)
  then have look: "hm_lookup norm hv m' = hm_lookup norm hv m"
    by (simp add: m'(3) m0(3))
  have "HashMap_copy h e m = returns m'"
    using m'(1) by (simp add: HashMap_copy_def MergeFrom_def HashMap_entries_eq [OF ok] m0(1))
  then show thesis
    using m'(2) look by (rule that)
qed

text \<open>\<open>m[key] = v\<close>, the subscript followed by an assignment through the reference, is an insertion.\<close>

lemma index_assign_ok:
  fixes m :: "('k, 'v) hash_map"
  assumes ok: "hm_ok norm adm hv m" and key: "adm key" and few: "hm_count m < 2 ^ 58"
  obtains i p m1 where "HashMap_index h e dflt m key = returns ((i, p), m1)"
    "HashMap_insert_or_assign h e m key v = returns ((i, p), assign_at m1 i p v)"
proof -
  obtain m0 c where m0: "RehashIfNecessary (insert_n insert_depth h e) m = returns m0" "hm_ok norm adm hv m0"
    by (rule RehashIfNecessary_ok [OF ok few, of 0]) (simp add: insert_depth_def)
  let ?i = "bucket_of hv m0 (norm key)"
  let ?p = "place norm (norm key) (hm_nodes m0 ! ?i)"
  let ?n = "hm_lookup norm hv m0 (norm key) = None"
  note CL = CreateOrLocateKey_ok [OF m0(2) key m0(1)]
  have "?p = length (hm_nodes m0 ! ?i)" if ?n
    using that by (simp add: hm_lookup_None place_absent)
  then have "assign_at (if ?n then Accept (grow m0) ?i key dflt else m0) ?i ?p v =
      (if ?n then Accept (grow m0) ?i key v else assign_at m0 ?i ?p v)"
    using hm_okD(1) [OF m0(2), of "norm key"] by (simp add: Accept_def assign_at_def put_node_def grow_def)
  then show thesis
    using that [of ?i ?p] by (simp add: HashMap_index_def HashMap_insert_or_assign_def insert_with_def CL split: if_splits)
qed

end

text \<open>A client's history: insertions, erasures and clears, and the finite map it stands for.\<close>

datatype ('k, 'v) map_op = Put 'k 'v | Erase 'k | Clear

fun run_op :: "'k hash_fn \<Rightarrow> 'k eq_fn \<Rightarrow> ('k, 'v) map_op \<Rightarrow> ('k, 'v) hash_map \<Rightarrow> ('k, 'v) hash_map run" where
  "run_op h e (Put k v) m = andthen (HashMap_insert_or_assign h e m k v) (\<lambda>(_, m'). returns m')"
| "run_op h e (Erase k) m = andthen (run_sum (HashMap_erase h e m k)) (\<lambda>(_, m'). returns m')"
| "run_op h e Clear m = returns (HashMap_clear m)"

fun run_ops :: "'k hash_fn \<Rightarrow> 'k eq_fn \<Rightarrow> ('k, 'v) map_op list \<Rightarrow> ('k, 'v) hash_map \<Rightarrow> ('k, 'v) hash_map run" where
  "run_ops h e [] m = returns m"
| "run_ops h e (op # ops) m = andthen (run_op h e op m) (run_ops h e ops)"

fun spec_op :: "('k \<Rightarrow> 'n) \<Rightarrow> ('k, 'v) map_op \<Rightarrow> ('n \<rightharpoonup> 'v) \<Rightarrow> ('n \<rightharpoonup> 'v)" where
  "spec_op norm (Put k v) f = f(norm k \<mapsto> v)"
| "spec_op norm (Erase k) f = f(norm k := None)"
| "spec_op norm Clear f = Map.empty"

fun op_keys :: "('k, 'v) map_op \<Rightarrow> 'k list" where
  "op_keys (Put k v) = [k]"
| "op_keys (Erase k) = [k]"
| "op_keys Clear = []"

context hash_key
begin

lemma run_op_ok:
  fixes m :: "('k, 'v) hash_map"
  assumes ok: "hm_ok norm adm hv m" and few: "hm_count m < 2 ^ 58" and k: "list_all adm (op_keys op)"
  obtains m' where "run_op h e op m = returns m'" "hm_ok norm adm hv m'"
    "hm_lookup norm hv m' = spec_op norm op (hm_lookup norm hv m)" "hm_count m' \<le> Suc (hm_count m)"
proof (cases op)
  case (Put key v)
  with k have "adm key"
    by simp
  then obtain pos m' where "HashMap_insert_or_assign h e m key v = returns (pos, m')" "hm_ok norm adm hv m'"
    "hm_lookup norm hv m' = (hm_lookup norm hv m)(norm key \<mapsto> v)" "hm_count m' \<le> Suc (hm_count m)"
    by (rule insert_or_assign_ok [OF ok _ few])
  then show ?thesis
    using that [of m'] Put by simp
next
  case (Erase key)
  with k have "adm key"
    by simp
  then obtain m' where "HashMap_erase h e m key = Inr (if norm key \<in> dom (hm_lookup norm hv m) then 1 else 0, m')"
    "hm_ok norm adm hv m'" "hm_lookup norm hv m' = (hm_lookup norm hv m)(norm key := None)" "hm_count m' \<le> hm_count m"
    by (rule erase_ok [OF ok])
  then show ?thesis
    using that [of m'] Erase by simp
next
  case Clear
  then show ?thesis
    using that [of "HashMap_clear m"] clear_ok [OF ok] by simp
qed

lemma run_ops_ok:
  fixes m :: "('k, 'v) hash_map"
  assumes "hm_ok norm adm hv m" "hm_count m + length ops \<le> 2 ^ 58" "\<And>op. op \<in> set ops \<Longrightarrow> list_all adm (op_keys op)"
  shows "\<exists>m'. run_ops h e ops m = returns m' \<and> hm_ok norm adm hv m' \<and>
    hm_lookup norm hv m' = fold (spec_op norm) ops (hm_lookup norm hv m)"
  using assms
proof (induction ops arbitrary: m)
  case (Cons op ops)
  obtain m' where m': "run_op h e op m = returns m'" "hm_ok norm adm hv m'"
    "hm_lookup norm hv m' = spec_op norm op (hm_lookup norm hv m)" "hm_count m' \<le> Suc (hm_count m)"
    using Cons.prems by (rule_tac run_op_ok [of m op]) auto
  then show ?case
    using Cons.IH [OF m'(2)] Cons.prems(2,3) by auto
qed simp

end

end
