(* ===== verification/Http_Headers.thy ===== *)
theory Http_Headers
  imports Flare_String Hash_Map
begin

unbundle bit_operations_syntax

section \<open>HTTP header fields\<close>

text \<open>
  The case-insensitive hash map (flare/base/internal/case_insensitive_hash_map.h) and the header
  collection built on it (flare/net/http/http_headers.{h,cc}): a vector of fields in order of
  arrival and an index from field name to the first field of that name. Views into the header
  block or the owning strings are strings here, as neither is changed while a field refers to it. The table lookup with a
  negative \<open>char\<close> is undefined, so only ASCII names are looked up safely.

  The collection refines a plain list of fields (\<open>HttpHeaders_refines\<close>).
\<close>

subsection \<open>Names without case\<close>

definition ci_kLowerChars :: "nat \<Rightarrow> char" where
  "ci_kLowerChars index =
     (if index \<ge> code (CHR ''A'') \<and> index \<le> code (CHR ''Z'') then char_of (index - code (CHR ''A'') + code (CHR ''a''))
      else char_of index)"

definition ci_ToLower :: "char \<Rightarrow> fault + char" where
  "ci_ToLower c = (if code c < 128 then Inr (ci_kLowerChars (code c)) else Inl Undefined)"

fun ci_hash_loop :: "u64 \<Rightarrow> string \<Rightarrow> fault + u64" where
  "ci_hash_loop hash [] = Inr hash"
| "ci_hash_loop hash (c # s) =
     sthen (ci_ToLower c) (\<lambda>l. ci_hash_loop (hash + ((push_bit 5 hash + hash) + word_of_nat (code l))) s)"

definition CaseInsensitiveHash :: "string \<Rightarrow> fault + u64" where
  "CaseInsensitiveHash s = ci_hash_loop 5381 s"

fun ci_equal_loop :: "string \<Rightarrow> string \<Rightarrow> fault + bool" where
  "ci_equal_loop (a # x) (b # y) =
     sthen (ci_ToLower a) (\<lambda>p. sthen (ci_ToLower b) (\<lambda>q. if p \<noteq> q then Inr False else ci_equal_loop x y))"
| "ci_equal_loop _ _ = Inr True"

definition CaseInsensitiveEqualTo :: "string \<Rightarrow> string \<Rightarrow> fault + bool" where
  "CaseInsensitiveEqualTo x y = (if length x \<noteq> length y then Inr False else ci_equal_loop x y)"

subsection \<open>The collection\<close>

type_synonym http_fields = "(string \<times> string) list"

record http_headers =
  header_block :: string
  owning_strs_2 :: "string list"
  header_idx :: "(string, u64) hash_map"
  hdr_fields :: http_fields

definition HttpHeaders :: "fault + http_headers" where
  "HttpHeaders =
     sthen HashMap_default (\<lambda>m. Inr \<lparr>header_block = [], owning_strs_2 = [], header_idx = m, hdr_fields = []\<rparr>)"

definition idx_contains :: "(string, u64) hash_map \<Rightarrow> string \<Rightarrow> fault + bool" where
  "idx_contains m k = HashMap_contains CaseInsensitiveHash CaseInsensitiveEqualTo m k"

text \<open>\<open>header_idx_[k] = i\<close>.\<close>

definition idx_assign :: "(string, u64) hash_map \<Rightarrow> string \<Rightarrow> u64 \<Rightarrow> (string, u64) hash_map run" where
  "idx_assign m k i =
     andthen (HashMap_index CaseInsensitiveHash CaseInsensitiveEqualTo 0 m k) (\<lambda>((b, p), m').
       returns (assign_at m' b p i))"

text \<open>\<open>if (!header_idx_.contains(k)) header_idx_[k] = i\<close>.\<close>

definition idx_add_first :: "(string, u64) hash_map \<Rightarrow> string \<Rightarrow> u64 \<Rightarrow> (string, u64) hash_map run" where
  "idx_add_first m k i =
     andthen (run_sum (idx_contains m k)) (\<lambda>found. if \<not> found then idx_assign m k i else returns m)"

definition HttpHeaders_contains :: "http_headers \<Rightarrow> string \<Rightarrow> fault + bool" where
  "HttpHeaders_contains hs key = idx_contains (header_idx hs) key"

definition HttpHeaders_clear :: "http_headers \<Rightarrow> http_headers" where
  "HttpHeaders_clear hs =
     \<lparr>header_block = [], owning_strs_2 = [], header_idx = HashMap_clear (header_idx hs), hdr_fields = []\<rparr>"

definition idx_TryGet :: "http_headers \<Rightarrow> string \<Rightarrow> fault + u64 option" where
  "idx_TryGet hs key = HashMap_TryGet CaseInsensitiveHash CaseInsensitiveEqualTo (header_idx hs) key"

definition HttpHeaders_TryGet :: "http_headers \<Rightarrow> string \<Rightarrow> fault + string option" where
  "HttpHeaders_TryGet hs key =
     sthen (idx_TryGet hs key) (\<lambda>idx_opt.
       case idx_opt of
         None \<Rightarrow> Inr None
       | Some i \<Rightarrow> if unat i < length (hdr_fields hs) then Inr (Some (snd (hdr_fields hs ! unat i))) else Inl Undefined)"

text \<open>\<open>TryGet<T>\<close>, with the parser for \<open>T\<close>.\<close>

definition HttpHeaders_TryGet_as :: "(string \<Rightarrow> 'a option) \<Rightarrow> http_headers \<Rightarrow> string \<Rightarrow> fault + 'a option" where
  "HttpHeaders_TryGet_as parse hs key =
     sthen (HttpHeaders_TryGet hs key) (\<lambda>p. case p of Some v \<Rightarrow> Inr (parse v) | None \<Rightarrow> Inr None)"

fun get_multiple :: "http_fields \<Rightarrow> string \<Rightarrow> fault + string list" where
  "get_multiple [] key = Inr []"
| "get_multiple ((k, v) # fs) key =
     sthen (CaseInsensitiveEqualTo k key) (\<lambda>eq.
     sthen (get_multiple fs key) (\<lambda>values. Inr (if eq then v # values else values)))"

definition HttpHeaders_TryGetMultiple :: "http_headers \<Rightarrow> string \<Rightarrow> fault + string list" where
  "HttpHeaders_TryGetMultiple hs key = get_multiple (hdr_fields hs) key"

definition HttpHeaders_Append :: "http_headers \<Rightarrow> string \<Rightarrow> string \<Rightarrow> http_headers run" where
  "HttpHeaders_Append hs key value =
     (if Trim key \<noteq> key then fails Assertion
      else if Trim value \<noteq> value then fails Assertion
      else
        andthen (idx_add_first (header_idx hs) key (word_of_nat (length (hdr_fields hs)))) (\<lambda>m.
          returns (hs\<lparr>owning_strs_2 := owning_strs_2 hs @ [key, value], header_idx := m, hdr_fields := hdr_fields hs @ [(key, value)]\<rparr>)))"

definition HttpHeaders_Set :: "http_headers \<Rightarrow> string \<Rightarrow> string \<Rightarrow> http_headers run" where
  "HttpHeaders_Set hs key value =
     (if Trim key \<noteq> key then fails Assertion
      else if Trim value \<noteq> value then fails Assertion
      else
        andthen (run_sum (idx_TryGet hs key)) (\<lambda>idx_opt.
          case idx_opt of
            None \<Rightarrow> HttpHeaders_Append hs key value
          | Some i \<Rightarrow>
              if unat i < length (hdr_fields hs) then
                returns (hs\<lparr>owning_strs_2 := owning_strs_2 hs @ [value],
                            hdr_fields := (hdr_fields hs)[unat i := (fst (hdr_fields hs ! unat i), value)]\<rparr>)
              else fails Undefined))"

fun HttpHeaders_Append_list :: "http_headers \<Rightarrow> http_fields \<Rightarrow> http_headers run" where
  "HttpHeaders_Append_list hs [] = returns hs"
| "HttpHeaders_Append_list hs ((k, v) # fs) = andthen (HttpHeaders_Append hs k v) (\<lambda>hs'. HttpHeaders_Append_list hs' fs)"

text \<open>The loop of \<open>Remove\<close>: the fields kept and the index rebuilt for them; \<open>i\<close> counts those kept.\<close>

fun Remove_loop :: "string \<Rightarrow> http_fields \<Rightarrow> u64 \<Rightarrow> (string, u64) hash_map \<Rightarrow> (http_fields \<times> (string, u64) hash_map) run" where
  "Remove_loop key [] i m = returns ([], m)"
| "Remove_loop key ((k, v) # fs) i m =
     andthen (run_sum (CaseInsensitiveEqualTo k key)) (\<lambda>eq.
       if eq then Remove_loop key fs i m
       else
         andthen (idx_add_first m k i) (\<lambda>m'.
         andthen (Remove_loop key fs (i + 1) m') (\<lambda>(kept, m'').
           returns ((k, v) # kept, m''))))"

definition HttpHeaders_Remove :: "http_headers \<Rightarrow> string \<Rightarrow> (bool \<times> http_headers) run" where
  "HttpHeaders_Remove hs key =
     andthen (run_sum (HttpHeaders_TryGet hs key)) (\<lambda>v.
       if v = None then returns (False, hs)
       else
         andthen (Remove_loop key (hdr_fields hs) 0 (HashMap_clear (header_idx hs))) (\<lambda>(kept, m).
           returns (True, hs\<lparr>hdr_fields := kept, header_idx := m\<rparr>)))"

definition HttpHeaders_ToString :: "http_headers \<Rightarrow> string" where
  "HttpHeaders_ToString hs = concat (map (\<lambda>(k, v). k @ '': '' @ v @ [CHR 0x0D, CHR 0x0A]) (hdr_fields hs))"

definition HttpHeaders_copy :: "http_headers \<Rightarrow> http_headers run" where
  "HttpHeaders_copy other = andthen (run_sum HttpHeaders) (\<lambda>hs. HttpHeaders_Append_list hs (hdr_fields other))"

definition HttpHeaders_copy_assign :: "bool \<Rightarrow> http_headers \<Rightarrow> http_headers \<Rightarrow> http_headers run" where
  "HttpHeaders_copy_assign same this other = (if same then returns this else HttpHeaders_copy other)"

definition RetrieveHeaderStorage :: "http_headers \<Rightarrow> string \<Rightarrow> string \<times> http_headers" where
  "RetrieveHeaderStorage hs s =
     (s, hs\<lparr>owning_strs_2 := [], header_idx := HashMap_clear (header_idx hs), header_block := s\<rparr>)"

fun index_fields :: "http_fields \<Rightarrow> u64 \<Rightarrow> (string, u64) hash_map \<Rightarrow> (string, u64) hash_map run" where
  "index_fields [] index m = returns m"
| "index_fields ((k, v) # fs) index m = andthen (idx_add_first m k index) (index_fields fs (index + 1))"

definition RetrieveFields :: "http_headers \<Rightarrow> http_fields \<Rightarrow> http_headers run" where
  "RetrieveFields hs fs =
     andthen (index_fields fs 0 (header_idx hs)) (\<lambda>m. returns (hs\<lparr>hdr_fields := fs, header_idx := m\<rparr>))"

subsection \<open>The index\<close>

fun ci_hash :: "u64 \<Rightarrow> string \<Rightarrow> u64" where
  "ci_hash hash [] = hash"
| "ci_hash hash (c # s) = ci_hash (hash + ((push_bit 5 hash + hash) + word_of_nat (code c))) s"

lemma ci_ToLower_eq: "ci_ToLower = ToLower_char"
  by (simp add: fun_eq_iff ci_ToLower_def ToLower_char_def ci_kLowerChars_def kLowerChars_def)

lemma lower_Cons: "lower (c # s) = kLowerChars (code c) # lower s"
  by (simp add: lower_def)

interpretation ci: hash_key CaseInsensitiveHash CaseInsensitiveEqualTo lower ascii "ci_hash 5381"
proof
  have "ci_hash_loop hash k = Inr (ci_hash hash (lower k))" if "ascii k" for hash k
    using that by (induction hash k rule: ci_hash_loop.induct)
      (auto simp: ascii_def ci_ToLower_eq ToLower_char_def lower_Cons, simp add: lower_def)
  then show "CaseInsensitiveHash k = Inr (ci_hash 5381 (lower k))" if "ascii k" for k
    using that by (simp add: CaseInsensitiveHash_def)
  have "ci_equal_loop a b = Inr (lower a = lower b)" if "length a = length b" "ascii a" "ascii b" for a b
    using that by (induction a b rule: list_induct2) (auto simp: ascii_def ci_ToLower_eq ToLower_char_def lower_def)
  moreover have "lower a \<noteq> lower b" if "length a \<noteq> length b" for a b
    using that by (metis lower_def length_map)
  ultimately show "CaseInsensitiveEqualTo a b = Inr (lower a = lower b)" if "ascii a" "ascii b" for a b
    using that by (simp add: CaseInsensitiveEqualTo_def)
qed


text \<open>The index of a list of fields: every name maps to the position of its first field.\<close>

definition idx_of :: "http_fields \<Rightarrow> string \<rightharpoonup> u64" where
  "idx_of fs n = (if n \<in> set (norms lower fs) then Some (word_of_nat (place lower n fs)) else None)"

definition idx_ok :: "(string, u64) hash_map \<Rightarrow> http_fields \<Rightarrow> bool" where
  "idx_ok m fs \<longleftrightarrow> hm_ok lower ascii (ci_hash 5381) m \<and> hm_lookup lower (ci_hash 5381) m = idx_of fs \<and>
     (\<forall>k \<in> fst ` set fs. ascii k) \<and> length fs < 2 ^ 58"

definition headers_ok :: "http_headers \<Rightarrow> bool" where
  "headers_ok hs \<longleftrightarrow> idx_ok (header_idx hs) (hdr_fields hs)"

lemma place_append:
  "place norm n (a @ b) = (if n \<in> set (norms norm a) then place norm n a else length a + place norm n b)"
  by (induction a) (auto split: if_splits)

lemma idx_of_snoc:
  "idx_of (fs @ [(k, v)]) = (if lower k \<in> set (norms lower fs) then idx_of fs else (idx_of fs)(lower k \<mapsto> word_of_nat (length fs)))"
  by (auto simp: idx_of_def fun_eq_iff place_append)

lemma dom_idx_of: "dom (idx_of fs) = set (norms lower fs)"
  by (auto simp: idx_of_def dom_def)

lemma idx_okD:
  assumes "idx_ok m fs"
  shows "hm_ok lower ascii (ci_hash 5381) m" "hm_lookup lower (ci_hash 5381) m = idx_of fs"
    "k \<in> fst ` set fs \<Longrightarrow> ascii k" "length fs < 2 ^ 58" "hm_count m \<le> length fs"
proof -
  show ok: "hm_ok lower ascii (ci_hash 5381) m" and look: "hm_lookup lower (ci_hash 5381) m = idx_of fs"
    and "k \<in> fst ` set fs \<Longrightarrow> ascii k" and "length fs < 2 ^ 58"
    using assms unfolding idx_ok_def by blast+
  show "hm_count m \<le> length fs"
    unfolding hm_count_eq [OF ok] look dom_idx_of using card_length [of "norms lower fs"] by simp
qed

lemma idx_add_first_ok:
  assumes m: "idx_ok m fs" and k: "ascii k" and len: "Suc (length fs) < 2 ^ 58"
  obtains m' where "idx_add_first m k (word_of_nat (length fs)) = returns m'" "\<And>v. idx_ok m' (fs @ [(k, v)])"
proof -
  note ok = idx_okD [OF m]
  have cont: "idx_contains m k = Inr (lower k \<in> set (norms lower fs))"
    using ci.find_ok [OF ok(1) k] by (simp add: idx_contains_def ok(2) dom_idx_of)
  show thesis
  proof (cases "lower k \<in> set (norms lower fs)")
    case True
    then show thesis
      using that [of m] m k len by (simp add: idx_add_first_def cont idx_ok_def idx_of_snoc)
  next
    case False
    have few: "hm_count m < 2 ^ 58"
      using ok(4,5) by simp
    obtain pos m' where m': "HashMap_insert_or_assign CaseInsensitiveHash CaseInsensitiveEqualTo m k (word_of_nat (length fs)) = returns (pos, m')"
      "hm_ok lower ascii (ci_hash 5381) m'"
      "hm_lookup lower (ci_hash 5381) m' = (hm_lookup lower (ci_hash 5381) m)(lower k \<mapsto> word_of_nat (length fs))"
      by (rule ci.insert_or_assign_ok [OF ok(1) k few])
    obtain b p m1 where "HashMap_index CaseInsensitiveHash CaseInsensitiveEqualTo 0 m k = returns ((b, p), m1)"
      "HashMap_insert_or_assign CaseInsensitiveHash CaseInsensitiveEqualTo m k (word_of_nat (length fs)) =
         returns ((b, p), assign_at m1 b p (word_of_nat (length fs)))"
      by (rule ci.index_assign_ok [OF ok(1) k few])
    then have "idx_assign m k (word_of_nat (length fs)) = returns m'"
      using m'(1) by (simp add: idx_assign_def)
    then show thesis
      using that [of m'] False m' ok k len by (simp add: idx_add_first_def cont idx_ok_def idx_of_snoc)
  qed
qed

lemma index_fields_ok:
  assumes "idx_ok m fs" "\<And>k. k \<in> fst ` set gs \<Longrightarrow> ascii k" "length fs + length gs < 2 ^ 58"
  shows "\<exists>m'. index_fields gs (word_of_nat (length fs)) m = returns m' \<and> idx_ok m' (fs @ gs)"
  using assms
proof (induction gs arbitrary: fs m)
  case (Cons kv gs)
  obtain k v where kv: "kv = (k, v)"
    by (cases kv)
  have "ascii k" "Suc (length fs) < 2 ^ 58"
    using Cons.prems kv by simp_all
  then obtain m' where m': "idx_add_first m k (word_of_nat (length fs)) = returns m'" "\<And>v. idx_ok m' (fs @ [(k, v)])"
    using idx_add_first_ok [OF Cons.prems(1)] by metis
  have "\<exists>m''. index_fields gs (word_of_nat (length (fs @ [(k, v)]))) m' = returns m'' \<and> idx_ok m'' ((fs @ [(k, v)]) @ gs)"
    using Cons.prems(2,3) by (intro Cons.IH [OF m'(2)]) auto
  then show ?case
    using m'(1) kv by (simp add: add.commute)
qed simp

lemma idx_ok_clear: "idx_ok m fs \<Longrightarrow> idx_ok (HashMap_clear m) []"
  using ci.clear_ok by (auto simp: idx_ok_def idx_of_def fun_eq_iff)

lemma Remove_loop_ok:
  assumes "idx_ok m kept" "ascii key" "\<And>k. k \<in> fst ` set gs \<Longrightarrow> ascii k" "length kept + length gs < 2 ^ 58"
  shows "\<exists>m'. Remove_loop key gs (word_of_nat (length kept)) m = returns (filter (\<lambda>(k, v). lower k \<noteq> lower key) gs, m') \<and>
    idx_ok m' (kept @ filter (\<lambda>(k, v). lower k \<noteq> lower key) gs)"
  using assms
proof (induction gs arbitrary: kept m)
  case (Cons kv gs)
  obtain k v where kv: "kv = (k, v)"
    by (cases kv)
  have k: "ascii k" "Suc (length kept) < 2 ^ 58"
    using Cons.prems kv by simp_all
  show ?case
  proof (cases "lower k = lower key")
    case True
    then show ?thesis
      using Cons.IH [OF Cons.prems(1,2)] Cons.prems(3,4) k kv by (simp add: ci.eq_ok [OF k(1) Cons.prems(2)])
  next
    case False
    obtain m' where m': "idx_add_first m k (word_of_nat (length kept)) = returns m'" "\<And>v. idx_ok m' (kept @ [(k, v)])"
      using idx_add_first_ok [OF Cons.prems(1) k] by metis
    have "\<exists>m''. Remove_loop key gs (word_of_nat (length (kept @ [(k, v)]))) m' = returns (filter (\<lambda>(k, v). lower k \<noteq> lower key) gs, m'') \<and>
        idx_ok m'' ((kept @ [(k, v)]) @ filter (\<lambda>(k, v). lower k \<noteq> lower key) gs)"
      using Cons.prems(3,4) by (intro Cons.IH [OF m'(2) Cons.prems(2)]) auto
    then show ?thesis
      using m'(1) kv False by (auto simp: ci.eq_ok [OF k(1) Cons.prems(2)] add.commute)
  qed
qed simp


subsection \<open>Refinement of a list of fields\<close>

lemma get_multiple_ok:
  "ascii key \<Longrightarrow> (\<And>k. k \<in> fst ` set fs \<Longrightarrow> ascii k) \<Longrightarrow>
   get_multiple fs key = Inr (map snd (filter (\<lambda>(k, v). lower k = lower key) fs))"
  by (induction fs) (auto simp: ci.eq_ok)

lemma snd_place: "n \<in> set (norms norm b) \<Longrightarrow> map_of (normed norm b) n = Some (snd (b ! place norm n b))"
  by (induction b) auto

lemma TryGet_fields:
  assumes ok: "headers_ok hs" and key: "ascii key"
  shows "HttpHeaders_TryGet hs key = Inr (map_of (normed lower (hdr_fields hs)) (lower key))"
proof -
  note i = idx_okD [OF ok [unfolded headers_ok_def]]
  have get: "idx_TryGet hs key = Inr (idx_of (hdr_fields hs) (lower key))"
    using ci.TryGet_ok [OF i(1) key] by (simp add: idx_TryGet_def i(2))
  show ?thesis
  proof (cases "lower key \<in> set (norms lower (hdr_fields hs))")
    case True
    then have less: "place lower (lower key) (hdr_fields hs) < length (hdr_fields hs)"
      by (simp add: place_less)
    then have "unat (word_of_nat (place lower (lower key) (hdr_fields hs)) :: u64) = place lower (lower key) (hdr_fields hs)"
      using i(4) by (intro unat_word_of_small) simp
    then show ?thesis
      using True less by (simp add: HttpHeaders_TryGet_def get idx_of_def snd_place)
  next
    case False
    then show ?thesis
      by (simp add: HttpHeaders_TryGet_def get idx_of_def map_of_normed_None [THEN iffD2])
  qed
qed

lemma Append_ok:
  assumes ok: "headers_ok hs" and k: "ascii key" "Trim key = key" "Trim v = v" and len: "Suc (length (hdr_fields hs)) < 2 ^ 58"
  obtains hs' where "HttpHeaders_Append hs key v = returns hs'" "headers_ok hs'" "hdr_fields hs' = hdr_fields hs @ [(key, v)]"
proof -
  obtain m' where "idx_add_first (header_idx hs) key (word_of_nat (length (hdr_fields hs))) = returns m'"
    "\<And>v. idx_ok m' (hdr_fields hs @ [(key, v)])"
    using idx_add_first_ok [OF ok [unfolded headers_ok_def] k(1) len] by metis
  then show thesis
    using that k by (simp add: HttpHeaders_Append_def headers_ok_def)
qed

lemma idx_ok_cong:
  assumes eq: "map fst fs = map fst gs"
  shows "idx_ok m fs \<longleftrightarrow> idx_ok m gs"
proof -
  have "norms lower fs = norms lower gs"
    using eq by (metis norms_def map_map)
  then have "idx_of fs = idx_of gs"
    by (simp add: idx_of_def fun_eq_iff place_def)
  moreover have "fst ` set fs = fst ` set gs" "length fs = length gs"
    using eq by (metis set_map, metis length_map)
  ultimately show ?thesis
    unfolding idx_ok_def by (simp only:)
qed

lemma Set_ok:
  assumes ok: "headers_ok hs" and k: "ascii key" "Trim key = key" "Trim v = v" and len: "Suc (length (hdr_fields hs)) < 2 ^ 58"
  obtains hs' where "HttpHeaders_Set hs key v = returns hs'" "headers_ok hs'" "hdr_fields hs' = bucket_put lower key v (hdr_fields hs)"
proof -
  note i = idx_okD [OF ok [unfolded headers_ok_def]]
  have get: "idx_TryGet hs key = Inr (idx_of (hdr_fields hs) (lower key))"
    using ci.TryGet_ok [OF i(1) k(1)] by (simp add: idx_TryGet_def i(2))
  show thesis
  proof (cases "lower key \<in> set (norms lower (hdr_fields hs))")
    case True
    let ?p = "place lower (lower key) (hdr_fields hs)"
    let ?hs = "hs\<lparr>owning_strs_2 := owning_strs_2 hs @ [v], hdr_fields := bucket_put lower key v (hdr_fields hs)\<rparr>"
    have less: "?p < length (hdr_fields hs)"
      using True by (simp add: place_less)
    then have "unat (word_of_nat ?p :: u64) = ?p"
      using i(4) by (intro unat_word_of_small) simp
    then have "HttpHeaders_Set hs key v = returns ?hs"
      using k True less by (simp add: HttpHeaders_Set_def get idx_of_def bucket_put_def Let_def)
    moreover have "map fst (bucket_put lower key v (hdr_fields hs)) = map fst (hdr_fields hs)"
      using True by (simp add: fst_bucket_put)
    then have "headers_ok ?hs"
      using ok by (simp add: headers_ok_def idx_ok_cong [of "bucket_put lower key v (hdr_fields hs)" "hdr_fields hs"])
    ultimately show thesis
      by (intro that [of ?hs]) simp_all
  next
    case False
    then have eqs: "HttpHeaders_Set hs key v = HttpHeaders_Append hs key v"
        "bucket_put lower key v (hdr_fields hs) = hdr_fields hs @ [(key, v)]"
      using k by (simp_all add: HttpHeaders_Set_def get idx_of_def bucket_put_def place_absent)
    obtain hs' where "HttpHeaders_Append hs key v = returns hs'" "headers_ok hs'" "hdr_fields hs' = hdr_fields hs @ [(key, v)]"
      by (rule Append_ok [OF ok k len])
    then show thesis
      by (intro that [of hs']) (simp_all only: eqs)
  qed
qed

lemma Remove_ok:
  assumes ok: "headers_ok hs" and k: "ascii key"
  obtains hs' where "HttpHeaders_Remove hs key = returns (lower key \<in> set (norms lower (hdr_fields hs)), hs')" "headers_ok hs'"
    "hdr_fields hs' = filter (\<lambda>(k, v). lower k \<noteq> lower key) (hdr_fields hs)"
proof -
  note i = idx_okD [OF ok [unfolded headers_ok_def]]
  have get: "HttpHeaders_TryGet hs key = Inr (map_of (normed lower (hdr_fields hs)) (lower key))"
    by (rule TryGet_fields [OF ok k])
  show thesis
  proof (cases "lower key \<in> set (norms lower (hdr_fields hs))")
    case True
    have "\<exists>m'. Remove_loop key (hdr_fields hs) (word_of_nat (length ([] :: http_fields))) (HashMap_clear (header_idx hs)) =
        returns (filter (\<lambda>(k, v). lower k \<noteq> lower key) (hdr_fields hs), m') \<and>
        idx_ok m' ([] @ filter (\<lambda>(k, v). lower k \<noteq> lower key) (hdr_fields hs))"
      by (rule Remove_loop_ok [OF idx_ok_clear [OF ok [unfolded headers_ok_def]] k i(3)]) (use i(4) in simp_all)
    then obtain m' where "Remove_loop key (hdr_fields hs) 0 (HashMap_clear (header_idx hs)) =
        returns (filter (\<lambda>(k, v). lower k \<noteq> lower key) (hdr_fields hs), m')"
      "idx_ok m' (filter (\<lambda>(k, v). lower k \<noteq> lower key) (hdr_fields hs))"
      by auto
    moreover have "map_of (normed lower (hdr_fields hs)) (lower key) \<noteq> None"
      using True by (simp add: map_of_normed_None)
    ultimately show thesis
      using True that by (simp add: HttpHeaders_Remove_def get headers_ok_def)
  next
    case False
    then have "filter (\<lambda>(k, v). lower k \<noteq> lower key) (hdr_fields hs) = hdr_fields hs"
      by (intro filter_True) (force simp: norms_def)
    moreover have "map_of (normed lower (hdr_fields hs)) (lower key) = None"
      using False by (simp add: map_of_normed_None)
    ultimately show thesis
      using False that [of hs] ok by (simp add: HttpHeaders_Remove_def get)
  qed
qed


text \<open>Edits of a collection and what they do to the list of fields.\<close>

datatype hdr_op = Hdr_append string string | Hdr_set string string | Hdr_remove string

fun run_hdr :: "hdr_op \<Rightarrow> http_headers \<Rightarrow> http_headers run" where
  "run_hdr (Hdr_append k v) hs = HttpHeaders_Append hs k v"
| "run_hdr (Hdr_set k v) hs = HttpHeaders_Set hs k v"
| "run_hdr (Hdr_remove k) hs = andthen (HttpHeaders_Remove hs k) (\<lambda>(_, hs'). returns hs')"

fun run_hdrs :: "hdr_op list \<Rightarrow> http_headers \<Rightarrow> http_headers run" where
  "run_hdrs [] hs = returns hs"
| "run_hdrs (op # ops) hs = andthen (run_hdr op hs) (run_hdrs ops)"

fun spec_hdr :: "hdr_op \<Rightarrow> http_fields \<Rightarrow> http_fields" where
  "spec_hdr (Hdr_append k v) fs = fs @ [(k, v)]"
| "spec_hdr (Hdr_set k v) fs = bucket_put lower k v fs"
| "spec_hdr (Hdr_remove k) fs = filter (\<lambda>(k', v). lower k' \<noteq> lower k) fs"

fun hdr_fine :: "hdr_op \<Rightarrow> bool" where
  "hdr_fine (Hdr_append k v) \<longleftrightarrow> ascii k \<and> Trim k = k \<and> Trim v = v"
| "hdr_fine (Hdr_set k v) \<longleftrightarrow> ascii k \<and> Trim k = k \<and> Trim v = v"
| "hdr_fine (Hdr_remove k) \<longleftrightarrow> ascii k"

lemma run_hdr_ok:
  assumes ok: "headers_ok hs" and len: "Suc (length (hdr_fields hs)) < 2 ^ 58" and fine: "hdr_fine op"
  obtains hs' where "run_hdr op hs = returns hs'" "headers_ok hs'" "hdr_fields hs' = spec_hdr op (hdr_fields hs)"
proof (cases op)
  case (Hdr_append k v)
  with fine have k: "ascii k" "Trim k = k" "Trim v = v"
    by simp_all
  show ?thesis
    by (rule Append_ok [OF ok k len]) (use that Hdr_append in simp)
next
  case (Hdr_set k v)
  with fine have k: "ascii k" "Trim k = k" "Trim v = v"
    by simp_all
  show ?thesis
    by (rule Set_ok [OF ok k len]) (use that Hdr_set in simp)
next
  case (Hdr_remove k)
  with fine have k: "ascii k"
    by simp
  show ?thesis
    by (rule Remove_ok [OF ok k]) (use that Hdr_remove in simp)
qed

lemma length_spec_hdr: "length (spec_hdr op fs) \<le> Suc (length fs)"
proof (cases op)
  case (Hdr_set k v)
  then show ?thesis
    using arg_cong [OF fst_bucket_put, of length lower k v fs] by (simp split: if_splits)
qed (simp_all add: le_SucI)

lemma run_hdrs_ok:
  assumes "headers_ok hs" "length (hdr_fields hs) + length ops < 2 ^ 58" "list_all hdr_fine ops"
  shows "\<exists>hs'. run_hdrs ops hs = returns hs' \<and> headers_ok hs' \<and> hdr_fields hs' = fold spec_hdr ops (hdr_fields hs)"
  using assms
proof (induction ops arbitrary: hs)
  case (Cons op ops)
  have "Suc (length (hdr_fields hs)) < 2 ^ 58" "hdr_fine op"
    using Cons.prems(2,3) by simp_all
  then obtain hs' where hs': "run_hdr op hs = returns hs'" "headers_ok hs'" "hdr_fields hs' = spec_hdr op (hdr_fields hs)"
    by (rule run_hdr_ok [OF Cons.prems(1)])
  then show ?case
    using Cons.IH [OF hs'(2)] Cons.prems(2,3) length_spec_hdr [of op "hdr_fields hs"] by simp
qed simp

lemma HttpHeaders_new:
  obtains hs where "HttpHeaders = Inr hs" "headers_ok hs" "hdr_fields hs = []"
proof -
  obtain m :: "(string, u64) hash_map" where m: "HashMap_default = Inr m" "hm_ok lower ascii (ci_hash 5381) m"
    "hm_lookup lower (ci_hash 5381) m = Map.empty" "hm_count m = 0"
    by (rule ci.default_ok)
  show thesis
    by (rule that [OF HttpHeaders_def [unfolded m(1) sthen_simps]])
      (simp_all add: headers_ok_def idx_ok_def idx_of_def m(2,3) fun_eq_iff)
qed

text \<open>Claim C32. Every sequence of fewer than 2^58 appends, sets and removals, with ASCII names and with names and
  values free of surrounding whitespace, succeeds on a new collection. It leaves exactly the fields
  of a plain list under the same edits, and for every ASCII name \<open>TryGet\<close> gives the value of the first field of
  that name up to case and \<open>TryGetMultiple\<close> all of them in order.\<close>

theorem HttpHeaders_refines:
  assumes "length ops < 2 ^ 58" "list_all hdr_fine ops" "ascii key"
  shows "\<exists>hs. andthen (run_sum HttpHeaders) (run_hdrs ops) = returns hs \<and>
    hdr_fields hs = fold spec_hdr ops [] \<and>
    HttpHeaders_TryGet hs key = Inr (map_of (normed lower (fold spec_hdr ops [])) (lower key)) \<and>
    HttpHeaders_TryGetMultiple hs key = Inr (map snd (filter (\<lambda>(k, v). lower k = lower key) (fold spec_hdr ops [])))"
proof -
  obtain hs0 where hs0: "HttpHeaders = Inr hs0" "headers_ok hs0" "hdr_fields hs0 = []"
    by (rule HttpHeaders_new)
  obtain hs where hs: "run_hdrs ops hs0 = returns hs" "headers_ok hs" "hdr_fields hs = fold spec_hdr ops []"
    using run_hdrs_ok [OF hs0(2) _ assms(2)] assms(1) hs0(3) by auto
  have "HttpHeaders_TryGetMultiple hs key = Inr (map snd (filter (\<lambda>(k, v). lower k = lower key) (hdr_fields hs)))"
    unfolding HttpHeaders_TryGetMultiple_def
    by (rule get_multiple_ok [OF assms(3) idx_okD(3) [OF hs(2) [unfolded headers_ok_def]]])
  then show ?thesis
    using TryGet_fields [OF hs(2) assms(3)] hs by (intro exI [of _ hs]) (simp add: hs0(1))
qed

theorem HttpHeaders_refines_witness:
  "\<exists>hs. andthen (run_sum HttpHeaders) (run_hdrs [Hdr_append ''Host'' ''a'', Hdr_append ''Via'' ''x'', Hdr_set ''HOST'' ''b'', Hdr_remove ''via'']) = returns hs \<and>
    HttpHeaders_TryGet hs ''host'' = Inr (Some ''b'')"
proof -
  let ?ops = "[Hdr_append ''Host'' ''a'', Hdr_append ''Via'' ''x'', Hdr_set ''HOST'' ''b'', Hdr_remove ''via'']"
  have "length ?ops < 2 ^ 58" "list_all hdr_fine ?ops" "ascii ''host''"
    by (simp, code_simp, code_simp)
  from HttpHeaders_refines [OF this] obtain hs where "andthen (run_sum HttpHeaders) (run_hdrs ?ops) = returns hs"
    "HttpHeaders_TryGet hs ''host'' = Inr (map_of (normed lower (fold spec_hdr ?ops [])) (lower ''host''))"
    by blast
  moreover have "map_of (normed lower (fold spec_hdr ?ops [])) (lower ''host'') = Some ''b''"
    by code_simp
  ultimately show ?thesis
    by auto
qed

text \<open>Claim C33. The case-insensitive hash map implements a finite map from names without case: after any sequence of
  at most 2^58 insertions, erasures and clears with ASCII keys, rehashes included, all operations have succeeded and looking
  a key up gives what the last operation on a key equal to it up to case left there.\<close>

theorem HashMap_refines:
  assumes "length ops \<le> 2 ^ 58" "list_all (\<lambda>op. list_all ascii (op_keys op)) ops" "ascii key"
  shows "\<exists>m. andthen (run_sum HashMap_default) (run_ops CaseInsensitiveHash CaseInsensitiveEqualTo ops) = returns m \<and>
    HashMap_TryGet CaseInsensitiveHash CaseInsensitiveEqualTo m key = Inr (fold (spec_op lower) ops Map.empty (lower key)) \<and>
    hm_size m = word_of_nat (card (dom (fold (spec_op lower) ops Map.empty)))"
proof -
  obtain m0 :: "(string, 'a) hash_map" where m0: "HashMap_default = Inr m0" "hm_ok lower ascii (ci_hash 5381) m0"
    "hm_lookup lower (ci_hash 5381) m0 = Map.empty" "hm_count m0 = 0"
    by (rule ci.default_ok)
  obtain m where m: "run_ops CaseInsensitiveHash CaseInsensitiveEqualTo ops m0 = returns m"
    "hm_ok lower ascii (ci_hash 5381) m" "hm_lookup lower (ci_hash 5381) m = fold (spec_op lower) ops Map.empty"
    using ci.run_ops_ok [OF m0(2), of ops] assms(1,2) m0(3,4) by (auto simp: list_all_iff)
  show ?thesis
    using ci.TryGet_ok [OF m(2) assms(3)] hm_okD(5) [OF m(2)] hm_count_eq [OF m(2)] m(1,3)
    by (intro exI [of _ m]) (simp add: m0(1))
qed

theorem HashMap_refines_witness:
  "\<exists>m. andthen (run_sum HashMap_default) (run_ops CaseInsensitiveHash CaseInsensitiveEqualTo
      [Put ''A'' (1::nat), Put ''b'' 2, Put ''a'' 3, Erase ''B'']) = returns m \<and>
    HashMap_TryGet CaseInsensitiveHash CaseInsensitiveEqualTo m ''a'' = Inr (Some 3)"
proof -
  let ?ops = "[Put ''A'' (1::nat), Put ''b'' 2, Put ''a'' 3, Erase ''B'']"
  have "length ?ops \<le> 2 ^ 58" "list_all (\<lambda>op. list_all ascii (op_keys op)) ?ops" "ascii ''a''"
    by (simp, code_simp, code_simp)
  from HashMap_refines [OF this] obtain m where
    "andthen (run_sum HashMap_default) (run_ops CaseInsensitiveHash CaseInsensitiveEqualTo ?ops) = returns m"
    "HashMap_TryGet CaseInsensitiveHash CaseInsensitiveEqualTo m ''a'' = Inr (fold (spec_op lower) ?ops Map.empty (lower ''a''))"
    by blast
  moreover have "fold (spec_op lower) ?ops Map.empty (lower ''a'') = Some 3"
    by code_simp
  ultimately show ?thesis
    by auto
qed

end
