(* ===== verification/Buffer.thy ===== *)
theory Buffer
  imports Flare_String
begin

section \<open>Non-contiguous buffers (flare/base/buffer.h, buffer.cc)\<close>

text \<open>
  A \<open>NoncontiguousBuffer\<close> is a chain of \<open>PolymorphicBuffer\<close>s, each a window on an immutable, reference
  counted block. A window is the string it shows, so copies and cuts that share a block are
  equal strings here. The byte count is kept separately in 64 bits, as in the code. \<open>dbg\<close> says whether
  debug assertions are compiled in; reading the front of an empty chain is undefined.

  A builder fills native blocks of \<open>blk\<close> bytes (a command-line flag of the program) and moves them to the
  buffer it builds when they are full. Its copy loop would spin if it were handed a full block, which is
  divergence here; \<open>AppendSlow_ok\<close> shows that it never is.

  The lemmas show that buffers and builders implement byte strings: append, cut and skip are
  concatenation, \<open>take\<close> and \<open>drop\<close>.
\<close>

record nbuffer =
  nb_byte_size :: u64
  nb_buffers :: "string list"

definition nb_new :: nbuffer where
  "nb_new = \<lparr>nb_byte_size = 0, nb_buffers = []\<rparr>"

definition ByteSize :: "nbuffer \<Rightarrow> u64" where
  "ByteSize nb = nb_byte_size nb"

definition nb_Empty :: "bool \<Rightarrow> nbuffer \<Rightarrow> fault + bool" where
  "nb_Empty dbg nb =
     (if dbg \<and> (nb_buffers nb = []) \<noteq> (nb_byte_size nb = 0) then Inl Assertion else Inr (nb_byte_size nb = 0))"

definition FirstContiguous :: "bool \<Rightarrow> nbuffer \<Rightarrow> fault + string" where
  "FirstContiguous dbg nb =
     sthen (if dbg then nb_Empty dbg nb else Inr False) (\<lambda>e.
       if e then Inl Assertion
       else case nb_buffers nb of [] \<Rightarrow> Inl Undefined | b # _ \<Rightarrow> Inr b)"

text \<open>\<open>PolymorphicBuffer::Skip\<close> and \<open>set_size\<close>.\<close>

definition poly_Skip :: "bool \<Rightarrow> nat \<Rightarrow> string \<Rightarrow> fault + string" where
  "poly_Skip dbg bytes b =
     (if dbg \<and> \<not> bytes < length b then Inl Assertion
      else if bytes > length b then Inl Undefined
      else Inr (drop bytes b))"

definition poly_set_size :: "bool \<Rightarrow> nat \<Rightarrow> string \<Rightarrow> fault + string" where
  "poly_set_size dbg sz b =
     (if dbg \<and> \<not> sz \<le> length b then Inl Assertion
      else if sz > length b then Inl Undefined
      else Inr (take sz b))"

function SkipSlow_loop :: "bool \<Rightarrow> nat \<Rightarrow> string list \<Rightarrow> fault + string list" where
  "SkipSlow_loop dbg bytes bs =
     (if bytes = 0 then Inr bs
      else case bs of
        [] \<Rightarrow> Inl Undefined
      | first # rest \<Rightarrow>
          if min bytes (length first) = length first then SkipSlow_loop dbg (bytes - length first) rest
          else sthen (poly_Skip dbg bytes first) (\<lambda>first'. Inr (first' # rest)))"
  by pat_completeness auto
termination by (relation "measure (\<lambda>(dbg, n, bs). length bs)") auto

definition SkipSlow :: "bool \<Rightarrow> nbuffer \<Rightarrow> u64 \<Rightarrow> fault + nbuffer" where
  "SkipSlow dbg nb bytes =
     sthen (SkipSlow_loop dbg (unat bytes) (nb_buffers nb)) (\<lambda>bs.
       Inr \<lparr>nb_byte_size = nb_byte_size nb - bytes, nb_buffers = bs\<rparr>)"

definition nb_Skip :: "bool \<Rightarrow> nbuffer \<Rightarrow> u64 \<Rightarrow> fault + nbuffer" where
  "nb_Skip dbg nb bytes =
     (if dbg \<and> \<not> bytes \<le> ByteSize nb then Inl Assertion
      else if bytes = 0 then Inr nb
      else case nb_buffers nb of
        [] \<Rightarrow> Inl Undefined
      | b # bs \<Rightarrow>
          if unat bytes < length b then
            sthen (poly_Skip dbg (unat bytes) b) (\<lambda>b'.
              Inr \<lparr>nb_byte_size = nb_byte_size nb - bytes, nb_buffers = b' # bs\<rparr>)
          else SkipSlow dbg nb bytes)"

text \<open>The loop of \<open>Cut\<close>: whole blocks are moved to the result while the rest to cut covers them.\<close>

fun Cut_loop :: "nat \<Rightarrow> string list \<Rightarrow> string list \<Rightarrow> fault + (nat \<times> string list \<times> string list)" where
  "Cut_loop left rc [] = (if left = 0 then Inr (left, rc, []) else Inl Undefined)"
| "Cut_loop left rc (b # bs) =
     (if left \<noteq> 0 \<and> left \<ge> length b then Cut_loop (left - length b) (rc @ [b]) bs
      else Inr (left, rc, b # bs))"

definition nb_Cut :: "bool \<Rightarrow> nbuffer \<Rightarrow> u64 \<Rightarrow> fault + (nbuffer \<times> nbuffer)" where
  "nb_Cut dbg nb bytes =
     (if dbg \<and> \<not> bytes \<le> ByteSize nb then Inl Assertion
      else
        sthen (Cut_loop (unat bytes) [] (nb_buffers nb)) (\<lambda>(left, rc, rest).
        sthen (if left \<noteq> 0 then
                 (case rest of
                    [] \<Rightarrow> Inl Undefined
                  | b # bs \<Rightarrow>
                      sthen (poly_set_size dbg left b) (\<lambda>ncb.
                      sthen (poly_Skip dbg left b) (\<lambda>b'. Inr (rc @ [ncb], b' # bs))))
               else Inr (rc, rest)) (\<lambda>(rc', rest').
          Inr (\<lparr>nb_byte_size = bytes, nb_buffers = rc'\<rparr>,
               \<lparr>nb_byte_size = nb_byte_size nb - bytes, nb_buffers = rest'\<rparr>))))"

definition Append_poly :: "nbuffer \<Rightarrow> string \<Rightarrow> nbuffer" where
  "Append_poly nb buffer =
     (if length buffer = 0 then nb
      else \<lparr>nb_byte_size = nb_byte_size nb + word_of_nat (length buffer), nb_buffers = nb_buffers nb @ [buffer]\<rparr>)"

definition Append_nb :: "nbuffer \<Rightarrow> nbuffer \<Rightarrow> nbuffer" where
  "Append_nb nb buffer =
     \<lparr>nb_byte_size = nb_byte_size nb + nb_byte_size buffer, nb_buffers = nb_buffers nb @ nb_buffers buffer\<rparr>"

definition ClearSlow :: "nbuffer \<Rightarrow> nbuffer" where
  "ClearSlow nb = \<lparr>nb_byte_size = 0, nb_buffers = []\<rparr>"

definition nb_Clear :: "bool \<Rightarrow> nbuffer \<Rightarrow> fault + nbuffer" where
  "nb_Clear dbg nb = sthen (nb_Empty dbg nb) (\<lambda>e. Inr (if \<not> e then ClearSlow nb else nb))"

definition nb_copy :: "nbuffer \<Rightarrow> nbuffer" where
  "nb_copy nb = \<lparr>nb_byte_size = nb_byte_size nb, nb_buffers = map (\<lambda>e. e) (nb_buffers nb)\<rparr>"

definition nb_copy_assign :: "bool \<Rightarrow> bool \<Rightarrow> nbuffer \<Rightarrow> nbuffer \<Rightarrow> fault + nbuffer" where
  "nb_copy_assign dbg same this nb =
     (if same then Inr this
      else sthen (nb_Clear dbg this) (\<lambda>c.
        Inr \<lparr>nb_byte_size = nb_byte_size nb, nb_buffers = nb_buffers c @ map (\<lambda>e. e) (nb_buffers nb)\<rparr>))"

text \<open>Moving leaves the source empty; results are the new object and the source.\<close>

definition nb_move :: "nbuffer \<Rightarrow> nbuffer \<times> nbuffer" where
  "nb_move nb = (\<lparr>nb_byte_size = nb_byte_size nb, nb_buffers = nb_buffers nb\<rparr>, \<lparr>nb_byte_size = 0, nb_buffers = []\<rparr>)"

definition nb_move_assign :: "bool \<Rightarrow> bool \<Rightarrow> nbuffer \<Rightarrow> nbuffer \<Rightarrow> fault + (nbuffer \<times> nbuffer)" where
  "nb_move_assign dbg same this nb =
     (if same then Inr (this, nb)
      else sthen (nb_Clear dbg this) (\<lambda>c.
        Inr (\<lparr>nb_byte_size = nb_byte_size nb, nb_buffers = nb_buffers nb\<rparr>, \<lparr>nb_byte_size = nb_byte_size c, nb_buffers = []\<rparr>)))"

subsection \<open>Flattening\<close>

fun FlattenSlow_loop :: "nat \<Rightarrow> string list \<Rightarrow> string" where
  "FlattenSlow_loop left [] = []"
| "FlattenSlow_loop left (b # bs) =
     (if left = 0 then []
      else let len = min left (length b) in take len b @ FlattenSlow_loop (left - len) bs)"

definition FlattenSlow :: "nbuffer \<Rightarrow> u64 \<Rightarrow> string" where
  "FlattenSlow nb max_bytes = FlattenSlow_loop (unat (min max_bytes (ByteSize nb))) (nb_buffers nb)"

fun FlattenSlowUntil_loop :: "string \<Rightarrow> nat \<Rightarrow> string \<Rightarrow> string list \<Rightarrow> string" where
  "FlattenSlowUntil_loop delim max_bytes rc [] = rc"
| "FlattenSlowUntil_loop delim max_bytes rc (b # bs) =
     (if \<not> length rc < max_bytes then rc
      else
        let old_len = length rc; rc' = rc @ b
        in case find_from delim rc' (old_len - min old_len (length delim)) of
             Some pos \<Rightarrow> take (pos + length delim) rc'
           | None \<Rightarrow> FlattenSlowUntil_loop delim max_bytes rc' bs)"

definition FlattenSlowUntil :: "bool \<Rightarrow> nbuffer \<Rightarrow> string \<Rightarrow> u64 \<Rightarrow> fault + string" where
  "FlattenSlowUntil dbg nb delim max_bytes =
     sthen (nb_Empty dbg nb) (\<lambda>e.
       if e then Inr []
       else
         sthen (FirstContiguous dbg nb) (\<lambda>current.
           case find_sub delim current of
             Some pos \<Rightarrow> Inr (take (min (pos + length delim) (unat max_bytes)) current)
           | None \<Rightarrow> Inr (take (unat max_bytes) (FlattenSlowUntil_loop delim (unat max_bytes) [] (nb_buffers nb)))))"

text \<open>Copying into a caller's array of \<open>size\<close> bytes; the result is what the array then holds.\<close>

definition FlattenToSlowSlow :: "nbuffer \<Rightarrow> u64 \<Rightarrow> fault + string" where
  "FlattenToSlowSlow nb sz =
     (if \<not> ByteSize nb \<ge> sz then Inl Assertion else Inr (FlattenSlow_loop (unat sz) (nb_buffers nb)))"

definition FlattenToSlow :: "bool \<Rightarrow> nbuffer \<Rightarrow> u64 \<Rightarrow> fault + string" where
  "FlattenToSlow dbg nb sz = sthen (FirstContiguous dbg nb) (\<lambda>first. FlattenToSlowSlow nb sz)"

subsection \<open>Building\<close>

text \<open>\<open>bd_used\<close> is what the first \<open>used_\<close> bytes of the current block hold; \<open>bd_live\<close> that there is a current block.\<close>

record builder =
  bd_nb :: nbuffer
  bd_used :: string
  bd_live :: bool

definition SizeAvailable :: "nat \<Rightarrow> builder \<Rightarrow> nat" where
  "SizeAvailable blk b = blk - length (bd_used b)"

definition InitializeNextBlock :: "nat \<Rightarrow> builder \<Rightarrow> builder run" where
  "InitializeNextBlock blk b =
     (if bd_live b then (if SizeAvailable blk b = 0 then fails Assertion else returns b)
      else returns (b\<lparr>bd_live := True, bd_used := []\<rparr>))"

definition FlushCurrentBlock :: "builder \<Rightarrow> builder" where
  "FlushCurrentBlock b =
     (if bd_used b = [] then b
      else b\<lparr>bd_nb := Append_poly (bd_nb b) (bd_used b), bd_live := False, bd_used := []\<rparr>)"

definition Builder :: "nat \<Rightarrow> builder run" where
  "Builder blk = InitializeNextBlock blk \<lparr>bd_nb = nb_new, bd_used = [], bd_live = False\<rparr>"

text \<open>\<open>MarkWritten\<close>, given the bytes the caller has put at \<open>data()\<close>.\<close>

definition MarkWritten :: "bool \<Rightarrow> nat \<Rightarrow> builder \<Rightarrow> string \<Rightarrow> builder run" where
  "MarkWritten dbg blk b s =
     (if dbg \<and> \<not> length s \<le> SizeAvailable blk b then fails Assertion
      else if length s > SizeAvailable blk b then fails Undefined
      else
        let b' = b\<lparr>bd_used := bd_used b @ s\<rparr>
        in if SizeAvailable blk b' = 0 then InitializeNextBlock blk (FlushCurrentBlock b') else returns b')"

definition builder_ByteSize :: "builder \<Rightarrow> u64" where
  "builder_ByteSize b = ByteSize (bd_nb b) + word_of_nat (length (bd_used b))"

definition DestructiveGet :: "builder \<Rightarrow> nbuffer" where
  "DestructiveGet b = bd_nb (FlushCurrentBlock b)"

text \<open>\<open>Reserve\<close>; \<open>junk\<close> is what the reserved memory happens to hold until the caller overwrites it.\<close>

definition Reserve :: "bool \<Rightarrow> nat \<Rightarrow> builder \<Rightarrow> string \<Rightarrow> builder run" where
  "Reserve dbg blk b junk =
     (if \<not> length junk \<le> 1024 then fails Assertion
      else
        andthen (if SizeAvailable blk b < length junk then InitializeNextBlock blk (FlushCurrentBlock b) else returns b) (\<lambda>b'.
          MarkWritten dbg blk b' junk))"

partial_function (option) AppendSlow :: "bool \<Rightarrow> nat \<Rightarrow> builder \<Rightarrow> string \<Rightarrow> builder run" where
  "AppendSlow dbg blk b s =
     (if s = [] then returns b
      else
        let copying = min (length s) (SizeAvailable blk b)
        in andthen (MarkWritten dbg blk b (take copying s)) (\<lambda>b'. AppendSlow dbg blk b' (drop copying s)))"

definition Append_bytes :: "bool \<Rightarrow> nat \<Rightarrow> builder \<Rightarrow> string \<Rightarrow> builder run" where
  "Append_bytes dbg blk b s =
     (if length (bd_used b) + length s < blk then returns (b\<lparr>bd_used := bd_used b @ s\<rparr>)
      else AppendSlow dbg blk b s)"

definition Append_char :: "bool \<Rightarrow> nat \<Rightarrow> builder \<Rightarrow> char \<Rightarrow> builder run" where
  "Append_char dbg blk b c =
     (if dbg \<and> SizeAvailable blk b = 0 then fails Assertion else MarkWritten dbg blk b [c])"

fun append_each :: "bool \<Rightarrow> nat \<Rightarrow> builder \<Rightarrow> string list \<Rightarrow> builder run" where
  "append_each dbg blk b [] = returns b"
| "append_each dbg blk b (s # ss) = andthen (Append_bytes dbg blk b s) (\<lambda>b'. append_each dbg blk b' ss)"

definition Append_multi :: "bool \<Rightarrow> nat \<Rightarrow> builder \<Rightarrow> string list \<Rightarrow> builder run" where
  "Append_multi dbg blk b buffers =
     (if length (bd_used b) + sum_list (map length buffers) < blk then
        returns (b\<lparr>bd_used := bd_used b @ concat buffers\<rparr>)
      else append_each dbg blk b buffers)"

definition kAppendViaCopyThreshold :: nat where
  "kAppendViaCopyThreshold = 128"

definition flush_if_used :: "nat \<Rightarrow> builder \<Rightarrow> builder run" where
  "flush_if_used blk b =
     (if bd_used b \<noteq> [] then InitializeNextBlock blk (FlushCurrentBlock b) else returns b)"

definition builder_Append_poly :: "bool \<Rightarrow> nat \<Rightarrow> builder \<Rightarrow> string \<Rightarrow> builder run" where
  "builder_Append_poly dbg blk b buffer =
     (if length buffer < kAppendViaCopyThreshold \<and> blk - length (bd_used b) \<ge> length buffer then Append_bytes dbg blk b buffer
      else andthen (flush_if_used blk b) (\<lambda>b'. returns (b'\<lparr>bd_nb := Append_poly (bd_nb b') buffer\<rparr>)))"

definition AppendCopy :: "bool \<Rightarrow> nat \<Rightarrow> builder \<Rightarrow> nbuffer \<Rightarrow> builder run" where
  "AppendCopy dbg blk b buffer = append_each dbg blk b (nb_buffers buffer)"

definition builder_Append_nb :: "bool \<Rightarrow> nat \<Rightarrow> builder \<Rightarrow> nbuffer \<Rightarrow> builder run" where
  "builder_Append_nb dbg blk b buffer =
     (if unat (ByteSize buffer) < kAppendViaCopyThreshold \<and> blk - length (bd_used b) \<ge> unat (ByteSize buffer) then
        AppendCopy dbg blk b buffer
      else andthen (flush_if_used blk b) (\<lambda>b'. returns (b'\<lparr>bd_nb := Append_nb (bd_nb b') buffer\<rparr>)))"

definition CreateBufferSlow :: "bool \<Rightarrow> nat \<Rightarrow> string \<Rightarrow> nbuffer run" where
  "CreateBufferSlow dbg blk s =
     andthen (Builder blk) (\<lambda>b. andthen (Append_bytes dbg blk b s) (\<lambda>b'. returns (DestructiveGet b')))"


section \<open>Buffers implement byte strings\<close>

definition nb_bytes :: "nbuffer \<Rightarrow> string" where
  "nb_bytes nb = concat (nb_buffers nb)"

definition nb_ok :: "nbuffer \<Rightarrow> bool" where
  "nb_ok nb \<longleftrightarrow> [] \<notin> set (nb_buffers nb) \<and> length (nb_bytes nb) < 2 ^ 64 \<and>
     nb_byte_size nb = word_of_nat (length (nb_bytes nb))"

lemma nb_okD:
  assumes "nb_ok nb"
  shows "[] \<notin> set (nb_buffers nb)" "length (nb_bytes nb) < 2 ^ 64" "unat (nb_byte_size nb) = length (nb_bytes nb)"
    "nb_byte_size nb = 0 \<longleftrightarrow> nb_bytes nb = []" "nb_buffers nb = [] \<longleftrightarrow> nb_bytes nb = []"
proof -
  show ne: "[] \<notin> set (nb_buffers nb)" and "length (nb_bytes nb) < 2 ^ 64"
    using assms by (simp_all add: nb_ok_def)
  then show len: "unat (nb_byte_size nb) = length (nb_bytes nb)"
    using assms by (simp add: nb_ok_def unsigned_of_nat take_bit_nat_eq_self)
  show "nb_byte_size nb = 0 \<longleftrightarrow> nb_bytes nb = []"
    using len by (metis length_0_conv unsigned_eq_0_iff)
  show "nb_buffers nb = [] \<longleftrightarrow> nb_bytes nb = []"
    using ne by (cases "nb_buffers nb") (auto simp: nb_bytes_def)
qed

lemma nb_new_ok: "nb_ok nb_new" "nb_bytes nb_new = []"
  by (simp_all add: nb_ok_def nb_bytes_def nb_new_def)

lemma Empty_ok: "nb_ok nb \<Longrightarrow> nb_Empty dbg nb = Inr (nb_bytes nb = [])"
  by (simp add: nb_Empty_def nb_okD)

lemma FirstContiguous_ok:
  assumes "nb_ok nb" "nb_bytes nb \<noteq> []"
  obtains b bs where "FirstContiguous dbg nb = Inr b" "nb_buffers nb = b # bs" "b \<noteq> []"
proof (cases "nb_buffers nb")
  case Nil
  then show thesis
    using nb_okD(5) [OF assms(1)] assms(2) by simp
next
  case (Cons b bs)
  moreover have "FirstContiguous dbg nb = Inr b"
    using Cons assms(2) by (simp add: FirstContiguous_def Empty_ok [OF assms(1)])
  moreover have "b \<noteq> []"
    using Cons nb_okD(1) [OF assms(1)] by auto
  ultimately show thesis
    by (intro that)
qed

declare SkipSlow_loop.simps [simp del]

lemma SkipSlow_loop_ok:
  "n \<le> length (concat bs) \<Longrightarrow> [] \<notin> set bs \<Longrightarrow>
   \<exists>bs'. SkipSlow_loop dbg n bs = Inr bs' \<and> concat bs' = drop n (concat bs) \<and> [] \<notin> set bs'"
proof (induction bs arbitrary: n)
  case Nil
  then show ?case
    by (subst SkipSlow_loop.simps) simp
next
  case (Cons b bs)
  show ?case
  proof (cases "length b \<le> n")
    case True
    then show ?thesis
      using Cons.IH [of "n - length b"] Cons.prems by (subst SkipSlow_loop.simps) (auto simp: min_def)
  next
    case False
    then show ?thesis
      using Cons.prems by (subst SkipSlow_loop.simps) (auto simp: min_def poly_Skip_def)
  qed
qed

lemma nb_ok_drop:
  assumes ok: "nb_ok nb" and n: "unat n \<le> length (nb_bytes nb)" and bs: "concat bs = drop (unat n) (nb_bytes nb)" "[] \<notin> set bs"
  defines "nb' \<equiv> \<lparr>nb_byte_size = nb_byte_size nb - n, nb_buffers = bs\<rparr>"
  shows "nb_ok nb'" "nb_bytes nb' = drop (unat n) (nb_bytes nb)"
proof -
  have "nb_byte_size nb - n = word_of_nat (length (nb_bytes nb) - unat n)"
    using ok n by (subst of_nat_diff) (simp_all add: nb_ok_def)
  then show "nb_ok nb'" "nb_bytes nb' = drop (unat n) (nb_bytes nb)"
    using bs nb_okD(2) [OF ok] by (simp_all add: nb_ok_def nb_bytes_def nb'_def)
qed

lemma Skip_ok:
  assumes ok: "nb_ok nb" and n: "unat n \<le> length (nb_bytes nb)"
  obtains nb' where "nb_Skip dbg nb n = Inr nb'" "nb_ok nb'" "nb_bytes nb' = drop (unat n) (nb_bytes nb)"
proof -
  have le: "n \<le> ByteSize nb"
    using n by (simp add: ByteSize_def word_le_nat_alt nb_okD(3) [OF ok])
  show thesis
  proof (cases "n = 0")
    case True
    then show thesis
      using that [of nb] ok by (simp add: nb_Skip_def)
  next
    case False
    then have "nb_bytes nb \<noteq> []"
      using n by (metis le_zero_eq list.size(3) unsigned_eq_0_iff)
    then obtain b bs where b: "nb_buffers nb = b # bs"
      using nb_okD(5) [OF ok] by (cases "nb_buffers nb") auto
    show thesis
    proof (cases "unat n < length b")
      case True
      then have bs: "concat (drop (unat n) b # bs) = drop (unat n) (nb_bytes nb)" "[] \<notin> set (drop (unat n) b # bs)"
        using b nb_okD(1) [OF ok] by (auto simp: nb_bytes_def)
      show thesis
        by (rule that [OF _ nb_ok_drop [OF ok n bs]]) (use True False le b in \<open>simp add: nb_Skip_def poly_Skip_def\<close>)
    next
      case not_first: False
      obtain bs' where bs': "SkipSlow_loop dbg (unat n) (nb_buffers nb) = Inr bs'" "concat bs' = drop (unat n) (nb_bytes nb)" "[] \<notin> set bs'"
        using SkipSlow_loop_ok [of "unat n" "nb_buffers nb" dbg] n nb_okD(1) [OF ok] by (auto simp: nb_bytes_def)
      show thesis
        by (rule that [OF _ nb_ok_drop [OF ok n bs'(2,3)]])
          (use False not_first le b bs'(1) in \<open>simp add: nb_Skip_def SkipSlow_def\<close>)
    qed
  qed
qed

lemma Cut_loop_ok:
  "n \<le> length (concat bs) \<Longrightarrow> [] \<notin> set bs \<Longrightarrow>
   \<exists>left rc rest. Cut_loop n rc0 bs = Inr (left, rc0 @ rc, rest) \<and> bs = rc @ rest \<and> length (concat rc) + left = n \<and>
     (left \<noteq> 0 \<longrightarrow> (\<exists>b bs'. rest = b # bs' \<and> left < length b))"
proof (induction bs arbitrary: n rc0)
  case (Cons b bs)
  show ?case
  proof (cases "n \<noteq> 0 \<and> length b \<le> n")
    case True
    then have "n - length b \<le> length (concat bs)" "[] \<notin> set bs"
      using Cons.prems by auto
    from Cons.IH [OF this, of "rc0 @ [b]"] obtain left rc rest where
      "Cut_loop (n - length b) (rc0 @ [b]) bs = Inr (left, (rc0 @ [b]) @ rc, rest)" "bs = rc @ rest"
      "length (concat rc) + left = n - length b" "left \<noteq> 0 \<longrightarrow> (\<exists>b bs'. rest = b # bs' \<and> left < length b)"
      by blast
    then show ?thesis
      using True by (intro exI [of _ left] exI [of _ "b # rc"] exI [of _ rest]) auto
  next
    case False
    then show ?thesis
      by (intro exI [of _ n] exI [of _ "[]"] exI [of _ "b # bs"]) auto
  qed
qed simp

lemma Cut_ok:
  assumes ok: "nb_ok nb" and n: "unat n \<le> length (nb_bytes nb)"
  obtains rc nb' where "nb_Cut dbg nb n = Inr (rc, nb')" "nb_ok rc" "nb_bytes rc = take (unat n) (nb_bytes nb)"
    "nb_ok nb'" "nb_bytes nb' = drop (unat n) (nb_bytes nb)"
proof -
  have le: "n \<le> ByteSize nb"
    using n by (simp add: ByteSize_def word_le_nat_alt nb_okD(3) [OF ok])
  obtain left rc rest where l: "Cut_loop (unat n) [] (nb_buffers nb) = Inr (left, rc, rest)" "nb_buffers nb = rc @ rest"
    "length (concat rc) + left = unat n" "left \<noteq> 0 \<longrightarrow> (\<exists>b bs'. rest = b # bs' \<and> left < length b)"
    using Cut_loop_ok [of "unat n" "nb_buffers nb" "[]"] n nb_okD(1) [OF ok] by (auto simp: nb_bytes_def)
  have ne: "[] \<notin> set rc" "[] \<notin> set rest"
    using nb_okD(1) [OF ok] l(2) by simp_all
  obtain rc' rest' where r: "nb_Cut dbg nb n = Inr (\<lparr>nb_byte_size = n, nb_buffers = rc'\<rparr>, \<lparr>nb_byte_size = nb_byte_size nb - n, nb_buffers = rest'\<rparr>)"
    "concat rc' = take (unat n) (nb_bytes nb)" "concat rest' = drop (unat n) (nb_bytes nb)" "[] \<notin> set rc'" "[] \<notin> set rest'"
  proof (cases "left = 0")
    case True
    then have "nb_Cut dbg nb n = Inr (\<lparr>nb_byte_size = n, nb_buffers = rc\<rparr>, \<lparr>nb_byte_size = nb_byte_size nb - n, nb_buffers = rest\<rparr>)"
      using l(1) le by (simp add: nb_Cut_def)
    moreover have "concat rc = take (unat n) (nb_bytes nb)" "concat rest = drop (unat n) (nb_bytes nb)"
      unfolding nb_bytes_def l(2) using l(3) True by simp_all
    ultimately show thesis
      using ne by (rule that)
  next
    case False
    then obtain b bs where b: "rest = b # bs" "left < length b"
      using l(4) by blast
    have "nb_Cut dbg nb n = Inr (\<lparr>nb_byte_size = n, nb_buffers = rc @ [take left b]\<rparr>,
        \<lparr>nb_byte_size = nb_byte_size nb - n, nb_buffers = drop left b # bs\<rparr>)"
      using l(1) le False b by (simp add: nb_Cut_def poly_set_size_def poly_Skip_def)
    moreover have "concat (rc @ [take left b]) = take (unat n) (nb_bytes nb)" "concat (drop left b # bs) = drop (unat n) (nb_bytes nb)"
      unfolding nb_bytes_def l(2) b(1) l(3) [symmetric] using b(2) by simp_all
    moreover have "[] \<notin> set (rc @ [take left b])" "[] \<notin> set (drop left b # bs)"
      using ne b False by auto
    ultimately show thesis
      by (rule that)
  qed
  have "n = word_of_nat (length (take (unat n) (nb_bytes nb)))"
    using n by (simp add: min_absorb2)
  then have "nb_ok \<lparr>nb_byte_size = n, nb_buffers = rc'\<rparr>"
    using r(2,4) nb_okD(2) [OF ok] by (simp add: nb_ok_def nb_bytes_def)
  then show thesis
    using that [OF r(1) _ _ nb_ok_drop [OF ok n r(3,5)]] r(2) by (simp add: nb_bytes_def)
qed


lemma Append_poly_ok:
  assumes "nb_ok nb" "length (nb_bytes nb) + length s < 2 ^ 64"
  shows "nb_ok (Append_poly nb s)" "nb_bytes (Append_poly nb s) = nb_bytes nb @ s"
  using assms by (auto simp: nb_ok_def nb_bytes_def Append_poly_def)

lemma Append_nb_ok:
  assumes "nb_ok nb" "nb_ok nb'" "length (nb_bytes nb) + length (nb_bytes nb') < 2 ^ 64"
  shows "nb_ok (Append_nb nb nb')" "nb_bytes (Append_nb nb nb') = nb_bytes nb @ nb_bytes nb'"
  using assms by (auto simp: nb_ok_def nb_bytes_def Append_nb_def)

lemma FlattenSlow_loop_eq: "FlattenSlow_loop n bs = take n (concat bs)"
  by (induction n bs rule: FlattenSlow_loop.induct) (auto simp: Let_def min_def)

lemma FlattenSlow_eq: "nb_ok nb \<Longrightarrow> FlattenSlow nb max_bytes = take (unat max_bytes) (nb_bytes nb)"
  by (simp add: FlattenSlow_def FlattenSlow_loop_eq ByteSize_def nb_bytes_def [symmetric] min_def word_le_nat_alt nb_okD(3))

text \<open>What flattening up to a delimiter means: the bytes through its first occurrence, or all.\<close>

definition until :: "string \<Rightarrow> string \<Rightarrow> string" where
  "until delim s = (case find_sub delim s of None \<Rightarrow> s | Some p \<Rightarrow> take (p + length delim) s)"

lemma find_sub_eqI:
  assumes "prefix pat (drop i s)" "i + length pat \<le> length s" "\<And>j. j < i \<Longrightarrow> \<not> prefix pat (drop j s)"
  shows "find_sub pat s = Some i"
proof (cases "find_sub pat s")
  case None
  then show ?thesis
    using assms(1) find_sub_None [of pat s] by (metis prefix_imp_sublist sublist_drop sublist_order.order.trans)
next
  case (Some k)
  from find_sub_Some [OF Some] show ?thesis
    using assms Some by (metis linorder_neqE_nat)
qed

lemma prefix_drop_append:
  assumes "prefix pat (drop i (a @ b))" "i + length pat \<le> length a"
  shows "prefix pat (drop i a)"
proof (rule prefix_length_prefix [OF assms(1)])
  show "prefix (drop i a) (drop i (a @ b))" "length pat \<le> length (drop i a)"
    using assms(2) by simp_all
qed

lemma find_sub_append_left: "find_sub pat s = Some i \<Longrightarrow> find_sub pat (s @ t) = Some i"
proof (rule find_sub_eqI)
  assume "find_sub pat s = Some i"
  from find_sub_Some [OF this] have i: "prefix pat (drop i s)" "i + length pat \<le> length s" "\<And>j. j < i \<Longrightarrow> \<not> prefix pat (drop j s)"
    by simp_all
  show "prefix pat (drop i (s @ t))"
    using i(1,2) by (simp add: prefix_prefix)
  show "i + length pat \<le> length (s @ t)"
    using i(2) by simp
  show "\<not> prefix pat (drop j (s @ t))" if j: "j < i" for j
  proof
    assume p: "prefix pat (drop j (s @ t))"
    have "prefix pat (drop j s)"
      using p by (rule prefix_drop_append) (use i(2) j in simp)
    then show False
      using i(3) [OF j] by simp
  qed
qed

text \<open>Searching may start just far enough back to catch a delimiter across the seam.\<close>

lemma find_from_seam:
  assumes none: "find_sub pat a = None"
  shows "find_from pat (a @ b) (length a - min (length a) (length pat)) = find_sub pat (a @ b)" (is "find_from _ _ ?d = _")
proof (cases "find_sub pat (a @ b)")
  case None
  then have "\<not> sublist pat (drop ?d (a @ b))"
    unfolding find_sub_None using sublist_drop sublist_order.order.trans by blast
  then have "find_sub pat (drop ?d (a @ b)) = None"
    by (simp only: find_sub_None not_False_eq_True)
  then show ?thesis
    using None by (simp add: find_from_def)
next
  case (Some i)
  from find_sub_Some [OF Some] have i: "prefix pat (drop i (a @ b))" "i + length pat \<le> length (a @ b)"
      "\<And>j. j < i \<Longrightarrow> \<not> prefix pat (drop j (a @ b))"
    by simp_all
  have ge: "?d \<le> i"
  proof (rule ccontr)
    assume "\<not> ?d \<le> i"
    then have "i + length pat \<le> length a"
      by linarith
    with i(1) have "prefix pat (drop i a)"
      by (rule prefix_drop_append)
    then show False
      using none unfolding find_sub_None by (metis prefix_imp_sublist sublist_drop sublist_order.order.trans)
  qed
  have "find_sub pat (drop ?d (a @ b)) = Some (i - ?d)"
  proof (rule find_sub_eqI)
    show "prefix pat (drop (i - ?d) (drop ?d (a @ b)))"
      unfolding drop_drop using i(1) ge by simp
    show "i - ?d + length pat \<le> length (drop ?d (a @ b))"
      using i(2) ge by simp
    show "\<not> prefix pat (drop j (drop ?d (a @ b)))" if "j < i - ?d" for j
      unfolding drop_drop using i(3) [of "j + ?d"] that by linarith
  qed
  then show ?thesis
    using Some ge by (simp add: find_from_def)
qed

lemma FlattenSlowUntil_loop_eq:
  assumes "delim \<noteq> []" "find_sub delim rc = None"
  shows "take n (FlattenSlowUntil_loop delim n rc bs) = take n (until delim (rc @ concat bs))"
  using assms(2)
proof (induction bs arbitrary: rc)
  case (Cons b bs)
  show ?case
  proof (cases "length rc < n")
    case True
    show ?thesis
    proof (cases "find_sub delim (rc @ b)")
      case None
      then show ?thesis
        using True Cons.IH [OF None] by (simp add: Let_def find_from_seam [OF Cons.prems])
    next
      case (Some i)
      then show ?thesis
        using True find_sub_append_left [OF Some, of "concat bs"] find_sub_Some [OF Some]
        by (simp add: Let_def find_from_seam [OF Cons.prems] until_def)
    qed
  next
    case False
    have "take n rc = take n (until delim (rc @ concat (b # bs)))"
    proof (cases "find_sub delim (rc @ concat (b # bs))")
      case None
      then show ?thesis
        using False by (simp add: until_def)
    next
      case (Some i)
      have "\<not> i + length delim \<le> length rc"
      proof
        assume "i + length delim \<le> length rc"
        then have "prefix delim (drop i rc)"
          using find_sub_Some [OF Some] prefix_drop_append by blast
        then show False
          using Cons.prems unfolding find_sub_None by (metis prefix_imp_sublist sublist_drop sublist_order.order.trans)
      qed
      then show ?thesis
        using False Some by (simp add: until_def)
    qed
    then show ?thesis
      using False by simp
  qed
qed (simp add: until_def)

lemma FlattenSlowUntil_eq:
  assumes ok: "nb_ok nb"
  shows "FlattenSlowUntil dbg nb delim max_bytes = Inr (take (unat max_bytes) (until delim (nb_bytes nb)))"
proof (cases "nb_bytes nb = []")
  case True
  then show ?thesis
    by (simp add: FlattenSlowUntil_def Empty_ok [OF ok] until_def)
next
  case False
  obtain b bs where b: "FirstContiguous dbg nb = Inr b" "nb_buffers nb = b # bs" "b \<noteq> []"
    by (rule FirstContiguous_ok [OF ok False])
  show ?thesis
  proof (cases "find_sub delim b")
    case (Some i)
    then show ?thesis
      using False b find_sub_append_left [OF Some, of "concat bs"] find_sub_Some [OF Some]
      by (simp add: FlattenSlowUntil_def Empty_ok [OF ok] until_def nb_bytes_def min.commute)
  next
    case None
    then have "delim \<noteq> []"
      using b(3) by (cases b) (auto simp: StartsWith_prefix)
    then have "find_sub delim [] = None"
      by simp
    then show ?thesis
      using None False b(1) FlattenSlowUntil_loop_eq [OF \<open>delim \<noteq> []\<close>, of "[]" "unat max_bytes" "nb_buffers nb"]
      by (simp add: FlattenSlowUntil_def Empty_ok [OF ok] nb_bytes_def [symmetric])
  qed
qed


subsection \<open>The builder\<close>

definition bd_bytes :: "builder \<Rightarrow> string" where
  "bd_bytes b = nb_bytes (bd_nb b) @ bd_used b"

text \<open>There is always a current block and it is never full.\<close>

definition bd_ok :: "nat \<Rightarrow> builder \<Rightarrow> bool" where
  "bd_ok blk b \<longleftrightarrow> bd_live b \<and> length (bd_used b) < blk \<and> nb_ok (bd_nb b)"

definition appends :: "nat \<Rightarrow> builder \<Rightarrow> string \<Rightarrow> builder run \<Rightarrow> bool" where
  "appends blk b s r \<longleftrightarrow> (\<exists>b'. r = returns b' \<and> bd_ok blk b' \<and> bd_bytes b' = bd_bytes b @ s)"

lemma appends_trans:
  assumes "appends blk b s r" "\<And>b'. bd_ok blk b' \<Longrightarrow> bd_bytes b' = bd_bytes b @ s \<Longrightarrow> appends blk b' t (f b')"
  shows "appends blk b (s @ t) (andthen r f)"
  using assms by (fastforce simp: appends_def)

lemma flush_ok:
  assumes "nb_ok (bd_nb b)" "0 < blk" "length (bd_bytes b) < 2 ^ 64" "bd_used b \<noteq> []"
  shows "appends blk b [] (InitializeNextBlock blk (FlushCurrentBlock b))"
  using assms Append_poly_ok [OF assms(1), of "bd_used b"]
  by (simp add: appends_def InitializeNextBlock_def FlushCurrentBlock_def bd_ok_def bd_bytes_def)

lemma MarkWritten_ok:
  assumes ok: "bd_ok blk b" and s: "length s \<le> SizeAvailable blk b" and len: "length (bd_bytes b) + length s < 2 ^ 64"
  shows "appends blk b s (MarkWritten dbg blk b s)"
proof (cases "SizeAvailable blk (b\<lparr>bd_used := bd_used b @ s\<rparr>) = 0")
  case True
  have "appends blk (b\<lparr>bd_used := bd_used b @ s\<rparr>) [] (InitializeNextBlock blk (FlushCurrentBlock (b\<lparr>bd_used := bd_used b @ s\<rparr>)))"
    by (rule flush_ok) (use ok s len True in \<open>auto simp: bd_ok_def bd_bytes_def SizeAvailable_def\<close>)
  then show ?thesis
    using s True by (simp add: MarkWritten_def Let_def appends_def bd_bytes_def)
next
  case False
  then show ?thesis
    using ok s by (simp add: MarkWritten_def Let_def appends_def bd_ok_def bd_bytes_def SizeAvailable_def)
qed

lemma AppendSlow_ok:
  "bd_ok blk b \<Longrightarrow> length (bd_bytes b) + length s < 2 ^ 64 \<Longrightarrow> appends blk b s (AppendSlow dbg blk b s)"
proof (induction "length s" arbitrary: b s rule: less_induct)
  case less
  show ?case
  proof (cases "s = []")
    case True
    then show ?thesis
      using less.prems by (subst AppendSlow.simps) (simp add: appends_def)
  next
    case False
    let ?n = "min (length s) (SizeAvailable blk b)"
    have n: "0 < ?n"
      using False less.prems(1) by (simp add: SizeAvailable_def bd_ok_def)
    have "appends blk b (take ?n s @ drop ?n s) (andthen (MarkWritten dbg blk b (take ?n s)) (\<lambda>b'. AppendSlow dbg blk b' (drop ?n s)))"
    proof (rule appends_trans)
      show "appends blk b (take ?n s) (MarkWritten dbg blk b (take ?n s))"
        by (rule MarkWritten_ok) (use less.prems in simp_all)
      show "appends blk b' (drop ?n s) (AppendSlow dbg blk b' (drop ?n s))"
        if "bd_ok blk b'" "bd_bytes b' = bd_bytes b @ take ?n s" for b'
        by (rule less.hyps) (use that less.prems(2) n False in auto)
    qed
    then show ?thesis
      using False by (subst AppendSlow.simps) (simp add: Let_def)
  qed
qed

lemma Append_bytes_ok:
  "bd_ok blk b \<Longrightarrow> length (bd_bytes b) + length s < 2 ^ 64 \<Longrightarrow> appends blk b s (Append_bytes dbg blk b s)"
  by (simp add: Append_bytes_def AppendSlow_ok) (simp add: appends_def bd_ok_def bd_bytes_def)

lemma append_each_ok:
  "bd_ok blk b \<Longrightarrow> length (bd_bytes b) + length (concat ss) < 2 ^ 64 \<Longrightarrow> appends blk b (concat ss) (append_each dbg blk b ss)"
proof (induction ss arbitrary: b)
  case (Cons s ss)
  have "appends blk b (s @ concat ss) (andthen (Append_bytes dbg blk b s) (\<lambda>b'. append_each dbg blk b' ss))"
    by (rule appends_trans [OF Append_bytes_ok [OF Cons.prems(1)] Cons.IH]) (use Cons.prems(2) in simp_all)
  then show ?case
    by simp
qed (simp add: appends_def)

lemma Append_multi_ok:
  "bd_ok blk b \<Longrightarrow> length (bd_bytes b) + length (concat ss) < 2 ^ 64 \<Longrightarrow> appends blk b (concat ss) (Append_multi dbg blk b ss)"
  by (simp add: Append_multi_def append_each_ok length_concat) (simp add: appends_def bd_ok_def bd_bytes_def length_concat)

lemma flush_if_used_ok:
  "bd_ok blk b \<Longrightarrow> length (bd_bytes b) < 2 ^ 64 \<Longrightarrow>
   \<exists>b'. flush_if_used blk b = returns b' \<and> bd_ok blk b' \<and> bd_bytes b' = bd_bytes b \<and> bd_used b' = []"
  using Append_poly_ok [of "bd_nb b" "bd_used b"]
  by (auto simp: flush_if_used_def InitializeNextBlock_def FlushCurrentBlock_def bd_ok_def bd_bytes_def)

lemma builder_Append_nb_ok:
  assumes ok: "bd_ok blk b" "nb_ok nb" and len: "length (bd_bytes b) + length (nb_bytes nb) < 2 ^ 64"
  shows "appends blk b (nb_bytes nb) (builder_Append_nb dbg blk b nb)"
proof (cases "unat (ByteSize nb) < kAppendViaCopyThreshold \<and> blk - length (bd_used b) \<ge> unat (ByteSize nb)")
  case True
  then show ?thesis
    using append_each_ok [OF ok(1), of "nb_buffers nb"] len by (simp add: builder_Append_nb_def AppendCopy_def nb_bytes_def)
next
  case False
  obtain b' where b': "flush_if_used blk b = returns b'" "bd_ok blk b'" "bd_bytes b' = bd_bytes b" "bd_used b' = []"
    using flush_if_used_ok [OF ok(1)] len by auto
  have "bd_bytes b = nb_bytes (bd_nb b')"
    using b'(3,4) by (simp add: bd_bytes_def)
  then show ?thesis
    using False b' Append_nb_ok [of "bd_nb b'" nb] ok(2) len
    by (auto simp: builder_Append_nb_def appends_def bd_ok_def bd_bytes_def)
qed

lemma builder_Append_poly_ok:
  assumes ok: "bd_ok blk b" and len: "length (bd_bytes b) + length s < 2 ^ 64"
  shows "appends blk b s (builder_Append_poly dbg blk b s)"
proof (cases "length s < kAppendViaCopyThreshold \<and> blk - length (bd_used b) \<ge> length s")
  case True
  then show ?thesis
    using Append_bytes_ok [OF ok len] by (simp add: builder_Append_poly_def)
next
  case False
  obtain b' where b': "flush_if_used blk b = returns b'" "bd_ok blk b'" "bd_bytes b' = bd_bytes b" "bd_used b' = []"
    using flush_if_used_ok [OF ok] len by auto
  have "bd_bytes b = nb_bytes (bd_nb b')"
    using b'(3,4) by (simp add: bd_bytes_def)
  then show ?thesis
    using False b' Append_poly_ok [of "bd_nb b'" s] len
    by (auto simp: builder_Append_poly_def appends_def bd_ok_def bd_bytes_def)
qed

lemma Builder_ok: "0 < blk \<Longrightarrow> \<exists>b. Builder blk = returns b \<and> bd_ok blk b \<and> bd_bytes b = []"
  by (simp add: Builder_def InitializeNextBlock_def bd_ok_def bd_bytes_def nb_new_ok)

lemma DestructiveGet_ok:
  "bd_ok blk b \<Longrightarrow> length (bd_bytes b) < 2 ^ 64 \<Longrightarrow> nb_ok (DestructiveGet b) \<and> nb_bytes (DestructiveGet b) = bd_bytes b"
  using Append_poly_ok [of "bd_nb b" "bd_used b"] by (simp add: DestructiveGet_def FlushCurrentBlock_def bd_ok_def bd_bytes_def)


lemma unat_minus_1_u64: "unat (- 1 :: u64) = 2 ^ 64 - 1"
  by (simp add: unsigned_minus_1_eq_mask mask_eq_exp_minus_1)

lemma FlattenSlow_all: "nb_ok nb \<Longrightarrow> FlattenSlow nb (- 1) = nb_bytes nb"
  using nb_okD(2) [of nb] by (simp add: FlattenSlow_eq unat_minus_1_u64)

lemma FlattenSlowUntil_all:
  assumes "nb_ok nb"
  shows "FlattenSlowUntil dbg nb delim (- 1) = Inr (until delim (nb_bytes nb))"
proof -
  have "length (until delim (nb_bytes nb)) \<le> length (nb_bytes nb)"
    by (simp add: until_def split: option.split)
  then show ?thesis
    using nb_okD(2) [OF assms] by (simp add: FlattenSlowUntil_eq [OF assms] unat_minus_1_u64)
qed

text \<open>Claim C34. Whatever the block size, a buffer built from a string flattens to that string, cutting it at any position gives
  buffers that flatten to the two parts, and flattening it up to a delimiter gives the bytes through the
  delimiter's first occurrence even when the delimiter lies across blocks.\<close>

theorem Buffer_roundtrip:
  assumes "0 < blk" "length s < 2 ^ 64" "unat n \<le> length s"
  shows "\<exists>nb a b. CreateBufferSlow dbg blk s = returns nb \<and> FlattenSlow nb (- 1) = s \<and>
    nb_Cut dbg nb n = Inr (a, b) \<and> FlattenSlow a (- 1) = take (unat n) s \<and> FlattenSlow b (- 1) = drop (unat n) s \<and>
    FlattenSlowUntil dbg nb delim (- 1) = Inr (until delim s)"
proof -
  obtain b0 where b0: "Builder blk = returns b0" "bd_ok blk b0" "bd_bytes b0 = []"
    using Builder_ok [OF assms(1)] by blast
  obtain b1 where b1: "Append_bytes dbg blk b0 s = returns b1" "bd_ok blk b1" "bd_bytes b1 = s"
    using Append_bytes_ok [OF b0(2), of s dbg] assms(2) b0(3) by (auto simp: appends_def)
  let ?nb = "DestructiveGet b1"
  have nb: "nb_ok ?nb" "nb_bytes ?nb = s"
    using DestructiveGet_ok [OF b1(2)] b1(3) assms(2) by simp_all
  obtain rc nb' where cut: "nb_Cut dbg ?nb n = Inr (rc, nb')" "nb_ok rc" "nb_bytes rc = take (unat n) (nb_bytes ?nb)"
    "nb_ok nb'" "nb_bytes nb' = drop (unat n) (nb_bytes ?nb)"
    by (rule Cut_ok [OF nb(1)]) (use nb(2) assms(3) in simp_all)
  have "CreateBufferSlow dbg blk s = returns ?nb"
    by (simp add: CreateBufferSlow_def b0(1) b1(1))
  then show ?thesis
    using cut nb by (intro exI [of _ ?nb] exI [of _ rc] exI [of _ nb']) (simp add: FlattenSlow_all FlattenSlowUntil_all)
qed

theorem Buffer_roundtrip_witness:
  "\<exists>nb a b. CreateBufferSlow True 3 ''abcdefgh'' = returns nb \<and> FlattenSlow nb (- 1) = ''abcdefgh'' \<and>
    nb_Cut True nb 4 = Inr (a, b) \<and> FlattenSlow a (- 1) = ''abcd'' \<and> FlattenSlow b (- 1) = ''efgh'' \<and>
    FlattenSlowUntil True nb ''cd'' (- 1) = Inr ''abcd''"
proof -
  have "until ''cd'' ''abcdefgh'' = ''abcd''"
    by code_simp
  then show ?thesis
    using Buffer_roundtrip [of 3 "''abcdefgh''" 4 True "''cd''"] by simp
qed

end
