(* ===== verification/Http_Types.thy ===== *)
theory Http_Types
  imports Http_Headers Buffer
begin

section \<open>HTTP messages (flare/net/http/types.h, types.cc, http_message.*, http_request.*, http_response.*)\<close>

text \<open>
  Methods, versions and status codes with their tables, and the request and response objects. An
  enumeration is its underlying \<open>int\<close> where the code converts from arbitrary integers (status codes) and
  a datatype otherwise. The printing functions guard the table with \<open>v > size\<close> where
  \<open>v >= size\<close> is meant, so the value just past the table reads out of bounds, which is \<open>Undefined\<close> here.

  A request or response extends \<open>HttpMessage\<close>, whose body is kept as a string, as a buffer, or, once
  the buffer has been flattened on demand, as both.
\<close>

datatype HttpVersion = Unspecified_version | V_1_0 | V_1_1 | V_2 | V_3

datatype HttpMethod = Unspecified | Head | Get | Post | PutM | Delete | Options | Trace | Connect | Patch

type_synonym HttpStatus = int

primrec version_value :: "HttpVersion \<Rightarrow> nat" where
  "version_value Unspecified_version = 0"
| "version_value V_1_0 = 1"
| "version_value V_1_1 = 2"
| "version_value V_2 = 3"
| "version_value V_3 = 4"

primrec method_value :: "HttpMethod \<Rightarrow> nat" where
  "method_value Unspecified = 0"
| "method_value Head = 1"
| "method_value Get = 2"
| "method_value Post = 3"
| "method_value PutM = 4"
| "method_value Delete = 5"
| "method_value Options = 6"
| "method_value Trace = 7"
| "method_value Connect = 8"
| "method_value Patch = 9"

definition HttpStatus_enumerators :: "(string \<times> HttpStatus) list" where
  "HttpStatus_enumerators =
    [(''Continue'', 100), (''SwitchingProtocols'', 101), (''EarlyHints'', 103), (''OK'', 200), (''Created'', 201),
     (''Accepted'', 202), (''NonAuthoritativeInformation'', 203), (''NoContent'', 204), (''ResetContent'', 205),
     (''PartialContent'', 206), (''MultipleChoices'', 300), (''MovedPermanently'', 301), (''Found'', 302), (''SeeOther'', 303),
     (''NotModified'', 304), (''TemporaryRedirect'', 307), (''PermanentRedirect'', 308), (''BadRequest'', 400),
     (''Unauthorized'', 401), (''PaymentRequired'', 402), (''Forbidden'', 403), (''NotFound'', 404), (''MethodNotAllowed'', 405),
     (''NotAcceptable'', 406), (''ProxyAuthenticationRequired'', 407), (''RequestTimeout'', 408), (''Conflict'', 409),
     (''Gone'', 410), (''LengthRequired'', 411), (''PreconditionFailed'', 412), (''PayloadTooLarge'', 413), (''URITooLong'', 414),
     (''UnsupportedMediaType'', 415), (''RangeNotSatisfiable'', 416), (''ExpectationFailed'', 417), (''ImATeapot'', 418),
     (''UnprocessableEntity'', 422), (''TooEarly'', 425), (''UpgradeRequired'', 426), (''PreconditionRequired'', 428),
     (''TooManyRequests'', 429), (''RequestHeaderFieldsTooLarge'', 431), (''UnavailableForLegalReasons'', 451),
     (''InternalServerError'', 500), (''NotImplemented'', 501), (''BadGateway'', 502), (''ServiceUnavailable'', 503),
     (''GatewayTimeout'', 504), (''HTTPVersionNotSupported'', 505), (''VariantAlsoNegotiates'', 506),
     (''InsufficientStorage'', 507), (''LoopDetected'', 508), (''NotExtended'', 510), (''NetworkAuthenticationRequired'', 511)]"

definition kStatusCodes_entries :: "(nat \<times> string) list" where
  "kStatusCodes_entries =
    [(100, ''Continue''), (101, ''Switching Protocols''), (103, ''Early Hints''), (200, ''OK''), (201, ''Created''),
     (202, ''Accepted''), (203, ''Non-Authoritative Information''), (204, ''No Content''), (205, ''Reset Content''),
     (206, ''Partial Content''), (300, ''Multiple Choices''), (301, ''Moved Permanently''), (302, ''Found''), (303, ''See Other''),
     (304, ''Not Modified''), (307, ''Temporary Redirect''), (308, ''Permanent Redirect''), (400, ''Bad Request''),
     (401, ''Unauthorized''), (402, ''Payment Required''), (403, ''Forbidden''), (404, ''Not Found''),
     (405, ''Method Not Allowed''), (406, ''Not Acceptable''), (407, ''Proxy Authentication Required''),
     (408, ''Request Timeout''), (409, ''Conflict''), (410, ''Gone''), (411, ''Length Required''), (412, ''Precondition Failed''),
     (413, ''Payload Too Large''), (414, ''URI Too Long''), (415, ''Unsupported Media Type''), (416, ''Range Not Satisfiable''),
     (417, ''Expectation Failed''), (418, ''I'' @ [CHR 0x27] @ ''m a teapot''), (422, ''Unprocessable Entity''),
     (425, ''Too Early''), (426, ''Upgrade Required''), (428, ''Precondition Required''), (429, ''Too Many Requests''),
     (431, ''Request Header Fields Too Large''), (451, ''Unavailable For Legal Reasons''), (500, ''Internal Server Error''),
     (501, ''Not Implemented''), (502, ''Bad Gateway''), (503, ''Service Unavailable''), (504, ''Gateway Timeout''),
     (505, ''HTTP Version Not Supported''), (506, ''Variant Also Negotiates''), (507, ''Insufficient Storage''),
     (508, ''Loop Detected''), (510, ''Not Extended''), (511, ''Network Authentication Required'')]"

text \<open>A 600-element array of views, empty where nothing was assigned.\<close>

definition table600 :: "(nat \<times> string) list \<Rightarrow> nat \<Rightarrow> fault + string" where
  "table600 entries v =
     (if v < 600 then Inr (case map_of entries v of None \<Rightarrow> [] | Some s \<Rightarrow> s) else Inl Undefined)"

definition kStringizedVersion :: "string list" where
  "kStringizedVersion = [''(Unspecified)'', ''HTTP/1.0'', ''HTTP/1.1'', ''HTTP/2'', ''HTTP/3'']"

definition kStringifiedMethods :: "string list" where
  "kStringifiedMethods =
     [''UNSPECIFIED'', ''HEAD'', ''GET'', ''POST'', ''PUT'', ''DELETE'', ''OPTIONS'', ''TRACE'', ''CONNECT'', ''PATCH'']"

definition kMethodEnumerators :: "(string \<times> HttpMethod) list" where
  "kMethodEnumerators =
     [(''UNSPECIFIED'', Unspecified), (''HEAD'', Head), (''GET'', Get), (''POST'', Post), (''PUT'', PutM),
      (''DELETE'', Delete), (''TRACE'', Trace), (''CONNECT'', Connect), (''PATCH'', Patch)]"

definition status_ToStringView :: "HttpStatus \<Rightarrow> fault + string" where
  "status_ToStringView v = (if v < 0 \<or> v > 600 then Inr [] else table600 kStatusCodes_entries (nat v))"

definition nth_view :: "string list \<Rightarrow> nat \<Rightarrow> fault + string" where
  "nth_view xs i = (if i < length xs then Inr (xs ! i) else Inl Undefined)"

definition version_ToStringView :: "HttpVersion \<Rightarrow> fault + string" where
  "version_ToStringView version =
     (let index = version_value version
      in if index > length kStringizedVersion then Inr [] else nth_view kStringizedVersion index)"

definition method_ToStringView :: "HttpMethod \<Rightarrow> fault + string" where
  "method_ToStringView method =
     (let v = method_value method
      in if v > length kStringifiedMethods then Inr [] else nth_view kStringifiedMethods v)"

definition TryParse_HttpMethod :: "string \<Rightarrow> HttpMethod option" where
  "TryParse_HttpMethod s = map_of kMethodEnumerators s"

definition kStatusCodeWithDesc_entries :: "(nat \<times> string) list" where
  "kStatusCodeWithDesc_entries =
    [(100, ''100 Continue''), (101, ''101 Switching Protocols''), (103, ''103 Early Hints''), (200, ''200 OK''),
     (201, ''201 Created''), (202, ''202 Accepted''), (203, ''203 Non-Authoritative Information''), (204, ''204 No Content''),
     (205, ''205 Reset Content''), (206, ''206 Partial Content''), (300, ''300 Multiple Choices''),
     (301, ''301 Moved Permanently''), (302, ''302 Found''), (303, ''303 See Other''), (304, ''304 Not Modified''),
     (307, ''307 Temporary Redirect''), (308, ''308 Permanent Redirect''), (400, ''400 Bad Request''), (401, ''401 Unauthorized''),
     (402, ''402 Payment Required''), (403, ''403 Forbidden''), (404, ''404 Not Found''), (405, ''405 Method Not Allowed''),
     (406, ''406 Not Acceptable''), (407, ''407 Proxy Authentication Required''), (408, ''408 Request Timeout''),
     (409, ''409 Conflict''), (410, ''410 Gone''), (411, ''411 Length Required''), (412, ''412 Precondition Failed''),
     (413, ''413 Payload Too Large''), (414, ''414 URI Too Long''), (415, ''415 Unsupported Media Type''),
     (416, ''416 Range Not Satisfiable''), (417, ''417 Expectation Failed''), (418, ''418 I'' @ [CHR 0x27] @ ''m a teapot''),
     (422, ''422 Unprocessable Entity''), (425, ''425 Too Early''), (426, ''426 Upgrade Required''),
     (428, ''428 Precondition Required''), (429, ''429 Too Many Requests''), (431, ''431 Request Header Fields Too Large''),
     (451, ''451 Unavailable For Legal Reasons''), (500, ''500 Internal Server Error''), (501, ''501 Not Implemented''),
     (502, ''502 Bad Gateway''), (503, ''503 Service Unavailable''), (504, ''504 Gateway Timeout''),
     (505, ''505 HTTP Version Not Supported''), (506, ''506 Variant Also Negotiates''), (507, ''507 Insufficient Storage''),
     (508, ''508 Loop Detected''), (510, ''510 Not Extended''), (511, ''511 Network Authentication Required'')]"

definition GetStatusCodeWithDescString :: "HttpStatus \<Rightarrow> fault + string" where
  "GetStatusCodeWithDescString v =
     (if v < 0 \<or> v > 600 then Inr [] else table600 kStatusCodeWithDesc_entries (nat v))"

subsection \<open>Messages\<close>

record http_message =
  msg_version :: HttpVersion
  msg_headers :: http_headers
  msg_body_str :: "string option"
  msg_body :: "nbuffer option"

definition StringifyBody :: "'a http_message_scheme \<Rightarrow> 'a http_message_scheme" where
  "StringifyBody m =
     (case msg_body m of
        None \<Rightarrow> m\<lparr>msg_body_str := Some []\<rparr>
      | Some nb \<Rightarrow> m\<lparr>msg_body_str := Some (FlattenSlow nb (- 1))\<rparr>)"

text \<open>\<open>body()\<close> returns a pointer to the string it leaves in the message.\<close>

definition message_body :: "'a http_message_scheme \<Rightarrow> 'a http_message_scheme" where
  "message_body m = (if msg_body_str m \<noteq> None then m else StringifyBody m)"

definition body_text :: "'a http_message_scheme \<Rightarrow> string" where
  "body_text m = the (msg_body_str (message_body m))"

definition set_body_nb :: "nbuffer \<Rightarrow> 'a http_message_scheme \<Rightarrow> 'a http_message_scheme" where
  "set_body_nb nb m = m\<lparr>msg_body_str := None, msg_body := Some nb\<rparr>"

definition set_body_str :: "string \<Rightarrow> 'a http_message_scheme \<Rightarrow> 'a http_message_scheme" where
  "set_body_str s m = m\<lparr>msg_body := None, msg_body_str := Some s\<rparr>"

definition body_size :: "'a http_message_scheme \<Rightarrow> u64" where
  "body_size m =
     (case msg_body_str m of
        Some s \<Rightarrow> word_of_nat (length s)
      | None \<Rightarrow> (case msg_body m of Some nb \<Rightarrow> ByteSize nb | None \<Rightarrow> 0))"

definition noncontiguous_body :: "'a http_message_scheme \<Rightarrow> nbuffer option" where
  "noncontiguous_body m = msg_body m"

definition message_clear :: "'a http_message_scheme \<Rightarrow> 'a http_message_scheme" where
  "message_clear m = m\<lparr>msg_headers := HttpHeaders_clear (msg_headers m), msg_body_str := None, msg_body := None\<rparr>"

record http_request = http_message +
  rq_method :: HttpMethod
  rq_uri :: string

record http_response = http_message +
  rs_status :: HttpStatus

definition HttpRequest :: "fault + http_request" where
  "HttpRequest =
     sthen HttpHeaders (\<lambda>hs.
       Inr \<lparr>msg_version = Unspecified_version, msg_headers = hs, msg_body_str = None, msg_body = None,
            rq_method = Unspecified, rq_uri = []\<rparr>)"

definition HttpResponse :: "fault + http_response" where
  "HttpResponse =
     sthen HttpHeaders (\<lambda>hs.
       Inr \<lparr>msg_version = Unspecified_version, msg_headers = hs, msg_body_str = None, msg_body = None, rs_status = 200\<rparr>)"

definition request_clear :: "http_request \<Rightarrow> http_request" where
  "request_clear r = (message_clear r)\<lparr>rq_method := Unspecified, rq_uri := []\<rparr>"

definition response_clear :: "http_response \<Rightarrow> http_response" where
  "response_clear r = (message_clear r)\<lparr>rs_status := 200\<rparr>"

definition crlf :: string where
  "crlf = [CHR 0x0D, CHR 0x0A]"

text \<open>What the serializers write for the body: the buffer when there is one, else the string.\<close>

definition body_bytes :: "'a http_message_scheme \<Rightarrow> string" where
  "body_bytes m = (case noncontiguous_body m of Some nb \<Rightarrow> FlattenSlow nb (- 1) | None \<Rightarrow> body_text m)"

definition header_lines :: "http_fields \<Rightarrow> string" where
  "header_lines fs = concat (map (\<lambda>(k, v). k @ '': '' @ v @ crlf) fs)"

definition request_ToString :: "http_request \<Rightarrow> fault + string" where
  "request_ToString r =
     sthen (method_ToStringView (rq_method r)) (\<lambda>mt.
     sthen (version_ToStringView (msg_version r)) (\<lambda>vs.
       Inr (mt @ '' '' @ rq_uri r @ '' '' @ vs @ crlf @ header_lines (hdr_fields (msg_headers r)) @ crlf @ body_bytes r)))"

definition response_ToString :: "http_response \<Rightarrow> fault + string" where
  "response_ToString r =
     sthen (version_ToStringView (msg_version r)) (\<lambda>vs.
     sthen (status_ToStringView (rs_status r)) (\<lambda>st.
       Inr (vs @ '' '' @ show_int (rs_status r) @ '' '' @ st @ crlf @ header_lines (hdr_fields (msg_headers r)) @ crlf @ body_bytes r)))"

definition GenerateDefaultResponsePage :: "HttpStatus \<Rightarrow> http_response \<Rightarrow> string \<Rightarrow> string \<Rightarrow> http_response run" where
  "GenerateDefaultResponsePage status response title body =
     andthen (HttpHeaders_Append (msg_headers response) ''Content-Type'' ''text/html'') (\<lambda>hs.
     andthen (run_sum (if title \<noteq> [] then Inr title
                       else sthen (GetStatusCodeWithDescString status) (\<lambda>d. Inr (''HTTP '' @ d)))) (\<lambda>t.
     andthen (run_sum (if body \<noteq> [] then Inr body else GetStatusCodeWithDescString status)) (\<lambda>b.
       returns (set_body_str
         (''<html>'' @ [CHR 0x0A] @ ''<head>'' @ [CHR 0x0A] @ ''<title>'' @ t @ ''</title>'' @ [CHR 0x0A] @ ''</head>'' @ [CHR 0x0A] @
          ''<body>'' @ b @ ''</body>'' @ [CHR 0x0A] @ ''</html>'' @ [CHR 0x0A])
         (response\<lparr>rs_status := status, msg_headers := hs\<rparr>)))))"


section \<open>Properties\<close>

lemmas method_printing = method_ToStringView_def method_value.simps nth_view_def kStringifiedMethods_def Let_def

text \<open>Every method prints, and parsing the name gives the method back, except for \<open>OPTIONS\<close>, which prints but is
  rejected by the parser.\<close>

lemma method_roundtrip:
  "\<exists>s. method_ToStringView m = Inr s \<and> TryParse_HttpMethod s = (if m = Options then None else Some m)"
  by (cases m) (simp_all add: method_printing TryParse_HttpMethod_def kMethodEnumerators_def)

lemma status_entries:
  "kStatusCodeWithDesc_entries = map (\<lambda>(n, s). (n, show_nat n @ '' '' @ s)) kStatusCodes_entries"
  "distinct (map fst kStatusCodes_entries)"
  "list_all (\<lambda>(n, s). n < 600 \<and> s \<noteq> []) kStatusCodes_entries"
  "map snd HttpStatus_enumerators = map (int \<circ> fst) kStatusCodes_entries"
  subgoal by (simp add: kStatusCodes_entries_def kStatusCodeWithDesc_entries_def show_nat.simps char_of_def bit_0)
  subgoal by (simp add: kStatusCodes_entries_def)
  subgoal by (simp add: kStatusCodes_entries_def)
  subgoal by (simp add: kStatusCodes_entries_def HttpStatus_enumerators_def)
  done

text \<open>Every status code of the enumeration has a reason phrase, and the status line's text is the code in decimal, a space
  and that phrase. The code 600, one past both tables, passes the range check and is read out of bounds.\<close>

lemma status_tables:
  "list_all (\<lambda>(name, v).
      case status_ToStringView v of
        Inr d \<Rightarrow> d \<noteq> [] \<and> GetStatusCodeWithDescString v = Inr (show_int v @ '' '' @ d)
      | Inl e \<Rightarrow> False) HttpStatus_enumerators \<and>
   status_ToStringView 600 = Inl Undefined \<and> GetStatusCodeWithDescString 600 = Inl Undefined"
proof -
  have ok: "d \<noteq> [] \<and> status_ToStringView (int n) = Inr d \<and> GetStatusCodeWithDescString (int n) = Inr (show_int (int n) @ '' '' @ d)"
    if "(n, d) \<in> set kStatusCodes_entries" for n d
  proof -
    have n: "n < 600 \<and> d \<noteq> []"
      using status_entries(3) that by (auto simp: list_all_iff)
    have "map_of kStatusCodes_entries n = Some d"
      by (rule map_of_is_SomeI [OF status_entries(2) that])
    moreover have "map_of kStatusCodeWithDesc_entries n = Some (show_nat n @ '' '' @ d)"
      unfolding status_entries(1) using status_entries(2) that
      by (intro map_of_is_SomeI) (force simp: comp_def case_prod_beta')+
    ultimately show ?thesis
      using n by (simp add: status_ToStringView_def GetStatusCodeWithDescString_def table600_def show_int_def)
  qed
  have all: "case status_ToStringView v of Inr d \<Rightarrow> d \<noteq> [] \<and> GetStatusCodeWithDescString v = Inr (show_int v @ '' '' @ d) | Inl e \<Rightarrow> False"
    if "v \<in> snd ` set HttpStatus_enumerators" for v
  proof -
    have "v \<in> set (map (int \<circ> fst) kStatusCodes_entries)"
      using that unfolding status_entries(4) [symmetric] by simp
    then obtain n d where "v = int n" "(n, d) \<in> set kStatusCodes_entries"
      by auto
    then show ?thesis
      using ok by simp
  qed
  have "list_all (\<lambda>(name, v).
      case status_ToStringView v of
        Inr d \<Rightarrow> d \<noteq> [] \<and> GetStatusCodeWithDescString v = Inr (show_int v @ '' '' @ d)
      | Inl e \<Rightarrow> False) HttpStatus_enumerators"
    unfolding list_all_iff case_prod_beta by (intro ballI all imageI)
  then show ?thesis
    by (simp add: status_ToStringView_def GetStatusCodeWithDescString_def table600_def)
qed

text \<open>After \<open>body()\<close> has flattened a buffer, the buffer is still there, although the documentation says it is no
  longer available; so whatever the caller then writes to the string \<open>body()\<close> returned, the serializers still send the old
  buffer, while \<open>body_size()\<close> is that of the new string.\<close>

lemma body_edit_lost:
  assumes "msg_body_str m = None" "msg_body m = Some nb"
  shows "noncontiguous_body (message_body m) = Some nb \<and>
    body_bytes ((message_body m)\<lparr>msg_body_str := Some s\<rparr>) = FlattenSlow nb (- 1) \<and>
    body_size ((message_body m)\<lparr>msg_body_str := Some s\<rparr>) = word_of_nat (length s)"
  using assms by (simp add: noncontiguous_body_def message_body_def StringifyBody_def body_bytes_def body_size_def)

end
