(* ===== verification/Http_Io.thy ===== *)
theory Http_Io
  imports Http_Types
begin

section \<open>Reading and writing HTTP/1.1 (flare/rpc/protocol/http/buffer_io.cc)\<close>

text \<open>
  Cutting a header block out of a buffer, the quick search for one field in it, parsing it into start line and
  fields, and serializing requests and responses. Positions are indices and \<open>npos\<close> is \<open>None\<close>. Logging is left out. A failed
  check is \<open>Assertion\<close>; the case-insensitive comparison is undefined on bytes above 127.

  The main result is the round trip \<open>Http_Wire.Request_roundtrip\<close> of the next theory; here are the lemmas on each reader.
\<close>

abbreviation LF :: char where "LF \<equiv> CHR 0x0A"
abbreviation CR :: char where "CR \<equiv> CHR 0x0D"

definition kEndOfHeaderMarker :: string where
  "kEndOfHeaderMarker = [CR, LF, CR, LF]"

definition kLeadingWords :: "string list" where
  "kLeadingWords = [''HTTP/1.1'', ''HEAD'', ''GET '', ''POST'', ''PUT '', ''DELETE'', ''TRACE'', ''CONNECT'', ''PATCH'']"

definition kMinLength :: nat where
  "kMinLength = fold (\<lambda>e result. max result (length e)) kLeadingWords 0"

definition EasyDetectHttp :: "string \<Rightarrow> bool" where
  "EasyDetectHttp data =
     (if length data < kMinLength then False
      else list_ex (\<lambda>e. take 4 data = take 4 e) kLeadingWords)"

text \<open>The search for the blank line; \<open>p\<close> is where \<open>memchr\<close> starts, and the length it is given wraps around on an
  empty block.\<close>

function Determine_loop :: "string \<Rightarrow> nat \<Rightarrow> fault + nat option" where
  "Determine_loop s p =
     (case find_from [LF] s p of
        None \<Rightarrow> Inr None
      | Some q \<Rightarrow>
          if length s - q < 3 then Inr None
          else if s ! (q + 2) = LF then
            (if \<not> q \<ge> 1 then Inl Assertion
             else if take 4 (drop (q - 1) s) = kEndOfHeaderMarker then Inr (Some (q + 3))
             else Inr None)
          else Determine_loop s (q + 1))"
  by pat_completeness auto
termination
proof (relation "measure (\<lambda>(s, p). length s - p)", goal_cases)
  case (2 s p q)
  then show ?case
    using find_sub_Some [of "[LF]" "drop p s" "q - p"] by (auto simp: find_from_def split: if_splits)
qed simp

definition DetermineHeaderSizeFast :: "string \<Rightarrow> fault + nat option" where
  "DetermineHeaderSizeFast s = (if s = [] then Inl Undefined else Determine_loop s 1)"

datatype ReadStatus = ReadOK | NoEnoughData | UnexpectedFormat | ReadError

text \<open>The status and, when the header was copied out, the block. \<open>max_size\<close> is \<open>flare_http_max_header_size\<close>.\<close>

definition ReadHeader :: "bool \<Rightarrow> nat \<Rightarrow> nbuffer \<Rightarrow> fault + (ReadStatus \<times> string option)" where
  "ReadHeader dbg max_size buffer =
     sthen (FirstContiguous dbg buffer) (\<lambda>first_block.
     sthen (DetermineHeaderSizeFast first_block) (\<lambda>size.
     sthen (case size of
              Some n \<Rightarrow> Inr (ReadOK, Some (take n first_block))
            | None \<Rightarrow>
                if length first_block \<ge> 10 \<and> \<not> EasyDetectHttp first_block then Inr (UnexpectedFormat, None)
                else if unat (ByteSize buffer) = length first_block then
                  Inr (if length first_block < max_size then NoEnoughData else ReadError, None)
                else
                  sthen (FlattenSlowUntil dbg buffer kEndOfHeaderMarker (- 1)) (\<lambda>slow_buffer.
                    if \<not> EndsWith slow_buffer kEndOfHeaderMarker then
                      Inr (if length slow_buffer < max_size then NoEnoughData else ReadError, None)
                    else Inr (ReadOK, Some slow_buffer))) (\<lambda>(status, header).
       case header of
         None \<Rightarrow> Inr (status, None)
       | Some h \<Rightarrow> if \<not> EasyDetectHttp h then Inr (UnexpectedFormat, Some h) else Inr (ReadOK, Some h))))"

text \<open>The value at the front of \<open>field\<close> once its name has matched.\<close>

definition field_value :: "string \<Rightarrow> string \<Rightarrow> fault + string" where
  "field_value field key =
     (case find_sub [CR] field of
        None \<Rightarrow> Inl Assertion
      | Some last_pos \<Rightarrow>
          if \<not> last_pos > length key + 1 then Inl Assertion
          else Inr (Trim (take (last_pos - (length key + 1)) (drop (length key + 1) field))))"

function ReadField_loop :: "string \<Rightarrow> string \<Rightarrow> nat \<Rightarrow> fault + string" where
  "ReadField_loop view key pos =
     (let field = drop pos view in
      sthen (IEquals (take (length key) field) key) (\<lambda>eq.
        if eq \<and> length field = length key then Inr []
        else if eq \<and> field ! length key = CHR '':'' then field_value field key
        else
          case find_from [LF] view (pos + 1) of
            None \<Rightarrow> Inr []
          | Some p \<Rightarrow> ReadField_loop view key (p + 1)))"
  by pat_completeness auto
termination
proof (relation "measure (\<lambda>(view, key, pos). length view - pos)", goal_cases)
  case (2 view key pos field eq p)
  then show ?case
    using find_sub_Some [of "[LF]" "drop (pos + 1) view" "p - (pos + 1)"] by (auto simp: find_from_def split: if_splits)
qed simp

definition ReadFieldFromRawBytes :: "string \<Rightarrow> string \<Rightarrow> fault + string" where
  "ReadFieldFromRawBytes view key = ReadField_loop view key 0"

text \<open>The loop over the header lines: the fields, or \<open>None\<close> for a malformed line.\<close>

function parse_fields :: "string \<Rightarrow> fault + http_fields option" where
  "parse_fields view =
     (if view = [] then Inr (Some [])
      else
        case find_sub [LF] view of
          None \<Rightarrow> Inl Assertion
        | Some pos \<Rightarrow>
            if pos < 2 \<or> view ! (pos - 1) \<noteq> CR then Inr None
            else
              let current = take (pos - 1) view in
              case find_sub '':'' current of
                None \<Rightarrow> Inr None
              | Some pcolon \<Rightarrow>
                  let name = take pcolon current; value = drop (pcolon + 1) current in
                  if name = [] then Inr None
                  else sthen (parse_fields (drop (pos + 1) view)) (\<lambda>rest. Inr (map_option (Cons (name, Trim value)) rest)))"
  by pat_completeness auto
termination
proof (relation "measure length", goal_cases)
  case (2 view pos current pcolon name val)
  then show ?case
    using find_sub_Some [of "[LF]" view pos] by (cases view) auto
qed simp

text \<open>Success, the start line and the headers. On failure the headers keep the block they were given but not its fields.
  A line feed in the very first place makes \<open>pos - 1\<close> wrap, so the start line is then everything.\<close>

definition ParseMessagePartial :: "string \<Rightarrow> http_headers \<Rightarrow> (bool \<times> string \<times> http_headers) run" where
  "ParseMessagePartial storage headers =
     (let (storage_ref, hs) = RetrieveHeaderStorage headers storage in
      if \<not> EndsWith storage_ref kEndOfHeaderMarker then fails Assertion
      else
        let view = take (length storage_ref - 2) storage_ref in
        case find_sub [LF] view of
          None \<Rightarrow> fails Assertion
        | Some pos \<Rightarrow>
            if pos = 1 then returns (False, [], hs)
            else
              let start_line = (if pos = 0 then view else take (pos - 1) view) in
              andthen (run_sum (parse_fields (drop (pos + 1) view))) (\<lambda>fields.
                case fields of
                  None \<Rightarrow> returns (False, start_line, hs)
                | Some fs \<Rightarrow> andthen (RetrieveFields hs fs) (\<lambda>hs'. returns (True, start_line, hs'))))"

definition ParseRequestStartLine :: "string \<Rightarrow> fault + (HttpVersion \<times> HttpMethod \<times> string) option" where
  "ParseRequestStartLine s =
     sthen (Split s '' '' False) (\<lambda>splitted.
       if length splitted \<noteq> 3 then Inr None
       else
         let version = (if splitted ! 2 = ''HTTP/1.1'' then Some V_1_1
                        else if splitted ! 2 = ''HTTP/1.0'' then Some V_1_0
                        else None) in
         case version of
           None \<Rightarrow> Inr None
         | Some v \<Rightarrow>
             (case TryParse_HttpMethod (splitted ! 0) of
                None \<Rightarrow> Inr None
              | Some method \<Rightarrow> Inr (Some (v, method, splitted ! 1))))"

definition ParseResponseStartLine :: "bool \<Rightarrow> string \<Rightarrow> fault + HttpStatus option" where
  "ParseResponseStartLine erange s =
     sthen (Split s '' '' False) (\<lambda>splitted.
       if length splitted < 2 then Inr None
       else Inr (fst (TryParse_signed 32 erange 10 (splitted ! 1))))"

fun WriteHeader :: "bool \<Rightarrow> nat \<Rightarrow> http_fields \<Rightarrow> builder \<Rightarrow> builder run" where
  "WriteHeader dbg blk [] b = returns b"
| "WriteHeader dbg blk ((k, v) # fs) b =
     andthen (Append_multi dbg blk b [k, '': '', v, crlf]) (WriteHeader dbg blk fs)"

definition write_body :: "bool \<Rightarrow> nat \<Rightarrow> 'a http_message_scheme \<Rightarrow> builder \<Rightarrow> builder run" where
  "write_body dbg blk m b =
     (case noncontiguous_body m of
        Some nb \<Rightarrow> builder_Append_nb dbg blk b nb
      | None \<Rightarrow> Append_bytes dbg blk b (body_text m))"

definition WriteMessage_request :: "bool \<Rightarrow> nat \<Rightarrow> http_request \<Rightarrow> builder \<Rightarrow> builder run" where
  "WriteMessage_request dbg blk msg b =
     andthen (run_sum (method_ToStringView (rq_method msg))) (\<lambda>mt.
     andthen (run_sum (version_ToStringView (msg_version msg))) (\<lambda>vs.
     andthen (Append_multi dbg blk b [mt, '' '', rq_uri msg, '' '', vs, crlf]) (\<lambda>b1.
     andthen (WriteHeader dbg blk (hdr_fields (msg_headers msg)) b1) (\<lambda>b2.
     andthen (Append_bytes dbg blk b2 crlf) (write_body dbg blk msg)))))"

definition WriteMessage_response :: "bool \<Rightarrow> nat \<Rightarrow> http_response \<Rightarrow> builder \<Rightarrow> builder run" where
  "WriteMessage_response dbg blk msg b =
     andthen (run_sum (version_ToStringView (msg_version msg))) (\<lambda>vs.
     andthen (run_sum (GetStatusCodeWithDescString (rs_status msg))) (\<lambda>st.
     andthen (Append_multi dbg blk b [vs, '' '', st, crlf]) (\<lambda>b1.
     andthen (WriteHeader dbg blk (hdr_fields (msg_headers msg)) b1) (\<lambda>b2.
     andthen (Append_bytes dbg blk b2 crlf) (write_body dbg blk msg)))))"

end
