(* ===== verification/Http_Wire.thy ===== *)
theory Http_Wire
  imports Http_Io
begin

section \<open>The HTTP/1.1 protocol (flare/rpc/protocol/http/http11_protocol.cc)\<close>

text \<open>
  Cutting messages off a connection's buffer, parsing them and writing them. The protocol object
  remembers a header block it has read while the body is still arriving. Message classes are the constructors of
  \<open>http_msg\<close>; \<open>erange\<close> is the value of \<open>errno\<close> the number parser finds.

  \<open>Request_roundtrip\<close> is the main property: what a client writes for a well-formed request, the server cuts off and parses to
  the same request, leaving the bytes that follow. Two theorems show how a peer can bring the server down.
\<close>

datatype MessageCutStatus = ProtocolMismatch | NotIdentified | NeedMore | CutDone | CutError

record on_wire_message =
  wire_header_block :: string
  wire_body :: nbuffer

record http11_protocol =
  parsed_header_block :: "string option"

datatype http_msg = HttpRequestMessage http_request | HttpResponseMessage http_response | OtherMessage

definition kClobberedStartLines :: "string list" where
  "kClobberedStartLines = [''POST /rpc/'', ''POST /__rpc_service__'']"

definition IsMessageClobbered :: "string \<Rightarrow> bool" where
  "IsMessageClobbered view = list_ex (\<lambda>e. StartsWith view e) kClobberedStartLines"

definition kHttpResponsePrefix :: string where
  "kHttpResponsePrefix = ''HTTP/1.1 ''"

definition ExpectingContentLength :: "bool \<Rightarrow> string \<Rightarrow> bool" where
  "ExpectingContentLength erange view =
     (if StartsWith view ''GET'' \<or> StartsWith view ''HEAD'' \<or> StartsWith view ''PUT'' \<or> StartsWith view ''POST'' then False
      else if StartsWith view kHttpResponsePrefix then
        let status_sv = take 3 (drop (length kHttpResponsePrefix) view)
        in (case fst (TryParse_signed 32 erange 10 status_sv) of
              None \<Rightarrow> True
            | Some s \<Rightarrow> \<not> (s = 204 \<or> (s \<ge> 100 \<and> s < 200)))
      else True)"

text \<open>The first half of \<open>TryCutMessage\<close>: the header block, remembered or read now, or the status to return.\<close>

definition cut_header :: "bool \<Rightarrow> nat \<Rightarrow> http11_protocol \<Rightarrow> nbuffer \<Rightarrow> fault + (MessageCutStatus + string)" where
  "cut_header dbg max_size p buffer =
     (case parsed_header_block p of
        Some h \<Rightarrow> Inr (Inr h)
      | None \<Rightarrow>
          sthen (ReadHeader dbg max_size buffer) (\<lambda>(status, header).
            if status = UnexpectedFormat then Inr (Inl ProtocolMismatch)
            else if status = ReadError then Inr (Inl CutError)
            else if status = NoEnoughData then Inr (Inl NotIdentified)
            else
              (case header of
                 None \<Rightarrow> Inl Undefined
               | Some h \<Rightarrow> if IsMessageClobbered h then Inr (Inl ProtocolMismatch) else Inr (Inr h))))"

text \<open>The body size announced, \<open>None\<close> when a length is missing that should be there. The first number parsed may leave \<open>ERANGE\<close> behind for
  the second.\<close>

definition announced_size :: "bool \<Rightarrow> string \<Rightarrow> fault + u64 option" where
  "announced_size erange header_view =
     sthen (ReadFieldFromRawBytes header_view ''Content-Length'') (\<lambda>v.
       let (body_size, erange') = TryParse_unsigned 64 erange 10 v
       in (case body_size of
             Some n \<Rightarrow> Inr (Some (word_of_int n))
           | None \<Rightarrow> if \<not> ExpectingContentLength erange' header_view then Inr (Some 0) else Inr None))"

definition TryCutMessage ::
  "bool \<Rightarrow> bool \<Rightarrow> nat \<Rightarrow> http11_protocol \<Rightarrow> nbuffer \<Rightarrow>
   fault + (MessageCutStatus \<times> http11_protocol \<times> nbuffer \<times> on_wire_message option)" where
  "TryCutMessage dbg erange max_size p buffer =
     sthen (cut_header dbg max_size p buffer) (\<lambda>r.
       case r of
         Inl status \<Rightarrow> Inr (status, p, buffer, None)
       | Inr header_view \<Rightarrow>
           let p' = p\<lparr>parsed_header_block := Some header_view\<rparr> in
           sthen (announced_size erange header_view) (\<lambda>size_opt.
             case size_opt of
               None \<Rightarrow> Inr (CutError, p', buffer, None)
             | Some sz \<Rightarrow>
                 if ByteSize buffer < word_of_nat (length header_view) + sz then Inr (NeedMore, p', buffer, None)
                 else
                   sthen (nb_Skip dbg buffer (word_of_nat (length header_view))) (\<lambda>buffer1.
                   sthen (nb_Cut dbg buffer1 sz) (\<lambda>(body, buffer2).
                     Inr (CutDone, p'\<lparr>parsed_header_block := None\<rparr>, buffer2,
                          Some \<lparr>wire_header_block = header_view, wire_body = body\<rparr>)))))"

definition TryParse_server :: "on_wire_message \<Rightarrow> http_msg option run" where
  "TryParse_server msg =
     andthen (run_sum HttpRequest) (\<lambda>parsed.
     andthen (ParseMessagePartial (wire_header_block msg) (msg_headers parsed)) (\<lambda>(ok, start_line, hs).
       if \<not> ok then returns None
       else
         andthen (run_sum (ParseRequestStartLine start_line)) (\<lambda>r.
           case r of
             None \<Rightarrow> returns None
           | Some (version, method, uri) \<Rightarrow>
               returns (Some (HttpRequestMessage
                 (set_body_nb (wire_body msg)
                   (parsed\<lparr>msg_headers := hs, msg_version := version, rq_method := method, rq_uri := uri\<rparr>)))))))"

definition TryParse_client :: "bool \<Rightarrow> on_wire_message \<Rightarrow> http_msg option run" where
  "TryParse_client erange msg =
     andthen (run_sum HttpResponse) (\<lambda>parsed.
     andthen (ParseMessagePartial (wire_header_block msg) (msg_headers parsed)) (\<lambda>(ok, start_line, hs).
       if \<not> ok then returns None
       else
         andthen (run_sum (ParseResponseStartLine erange start_line)) (\<lambda>r.
           case r of
             None \<Rightarrow> returns None
           | Some status \<Rightarrow>
               returns (Some (HttpResponseMessage
                 (set_body_nb (wire_body msg) (parsed\<lparr>msg_headers := hs, rs_status := status\<rparr>)))))))"

definition Http11_TryParse :: "bool \<Rightarrow> bool \<Rightarrow> on_wire_message \<Rightarrow> http_msg option run" where
  "Http11_TryParse server_side erange msg = (if server_side then TryParse_server msg else TryParse_client erange msg)"

definition Http11_WriteMessage :: "bool \<Rightarrow> nat \<Rightarrow> http_msg \<Rightarrow> nbuffer run" where
  "Http11_WriteMessage dbg blk message =
     andthen (Builder blk) (\<lambda>builder.
     andthen (case message of
                HttpRequestMessage r \<Rightarrow> WriteMessage_request dbg blk r builder
              | HttpResponseMessage r \<Rightarrow> WriteMessage_response dbg blk r builder
              | OtherMessage \<Rightarrow> fails Assertion) (\<lambda>b.
       returns (DestructiveGet b)))"

section \<open>Header blocks\<close>

text \<open>A block is lines, each ended by CR LF, and a blank line.\<close>

definition header_block_of :: "string list \<Rightarrow> string" where
  "header_block_of ls = concat (map (\<lambda>l. l @ crlf) ls) @ crlf"

definition lines_ok :: "string list \<Rightarrow> bool" where
  "lines_ok ls \<longleftrightarrow> ls \<noteq> [] \<and> (\<forall>l \<in> set ls. l \<noteq> [] \<and> LF \<notin> set l)"

lemma header_block_Cons: "header_block_of (l # ls) = l @ CR # LF # header_block_of ls"
  by (simp add: header_block_of_def crlf_def)

lemma header_block_Nil: "header_block_of [] = [CR, LF]"
  by (simp add: header_block_of_def crlf_def)

lemma header_block_1:
  assumes "\<forall>l \<in> set ls. l \<noteq> [] \<and> LF \<notin> set l" "ls \<noteq> []"
  shows "(header_block_of ls @ t) ! 1 \<noteq> LF" "(header_block_of ls @ t) ! 0 \<noteq> LF"
proof -
  obtain l ls' where ls: "ls = l # ls'"
    using assms(2) by (cases ls) auto
  then obtain c r where l: "l = c # r" "c \<noteq> LF" "LF \<notin> set r"
    using assms(1) by (cases l) auto
  then show "(header_block_of ls @ t) ! 1 \<noteq> LF" "(header_block_of ls @ t) ! 0 \<noteq> LF"
    by (cases r; auto simp: ls header_block_Cons)+
qed

lemma length_header_block: "lines_ok ls \<Longrightarrow> 5 \<le> length (header_block_of ls)"
  by (cases ls) (auto simp: lines_ok_def header_block_Cons header_block_of_def crlf_def Suc_le_eq)

text \<open>No line feed before the last but one is followed by another two places on.\<close>

lemma header_block_LF:
  assumes "\<forall>l \<in> set ls. l \<noteq> [] \<and> LF \<notin> set l" "q + 3 < length (header_block_of ls)" "(header_block_of ls @ t) ! q = LF"
  shows "(header_block_of ls @ t) ! (q + 2) \<noteq> LF"
  using assms
proof (induction ls arbitrary: q)
  case Nil
  then show ?case
    by (simp add: header_block_Nil)
next
  case (Cons l ls)
  have nth: "(header_block_of (l # ls) @ t) ! (length l + 2 + i) = (header_block_of ls @ t) ! i" for i
    by (simp add: header_block_Cons nth_append)
  consider "q < length l" | "q = length l" | "q = length l + 1" | i where "q = length l + 2 + i"
    by (metis Suc_eq_plus1 add_2_eq_Suc' le_Suc_ex less_antisym linorder_not_less plus_1_eq_Suc add.commute)
  then show ?case
  proof cases
    case 1
    then have "LF \<in> set l"
      using Cons.prems(3) nth_mem [of q l] by (simp add: header_block_Cons nth_append)
    then show ?thesis
      using Cons.prems(1) by simp
  next
    case 2
    then show ?thesis
      using Cons.prems(3) by (simp add: header_block_Cons nth_append)
  next
    case 3
    then have "ls \<noteq> []"
      using Cons.prems(2) by (auto simp: header_block_Cons header_block_Nil)
    then show ?thesis
      using 3 nth [of 1] header_block_1(1) [of ls t] Cons.prems(1) by (simp add: numeral_2_eq_2)
  next
    case (4 i)
    then show ?thesis
      using Cons.IH [of i] Cons.prems nth [of i] nth [of "i + 2"] by (simp add: header_block_Cons add.assoc)
  qed
qed


lemma header_block_end:
  assumes "lines_ok ls"
  shows "drop (length (header_block_of ls) - 4) (header_block_of ls @ t) = kEndOfHeaderMarker @ t"
proof -
  obtain ls' l where ls: "ls = ls' @ [l]"
    using assms by (metis lines_ok_def rev_exhaust)
  have "header_block_of ls = concat (map (\<lambda>l. l @ crlf) ls') @ l @ kEndOfHeaderMarker"
    by (simp add: header_block_of_def ls kEndOfHeaderMarker_def crlf_def)
  then show ?thesis
    by (simp add: kEndOfHeaderMarker_def)
qed

lemma header_block_last:
  assumes "lines_ok ls"
  shows "(header_block_of ls @ t) ! (length (header_block_of ls) - 3) = LF" "(header_block_of ls @ t) ! (length (header_block_of ls) - 1) = LF"
    and "take 4 (drop (length (header_block_of ls) - 4) (header_block_of ls @ t)) = kEndOfHeaderMarker"
proof -
  let ?n = "length (header_block_of ls) - 4"
  have len: "5 \<le> length (header_block_of ls)"
    by (rule length_header_block [OF assms])
  have nth: "(header_block_of ls @ t) ! (?n + i) = (kEndOfHeaderMarker @ t) ! i" for i
    unfolding header_block_end [OF assms, symmetric] using len by (subst nth_drop) auto
  have eqs: "?n + 1 = length (header_block_of ls) - 3" "?n + 3 = length (header_block_of ls) - 1"
    using len by linarith+
  show "(header_block_of ls @ t) ! (length (header_block_of ls) - 3) = LF" "(header_block_of ls @ t) ! (length (header_block_of ls) - 1) = LF"
    using nth [of 1] nth [of 3] unfolding eqs by (simp_all add: kEndOfHeaderMarker_def)
  show "take 4 (drop ?n (header_block_of ls @ t)) = kEndOfHeaderMarker"
    unfolding header_block_end [OF assms] by (simp add: kEndOfHeaderMarker_def)
qed

lemma prefix_char_drop: "prefix [c] (drop i u) \<longleftrightarrow> i < length u \<and> u ! i = c"
  by (cases "i < length u") (auto simp: Cons_nth_drop_Suc [symmetric])

lemma find_sub_char_Some: "find_sub [c] s = Some q \<longleftrightarrow> q < length s \<and> s ! q = c \<and> (\<forall>i<q. s ! i \<noteq> c)"
proof
  assume "find_sub [c] s = Some q"
  from find_sub_Some [OF this] show "q < length s \<and> s ! q = c \<and> (\<forall>i<q. s ! i \<noteq> c)"
    by (auto simp: prefix_char_drop)
next
  assume "q < length s \<and> s ! q = c \<and> (\<forall>i<q. s ! i \<noteq> c)"
  then show "find_sub [c] s = Some q"
    by (intro find_sub_eqI) (auto simp: prefix_char_drop)
qed

lemma find_char_from:
  "find_from [c] s p = Some q \<longleftrightarrow> p \<le> q \<and> q < length s \<and> s ! q = c \<and> (\<forall>i. p \<le> i \<longrightarrow> i < q \<longrightarrow> s ! i \<noteq> c)"
proof -
  have "find_from [c] s p = Some q \<longleftrightarrow> p \<le> length s \<and> p \<le> q \<and> find_sub [c] (drop p s) = Some (q - p)"
    by (auto simp: find_from_def)
  also have "\<dots> \<longleftrightarrow> p \<le> q \<and> q < length s \<and> s ! q = c \<and> (\<forall>i < q - p. s ! (p + i) \<noteq> c)"
    unfolding find_sub_char_Some by auto
  also have "(\<forall>i < q - p. s ! (p + i) \<noteq> c) \<longleftrightarrow> (\<forall>i. p \<le> i \<longrightarrow> i < q \<longrightarrow> s ! i \<noteq> c)"
    by (metis add.commute le_Suc_ex less_diff_conv le_add1)
  finally show ?thesis .
qed

lemma find_char_from_None: "find_from [c] s p = None \<longleftrightarrow> (\<forall>i. p \<le> i \<longrightarrow> i < length s \<longrightarrow> s ! i \<noteq> c)"
proof -
  have "find_from [c] s p = None \<longleftrightarrow> p > length s \<or> c \<notin> set (drop p s)"
    by (auto simp: find_from_def find_sub_char_None)
  also have "\<dots> \<longleftrightarrow> (\<forall>i < length s - p. s ! (p + i) \<noteq> c)"
    by (auto simp: in_set_conv_nth)
  also have "\<dots> \<longleftrightarrow> (\<forall>i. p \<le> i \<longrightarrow> i < length s \<longrightarrow> s ! i \<noteq> c)"
    by (metis add.commute le_Suc_ex less_diff_conv le_add1)
  finally show ?thesis .
qed

text \<open>On any prefix of a block and what follows it, the fast search finds the end of the block exactly if the prefix reaches it.\<close>

lemma Determine_loop_block:
  assumes ok: "lines_ok ls"
  shows "1 \<le> p \<Longrightarrow> p + 3 \<le> length (header_block_of ls) \<Longrightarrow> prefix s (header_block_of ls @ t) \<Longrightarrow>
    Determine_loop s p = Inr (if length (header_block_of ls) \<le> length s then Some (length (header_block_of ls)) else None)"
proof (induction "length s - p" arbitrary: p rule: less_induct)
  case less
  let ?b = "header_block_of ls @ t" and ?H = "length (header_block_of ls)"
  have nth: "s ! i = ?b ! i" if "i < length s" for i
    using less.prems(3) that by (metis nth_append prefix_def)
  have H: "5 \<le> ?H"
    by (rule length_header_block [OF ok])
  have last: "?b ! (?H - 3) = LF" "?b ! (?H - 1) = LF"
    using header_block_last [OF ok] by simp_all
  show ?case
  proof (cases "find_from [LF] s p")
    case None
    then have "\<not> ?H - 3 < length s"
      using less.prems(2) last(1) nth [of "?H - 3"] unfolding find_char_from_None by auto
    then show ?thesis
      using None H by (subst Determine_loop.simps) simp
  next
    case (Some q)
    then have q: "p \<le> q" "q < length s" "s ! q = LF" "\<And>i. p \<le> i \<Longrightarrow> i < q \<Longrightarrow> s ! i \<noteq> LF"
      unfolding find_char_from by simp_all
    have le: "q \<le> ?H - 3"
    proof (rule ccontr)
      assume "\<not> q \<le> ?H - 3"
      then have "s ! (?H - 3) \<noteq> LF"
        using q(4) [of "?H - 3"] less.prems(2) by linarith
      then show False
        using last(1) nth [of "?H - 3"] q(2) \<open>\<not> q \<le> ?H - 3\<close> by simp
    qed
    show ?thesis
    proof (cases "length s - q < 3")
      case True
      then show ?thesis
        using Some le H by (subst Determine_loop.simps) simp
    next
      case not_short: False
      show ?thesis
      proof (cases "q = ?H - 3")
        case True
        then have "s ! (q + 2) = LF"
          using last(2) nth [of "q + 2"] not_short H by (simp add: numeral_eq_Suc Suc_diff_Suc)
        moreover have "take 4 (drop (q - 1) s) = kEndOfHeaderMarker"
        proof -
          obtain u where "?b = s @ u"
            using less.prems(3) by (auto simp: prefix_def)
          then have "take 4 (drop (q - 1) ?b) = take 4 (drop (q - 1) s)"
            using not_short True H by simp
          then show ?thesis
            using header_block_last(3) [OF ok, of t] True by (simp add: numeral_eq_Suc)
        qed
        ultimately show ?thesis
          using Some not_short True H by (subst Determine_loop.simps) auto
      next
        case False
        then have "q + 3 < ?H"
          using le H by linarith
        then have "s ! (q + 2) \<noteq> LF"
          using header_block_LF [of ls q t] ok q(2,3) nth [of q] nth [of "q + 2"] not_short by (auto simp: lines_ok_def)
        then show ?thesis
          using Some not_short less.hyps [of "q + 1"] less.prems q(1,2) \<open>q + 3 < ?H\<close> by (subst Determine_loop.simps) simp
      qed
    qed
  qed
qed


lemma until_block:
  assumes ok: "lines_ok ls"
  shows "until kEndOfHeaderMarker (header_block_of ls @ t) = header_block_of ls"
proof -
  let ?H = "length (header_block_of ls)"
  have H: "5 \<le> ?H"
    by (rule length_header_block [OF ok])
  have "find_sub kEndOfHeaderMarker (header_block_of ls @ t) = Some (?H - 4)"
  proof (rule find_sub_eqI)
    show "prefix kEndOfHeaderMarker (drop (?H - 4) (header_block_of ls @ t))"
      unfolding header_block_end [OF ok] by simp
    show "?H - 4 + length kEndOfHeaderMarker \<le> length (header_block_of ls @ t)"
      using H by (simp add: kEndOfHeaderMarker_def)
    show "\<not> prefix kEndOfHeaderMarker (drop j (header_block_of ls @ t))" if j: "j < ?H - 4" for j
    proof
      assume "prefix kEndOfHeaderMarker (drop j (header_block_of ls @ t))"
      then obtain u where u: "drop j (header_block_of ls @ t) = kEndOfHeaderMarker @ u"
        by (auto simp: prefix_def)
      have "(header_block_of ls @ t) ! (j + i) = (kEndOfHeaderMarker @ u) ! i" for i
        unfolding u [symmetric] using j by (subst nth_drop) auto
      from this [of 1] this [of 3] have "(header_block_of ls @ t) ! (j + 1) = LF" "(header_block_of ls @ t) ! (j + 3) = LF"
        by (simp_all add: kEndOfHeaderMarker_def)
      moreover have "(header_block_of ls @ t) ! (j + 1 + 2) \<noteq> LF"
        by (rule header_block_LF) (use ok j calculation(1) in \<open>auto simp: lines_ok_def\<close>)
      ultimately show False
        by (simp add: numeral_eq_Suc)
    qed
  qed
  then show ?thesis
    using H by (simp add: until_def kEndOfHeaderMarker_def)
qed

lemma EasyDetectHttp_prefix:
  assumes "EasyDetectHttp s" "prefix b (s @ t)" "10 \<le> length b"
  shows "EasyDetectHttp b"
proof -
  have len: "8 \<le> length s"
    using assms(1) by (simp add: EasyDetectHttp_def kMinLength_def kLeadingWords_def split: if_splits)
  obtain u where u: "s @ t = b @ u"
    using assms(2) by (auto simp: prefix_def)
  have "take 4 (s @ t) = take 4 s" "take 4 (b @ u) = take 4 b"
    using len assms(3) by simp_all
  then have "take 4 b = take 4 s"
    using u by simp
  then show ?thesis
    using assms(1,3) by (simp add: EasyDetectHttp_def kMinLength_def kLeadingWords_def split: if_splits)
qed

lemma EndsWith_block: "lines_ok ls \<Longrightarrow> EndsWith (header_block_of ls) kEndOfHeaderMarker"
  unfolding EndsWith_suffix using header_block_end [of ls "[]"] suffix_drop [of "length (header_block_of ls) - 4" "header_block_of ls"] by simp

lemma ReadHeader_block:
  assumes nb: "nb_ok nb" "nb_bytes nb = header_block_of ls @ t" and ok: "lines_ok ls" "EasyDetectHttp (header_block_of ls)"
  shows "ReadHeader dbg max_size nb = Inr (ReadOK, Some (header_block_of ls))"
proof -
  let ?h = "header_block_of ls"
  have H: "5 \<le> length ?h"
    by (rule length_header_block [OF ok(1)])
  then have "nb_bytes nb \<noteq> []"
    using nb(2) by auto
  then obtain b bs where b: "FirstContiguous dbg nb = Inr b" "nb_buffers nb = b # bs" "b \<noteq> []"
    by (rule FirstContiguous_ok [OF nb(1)])
  have pre: "prefix b (?h @ t)"
    unfolding nb(2) [symmetric] using b(2) by (simp add: nb_bytes_def)
  have det: "DetermineHeaderSizeFast b = Inr (if length ?h \<le> length b then Some (length ?h) else None)"
    using b(3) Determine_loop_block [OF ok(1) _ _ pre, of 1] H by (simp add: DetermineHeaderSizeFast_def)
  show ?thesis
  proof (cases "length ?h \<le> length b")
    case True
    then have "take (length ?h) b = ?h"
      using pre by (metis append_eq_conv_conj prefix_def take_append prefix_length_prefix prefix_order.order_refl prefix_prefix)
    then show ?thesis
      using True ok(2) by (simp add: ReadHeader_def b(1) det)
  next
    case False
    have easy: "EasyDetectHttp b" if "10 \<le> length b"
      by (rule EasyDetectHttp_prefix [OF ok(2) pre that])
    have "unat (ByteSize nb) \<noteq> length b"
      using False nb_okD(3) [OF nb(1)] nb(2) by (simp add: ByteSize_def)
    then show ?thesis
      using False easy ok FlattenSlowUntil_all [OF nb(1)]
      by (simp add: ReadHeader_def b(1) det nb(2) until_block EndsWith_block)
  qed
qed


subsection \<open>Parsing a block\<close>

definition field_line :: "string \<times> string \<Rightarrow> string" where
  "field_line f = fst f @ '': '' @ snd f"

definition field_ok :: "string \<times> string \<Rightarrow> bool" where
  "field_ok f \<longleftrightarrow> fst f \<noteq> [] \<and> ascii (fst f) \<and> ascii (snd f) \<and> CHR '':'' \<notin> set (fst f) \<and>
     LF \<notin> set (fst f @ snd f) \<and> CR \<notin> set (fst f @ snd f) \<and> Trim (snd f) = snd f"

lemma Trim_space: "Trim (CHR '' '' # s) = Trim s"
  by (simp add: Trim_dropWhile)

declare parse_fields.simps [simp del]

lemma parse_fields_lines:
  "\<forall>f \<in> set fs. field_ok f \<Longrightarrow> parse_fields (concat (map (\<lambda>f. field_line f @ crlf) fs)) = Inr (Some fs)"
proof (induction fs)
  case Nil
  then show ?case
    by (subst parse_fields.simps) simp
next
  case (Cons f fs)
  obtain k v where f: "f = (k, v)"
    by (cases f)
  have ok: "k \<noteq> []" "CHR '':'' \<notin> set k" "LF \<notin> set k" "LF \<notin> set v" "Trim v = v"
    using Cons.prems by (auto simp: field_ok_def f)
  let ?rest = "concat (map (\<lambda>f. field_line f @ crlf) fs)"
  let ?line = "k @ CHR '':'' # CHR '' '' # v"
  let ?view = "(?line @ [CR]) @ LF # ?rest"
  have lf: "find_sub [LF] ?view = Some (length ?line + 1)"
    using find_sub_char(1) [of LF "?line @ [CR]" ?rest] ok by simp
  have colon: "find_sub '':'' ?line = Some (length k)"
    using find_sub_char(1) [of "CHR '':''" k "CHR '' '' # v"] ok by simp
  have nth: "?view ! length ?line = CR" and tk: "take (length ?line) ?view = ?line" and dr: "drop (length ?line + 2) ?view = ?rest"
    by (simp_all add: nth_append numeral_eq_Suc)
  have "parse_fields ?view = Inr (Some ((k, v) # fs))"
    using Cons.IH Cons.prems lf colon nth tk dr ok by (subst parse_fields.simps) (simp add: Let_def Trim_space)
  then show ?case
    by (simp add: f field_line_def crlf_def)
qed

lemma RetrieveFields_ok:
  assumes hs: "idx_ok (header_idx hs) []" and fs: "\<And>k. k \<in> fst ` set fs \<Longrightarrow> ascii k" and len: "length fs < 2 ^ 58"
  obtains hs' where "RetrieveFields hs fs = returns hs'" "headers_ok hs'" "hdr_fields hs' = fs"
proof -
  have "\<exists>m'. index_fields fs (word_of_nat (length ([] :: http_fields))) (header_idx hs) = returns m' \<and> idx_ok m' ([] @ fs)"
    using len by (intro index_fields_ok [OF hs fs]) simp_all
  then show thesis
    using that by (auto simp: RetrieveFields_def headers_ok_def)
qed

lemma ParseMessagePartial_block:
  assumes hs: "headers_ok hs" and start: "start \<noteq> []" "LF \<notin> set start" and fs: "\<forall>f \<in> set fs. field_ok f" and len: "length fs < 2 ^ 58"
  obtains hs' where "ParseMessagePartial (header_block_of (start # map field_line fs)) hs = returns (True, start, hs')"
    "headers_ok hs'" "hdr_fields hs' = fs"
proof -
  let ?s = "header_block_of (start # map field_line fs)"
  let ?rest = "concat (map (\<lambda>f. field_line f @ crlf) fs)"
  have lines: "lines_ok (start # map field_line fs)"
    using start fs by (auto simp: lines_ok_def field_ok_def field_line_def)
  have s: "?s = start @ CR # LF # ?rest @ [CR, LF]"
    by (simp add: header_block_of_def crlf_def comp_def)
  then have view: "take (length ?s - 2) ?s = (start @ [CR]) @ LF # ?rest"
    by simp
  have lf: "find_sub [LF] ((start @ [CR]) @ LF # ?rest) = Some (length start + 1)"
    using find_sub_char(1) [of LF "start @ [CR]" ?rest] start(2) by simp
  obtain r hs1 where hs1: "RetrieveHeaderStorage hs ?s = (?s, hs1)" "idx_ok (header_idx hs1) []"
    using hs idx_ok_clear by (auto simp: RetrieveHeaderStorage_def headers_ok_def)
  have asc: "\<And>k. k \<in> fst ` set fs \<Longrightarrow> ascii k"
    using fs by (auto simp: field_ok_def)
  obtain hs' where hs': "RetrieveFields hs1 fs = returns hs'" "headers_ok hs'" "hdr_fields hs' = fs"
    by (rule RetrieveFields_ok [OF hs1(2) asc len])
  have "ParseMessagePartial ?s hs = returns (True, start, hs')"
    unfolding ParseMessagePartial_def hs1(1) prod.case Let_def view lf
    using start(1) EndsWith_block [OF lines] hs'(1) parse_fields_lines [OF fs] by simp
  then show thesis
    using hs'(2,3) by (rule that)
qed


subsection \<open>The quick search for a field\<close>

declare ReadField_loop.simps [simp del]

lemma ReadField_next_line:
  assumes l: "LF \<notin> set l" and asc: "ascii (take (length key) (l @ CR # LF # rest))" "ascii key"
    and no: "lower (take (length key) (l @ CR # LF # rest)) \<noteq> lower key \<or>
      length key < length (l @ CR # LF # rest) \<and> (l @ CR # LF # rest) ! length key \<noteq> CHR '':''"
  shows "ReadField_loop (pre @ l @ CR # LF # rest) key (length pre) =
    ReadField_loop (pre @ l @ CR # LF # rest) key (length (pre @ l @ [CR, LF]))"
proof -
  have lf: "find_from [LF] (pre @ l @ CR # LF # rest) (length pre + 1) = Some (length pre + length l + 1)"
    unfolding find_char_from using l by (auto simp: nth_append nth_Cons' in_set_conv_nth)
  then show ?thesis
    using no IEquals_ascii [OF asc] by (subst ReadField_loop.simps) (auto simp: Let_def)
qed

lemma ReadField_match:
  assumes k: "ascii k" "CR \<notin> set (k @ v)" and key: "lower k = lower key" "ascii key"
  shows "ReadField_loop (pre @ (k @ '': '' @ v) @ CR # LF # rest) key (length pre) = Inr (Trim v)"
proof -
  let ?field = "k @ CHR '':'' # CHR '' '' # v @ CR # LF # rest"
  have len: "length key = length k"
    using key(1) by (metis lower_def length_map)
  have cr: "find_sub [CR] ?field = Some (length k + 2 + length v)"
    using find_sub_char(1) [of CR "k @ CHR '':'' # CHR '' '' # v" "LF # rest"] k(2) by simp
  have "take (length k + 2 + length v - (length key + 1)) (drop (length key + 1) ?field) = CHR '' '' # v"
    by (simp add: len numeral_eq_Suc)
  then have "field_value ?field key = Inr (Trim v)"
    by (simp add: field_value_def cr len Trim_space)
  then show ?thesis
    using IEquals_ascii [OF k(1) key(2)] key(1) by (subst ReadField_loop.simps) (simp add: Let_def len nth_append)
qed

lemma kLowerChars_symbol:
  assumes "\<not> (97 \<le> code d \<and> code d \<le> 122)" "\<not> (65 \<le> code d \<and> code d \<le> 90)"
  shows "kLowerChars (code c) = d \<longleftrightarrow> c = d"
proof -
  have "char_of n = d \<longleftrightarrow> n = code d" if "n < 256" for n
    using that by (metis of_char_of char_of_char mod_less)
  moreover have "code c < 256"
    by simp
  ultimately show ?thesis
    using assms by (auto simp: kLowerChars_def)
qed

lemma ascii_append: "ascii (a @ b) \<longleftrightarrow> ascii a \<and> ascii b" "ascii (c # a) \<longleftrightarrow> code c < 128 \<and> ascii a" "ascii []"
  by (auto simp: ascii_def)

lemma ascii_take: "ascii s \<Longrightarrow> ascii (take n s)"
  by (auto simp: ascii_def dest: in_set_takeD)

lemma ReadField_end:
  assumes "ascii key" "key \<noteq> []" "CR \<notin> set key"
  shows "ReadField_loop (pre @ [CR, LF]) key (length pre) = Inr []"
proof -
  have "lower (take (length key) [CR, LF]) \<noteq> lower key"
  proof (cases key)
    case (Cons c cs)
    have "c \<noteq> CR"
      using Cons assms(3) by auto
    then have "kLowerChars (code CR) \<noteq> kLowerChars (code c)"
      using kLowerChars_symbol [of CR c] kLowerChars_symbol [of CR CR] by simp
    then show ?thesis
      unfolding Cons by (simp only: list.size take_Suc_Cons lower_def list.map list.inject simp_thms add_Suc_right add_0_right)
  qed (use assms(2) in simp)
  then have "ReadField_loop (pre @ [] @ CR # LF # []) key (length pre) = ReadField_loop (pre @ [] @ CR # LF # []) key (length (pre @ [] @ [CR, LF]))"
    using assms(1) by (intro ReadField_next_line) (simp_all add: ascii_append ascii_take)
  also have "\<dots> = Inr []"
    using assms(2) by (subst ReadField_loop.simps) (simp add: Let_def IEquals_def find_from_def)
  finally show ?thesis
    by simp
qed


lemma ascii_field_lines: "\<forall>f \<in> set fs. field_ok f \<Longrightarrow> ascii (concat (map (\<lambda>f. field_line f @ crlf) fs) @ crlf)"
  by (induction fs) (auto simp: ascii_append field_line_def crlf_def field_ok_def)

definition key_ok :: "string \<Rightarrow> bool" where
  "key_ok key \<longleftrightarrow> key \<noteq> [] \<and> ascii key \<and> CR \<notin> set key \<and> CHR '':'' \<notin> set key"

lemma other_field:
  assumes key: "key_ok key" and k: "CHR '':'' \<notin> set k" "lower k \<noteq> lower key"
  shows "lower (take (length key) (k @ CHR '':'' # r)) \<noteq> lower key \<or>
    length key < length (k @ CHR '':'' # r) \<and> (k @ CHR '':'' # r) ! length key \<noteq> CHR '':''"
proof (rule disjCI)
  let ?F = "k @ CHR '':'' # r"
  assume no: "\<not> (length key < length ?F \<and> ?F ! length key \<noteq> CHR '':'')"
  show "lower (take (length key) ?F) \<noteq> lower key"
  proof
    assume eq: "lower (take (length key) ?F) = lower key"
    consider "length key < length k" | "length key = length k" | "length k < length key"
      by linarith
    then show False
    proof cases
      case 1
      then have "?F ! length key = k ! length key"
        by (simp add: nth_append)
      then show ?thesis
        using 1 no k(1) nth_mem [OF 1] by auto
    next
      case 2
      then show ?thesis
        using eq k(2) by simp
    next
      case 3
      then have "kLowerChars (code (key ! length k)) = lower (take (length key) ?F) ! length k"
        unfolding eq by (simp add: lower_def)
      also have "\<dots> = kLowerChars (code (CHR '':''))"
        using 3 by (simp add: lower_def nth_append)
      also have "\<dots> = CHR '':''"
        using kLowerChars_symbol [of "CHR '':''" "CHR '':''"] by simp
      finally have "key ! length k = CHR '':''"
        using kLowerChars_symbol [of "CHR '':''" "key ! length k"] by simp
      then show ?thesis
        using key 3 nth_mem [OF 3] by (auto simp: key_ok_def)
    qed
  qed
qed

lemma ReadField_fields:
  assumes key: "key_ok key"
  shows "\<forall>f \<in> set fs. field_ok f \<Longrightarrow>
    ReadField_loop (pre @ concat (map (\<lambda>f. field_line f @ crlf) fs) @ crlf) key (length pre) =
      Inr (case map_of (normed lower fs) (lower key) of None \<Rightarrow> [] | Some v \<Rightarrow> v)"
proof (induction fs arbitrary: pre)
  case Nil
  then show ?case
    using ReadField_end [of key pre] key by (simp add: crlf_def key_ok_def)
next
  case (Cons f fs)
  obtain k v where f: "f = (k, v)"
    by (cases f)
  have ok: "ascii k" "ascii v" "CHR '':'' \<notin> set k" "LF \<notin> set (k @ v)" "CR \<notin> set (k @ v)" "Trim v = v"
    using Cons.prems by (auto simp: field_ok_def f)
  let ?rest = "concat (map (\<lambda>f. field_line f @ crlf) fs) @ crlf"
  have view: "pre @ concat (map (\<lambda>f. field_line f @ crlf) (f # fs)) @ crlf = pre @ (k @ '': '' @ v) @ CR # LF # ?rest"
    by (simp add: f field_line_def crlf_def)
  have rest: "ascii ?rest"
    using Cons.prems by (intro ascii_field_lines) simp
  show ?case
  proof (cases "lower k = lower key")
    case True
    then show ?thesis
      unfolding view using ReadField_match [OF ok(1,5) True] key ok(6) by (simp add: f key_ok_def)
  next
    case False
    have "ascii ((k @ '': '' @ v) @ CR # LF # ?rest)"
      using ok rest by (simp add: ascii_append)
    then have "ascii (take (length key) ((k @ '': '' @ v) @ CR # LF # ?rest))"
      by (rule ascii_take)
    moreover have "lower (take (length key) ((k @ '': '' @ v) @ CR # LF # ?rest)) \<noteq> lower key \<or>
        length key < length ((k @ '': '' @ v) @ CR # LF # ?rest) \<and> ((k @ '': '' @ v) @ CR # LF # ?rest) ! length key \<noteq> CHR '':''"
      using other_field [OF key ok(3) False, of "CHR '' '' # v @ CR # LF # ?rest"] by simp
    ultimately have "ReadField_loop (pre @ (k @ '': '' @ v) @ CR # LF # ?rest) key (length pre) =
        ReadField_loop (pre @ (k @ '': '' @ v) @ CR # LF # ?rest) key (length (pre @ (k @ '': '' @ v) @ [CR, LF]))"
      using key ok(4) by (intro ReadField_next_line) (auto simp: key_ok_def)
    then show ?thesis
      unfolding view using Cons.IH [of "pre @ (k @ '': '' @ v) @ [CR, LF]"] Cons.prems False by (simp add: f)
  qed
qed


section \<open>Requests round-trip\<close>

definition request_line :: "http_request \<Rightarrow> string" where
  "request_line r = kStringifiedMethods ! method_value (rq_method r) @ '' '' @ rq_uri r @ '' '' @ kStringizedVersion ! version_value (msg_version r)"

definition request_fields :: "http_request \<Rightarrow> http_fields" where
  "request_fields r = hdr_fields (msg_headers r)"

definition request_header :: "http_request \<Rightarrow> string" where
  "request_header r = header_block_of (request_line r # map field_line (request_fields r))"

text \<open>A request that HTTP/1.1 can carry and this parser reads: a method it knows, a target without spaces, fields within the grammar, not
  addressed to the RPC services, and the length of its body announced.\<close>

definition request_ok :: "http_request \<Rightarrow> bool" where
  "request_ok r \<longleftrightarrow>
     rq_method r \<noteq> Unspecified \<and> rq_method r \<noteq> Options \<and> (msg_version r = V_1_0 \<or> msg_version r = V_1_1) \<and>
     rq_uri r \<noteq> [] \<and> ascii (rq_uri r) \<and> CHR '' '' \<notin> set (rq_uri r) \<and> LF \<notin> set (rq_uri r) \<and>
     list_all field_ok (request_fields r) \<and> length (request_fields r) < 2 ^ 58 \<and>
     \<not> IsMessageClobbered (request_line r) \<and>
     map_of (normed lower (request_fields r)) (lower ''Content-Length'') = Some (show_nat (length (body_bytes r))) \<and>
     length (body_bytes r) < 2 ^ 62 \<and> (case msg_body r of None \<Rightarrow> True | Some nb \<Rightarrow> nb_ok nb)"

lemma header_lines_eq: "header_lines fs = concat (map (\<lambda>f. field_line f @ crlf) fs)"
  by (simp add: header_lines_def field_line_def case_prod_beta')

lemma request_header_eq: "request_header r = request_line r @ crlf @ header_lines (request_fields r) @ crlf"
  by (simp add: request_header_def header_block_of_def header_lines_eq comp_def)

lemma WriteHeader_ok:
  "bd_ok blk b \<Longrightarrow> length (bd_bytes b) + length (header_lines fs) < 2 ^ 64 \<Longrightarrow> appends blk b (header_lines fs) (WriteHeader dbg blk fs b)"
proof (induction fs arbitrary: b)
  case (Cons f fs)
  obtain k v where f: "f = (k, v)"
    by (cases f)
  have "appends blk b (concat [k, '': '', v, crlf] @ header_lines fs) (andthen (Append_multi dbg blk b [k, '': '', v, crlf]) (WriteHeader dbg blk fs))"
    by (rule appends_trans [OF Append_multi_ok [OF Cons.prems(1)] Cons.IH]) (use Cons.prems(2) in \<open>simp_all add: f header_lines_def\<close>)
  then show ?case
    by (simp add: f header_lines_def)
qed (simp add: appends_def header_lines_def)

lemma write_body_ok:
  assumes "bd_ok blk b" "case msg_body m of None \<Rightarrow> True | Some nb \<Rightarrow> nb_ok nb" "length (bd_bytes b) + length (body_bytes m) < 2 ^ 64"
  shows "appends blk b (body_bytes m) (write_body dbg blk m b)"
proof (cases "msg_body m")
  case None
  then show ?thesis
    using Append_bytes_ok [OF assms(1), of "body_text m"] assms(3)
    by (simp add: write_body_def body_bytes_def noncontiguous_body_def)
next
  case (Some nb)
  then show ?thesis
    using builder_Append_nb_ok [OF assms(1), of nb] assms(2,3)
    by (simp add: write_body_def body_bytes_def noncontiguous_body_def FlattenSlow_all)
qed

lemma method_prints: "method_ToStringView m = Inr (kStringifiedMethods ! method_value m)"
  by (cases m) (simp_all add: method_printing)

lemma version_prints: "version_ToStringView v = Inr (kStringizedVersion ! version_value v)"
  by (cases v) (simp_all add: version_ToStringView_def nth_view_def kStringizedVersion_def)

lemma Write_request_ok:
  assumes r: "request_ok r" and blk: "0 < blk" and len: "length (request_header r) + length (body_bytes r) < 2 ^ 64"
  obtains w where "Http11_WriteMessage dbg blk (HttpRequestMessage r) = returns w" "nb_ok w" "nb_bytes w = request_header r @ body_bytes r"
proof -
  obtain b0 where b0: "Builder blk = returns b0" "bd_ok blk b0" "bd_bytes b0 = []"
    using Builder_ok [OF blk] by blast
  let ?parts = "[kStringifiedMethods ! method_value (rq_method r), '' '', rq_uri r, '' '', kStringizedVersion ! version_value (msg_version r), crlf]"
  have parts: "concat ?parts = request_line r @ crlf"
    by (simp add: request_line_def)
  have nb: "case msg_body r of None \<Rightarrow> True | Some nb \<Rightarrow> nb_ok nb"
    using r by (simp add: request_ok_def)
  have tot: "length (concat ?parts) + length (header_lines (request_fields r)) + length crlf + length (body_bytes r) < 2 ^ 64"
    using len unfolding parts by (simp add: request_header_eq)
  have "appends blk b0 (concat ?parts @ header_lines (request_fields r) @ crlf @ body_bytes r)
      (andthen (Append_multi dbg blk b0 ?parts) (\<lambda>b1.
       andthen (WriteHeader dbg blk (request_fields r) b1) (\<lambda>b2.
       andthen (Append_bytes dbg blk b2 crlf) (write_body dbg blk r))))"
    by (intro appends_trans Append_multi_ok WriteHeader_ok Append_bytes_ok write_body_ok nb b0(2)) (use tot b0(3) in simp_all)
  then obtain b' where b': "WriteMessage_request dbg blk r b0 = returns b'" "bd_ok blk b'" "bd_bytes b' = request_header r @ body_bytes r"
    unfolding appends_def parts
    by (auto simp: WriteMessage_request_def method_prints version_prints request_fields_def request_header_eq b0(3))
  have "nb_ok (DestructiveGet b')" "nb_bytes (DestructiveGet b') = request_header r @ body_bytes r"
    using DestructiveGet_ok [OF b'(2)] len by (simp_all add: b'(3))
  moreover have "Http11_WriteMessage dbg blk (HttpRequestMessage r) = returns (DestructiveGet b')"
    by (simp add: Http11_WriteMessage_def b0(1) b'(1))
  ultimately show thesis
    by (rule_tac that)
qed

lemma parse_request_line:
  assumes "request_ok r"
  shows "ParseRequestStartLine (request_line r) = Inr (Some (msg_version r, rq_method r, rq_uri r))"
proof -
  let ?m = "kStringifiedMethods ! method_value (rq_method r)" and ?v = "kStringizedVersion ! version_value (msg_version r)"
  have ok: "CHR '' '' \<notin> set ?m" "?m \<noteq> []" "CHR '' '' \<notin> set ?v" "?v \<noteq> []" "TryParse_HttpMethod ?m = Some (rq_method r)"
    "?v = (if msg_version r = V_1_1 then ''HTTP/1.1'' else ''HTTP/1.0'')"
    using assms by (cases "rq_method r"; cases "msg_version r";
      auto simp: request_ok_def kStringifiedMethods_def kStringizedVersion_def TryParse_HttpMethod_def kMethodEnumerators_def)+
  have uri: "CHR '' '' \<notin> set (rq_uri r)" "rq_uri r \<noteq> []"
    using assms by (simp_all add: request_ok_def)
  have "Split_loop (?m @ CHR '' '' # rq_uri r @ CHR '' '' # ?v) '' '' False = [?m, rq_uri r, ?v]"
    using ok uri by (simp add: Split_loop.simps find_sub_char)
  then have "Split (request_line r) '' '' False = Inr [?m, rq_uri r, ?v]"
    by (simp add: Split_def request_line_def)
  then show ?thesis
    using ok assms by (auto simp: ParseRequestStartLine_def request_ok_def)
qed


lemma method_facts:
  assumes "m \<noteq> Unspecified" "m \<noteq> Options"
  shows "\<exists>e \<in> set kLeadingWords. take 4 (kStringifiedMethods ! method_value m @ CHR '' '' # s) = take 4 e"
    and "take 4 (lower (take 14 (kStringifiedMethods ! method_value m @ CHR '' '' # s))) \<noteq> take 4 (lower ''Content-Length'')"
    and "LF \<notin> set (kStringifiedMethods ! method_value m)" "ascii (kStringifiedMethods ! method_value m)" "kStringifiedMethods ! method_value m \<noteq> []"
  using assms by (cases m; simp add: kLeadingWords_def kStringifiedMethods_def lower_def kLowerChars_def ascii_def)+

lemma version_facts:
  "LF \<notin> set (kStringizedVersion ! version_value v)" "ascii (kStringizedVersion ! version_value v)" "6 \<le> length (kStringizedVersion ! version_value v)"
  by (cases v; simp add: kStringizedVersion_def ascii_def)+

lemma request_lines_ok:
  assumes "request_ok r"
  shows "request_line r \<noteq> []" "LF \<notin> set (request_line r)" "ascii (request_line r)" "\<forall>f \<in> set (request_fields r). field_ok f"
    "lines_ok (request_line r # map field_line (request_fields r))"
proof -
  note ok = assms [unfolded request_ok_def]
  show fs: "\<forall>f \<in> set (request_fields r). field_ok f"
    using ok by (simp add: list_all_iff)
  show line: "request_line r \<noteq> []" "LF \<notin> set (request_line r)" "ascii (request_line r)"
    using ok method_facts [of "rq_method r"] version_facts [of "msg_version r"] by (simp_all add: request_line_def ascii_append)
  show "lines_ok (request_line r # map field_line (request_fields r))"
    using line fs by (auto simp: lines_ok_def field_ok_def field_line_def)
qed

lemma request_easy:
  assumes "request_ok r"
  shows "EasyDetectHttp (request_header r)"
proof -
  have m: "rq_method r \<noteq> Unspecified" "rq_method r \<noteq> Options"
    using assms by (simp_all add: request_ok_def)
  let ?s = "rq_uri r @ CHR '' '' # kStringizedVersion ! version_value (msg_version r) @ crlf @ header_lines (request_fields r) @ crlf"
  have h: "request_header r = kStringifiedMethods ! method_value (rq_method r) @ CHR '' '' # ?s"
    by (simp add: request_header_eq request_line_def)
  have "8 \<le> length (request_header r)"
    using version_facts(3) [of "msg_version r"] by (simp add: h)
  then show ?thesis
    using method_facts(1) [OF m, of ?s] unfolding h
    by (simp add: EasyDetectHttp_def kMinLength_def list_ex_iff del: append_Cons) (simp add: kLeadingWords_def)
qed

lemma TryParse_unsigned_show_nat:
  assumes "n < 2 ^ 63"
  shows "fst (TryParse_unsigned 64 erange 10 (show_nat n)) = Some (int n)"
proof -
  have s: "show_nat n = show_int (int n)"
    by (simp add: show_int_def)
  have "length (show_nat n) \<le> 128" "c_str (show_nat n) = show_nat n"
    unfolding s using assms by (intro length_show_int) (simp_all add: c_str_show_int)
  moreover have "strtoull erange 10 (show_nat n) = (int n, [], erange)"
    using assms by (simp add: strtoull_def scan_show_nat)
  ultimately show ?thesis
    using assms by (simp add: TryParse_unsigned_def TryParseImpl_def TryNarrowCast_def)
qed

lemma request_announced:
  assumes "request_ok r"
  shows "announced_size erange (request_header r) = Inr (Some (word_of_nat (length (body_bytes r))))"
proof -
  let ?key = "''Content-Length''"
  have key: "key_ok ?key"
    by (simp add: key_ok_def ascii_def)
  have m: "rq_method r \<noteq> Unspecified" "rq_method r \<noteq> Options"
    using assms by (simp_all add: request_ok_def)
  note lines = request_lines_ok [OF assms]
  let ?rest = "concat (map (\<lambda>f. field_line f @ crlf) (request_fields r)) @ crlf"
  have h: "request_header r = [] @ request_line r @ CR # LF # ?rest"
    by (simp add: request_header_eq header_lines_eq crlf_def)
  have "ascii (request_line r @ CR # LF # ?rest)"
    using lines(3) ascii_field_lines [OF lines(4)] by (simp add: ascii_append)
  then have "ascii (take (length ?key) (request_line r @ CR # LF # ?rest))"
    by (rule ascii_take)
  moreover have "lower (take (length ?key) (request_line r @ CR # LF # ?rest)) \<noteq> lower ?key"
  proof -
    let ?s = "rq_uri r @ CHR '' '' # kStringizedVersion ! version_value (msg_version r) @ CR # LF # ?rest"
    have line: "request_line r @ CR # LF # ?rest = kStringifiedMethods ! method_value (rq_method r) @ CHR '' '' # ?s"
      by (simp add: request_line_def)
    have len: "length ?key = 14"
      by simp
    show ?thesis
      unfolding line len using method_facts(2) [OF m, of ?s] by metis
  qed
  ultimately have "ReadField_loop ([] @ request_line r @ CR # LF # ?rest) ?key (length ([] :: string)) =
      ReadField_loop ([] @ request_line r @ CR # LF # ?rest) ?key (length ([] @ request_line r @ [CR, LF]))"
    using lines(2) by (intro ReadField_next_line) (auto simp: ascii_def)
  also have "\<dots> = Inr (show_nat (length (body_bytes r)))"
    using ReadField_fields [OF key lines(4), of "request_line r @ [CR, LF]"] assms by (simp add: request_ok_def)
  finally have "ReadFieldFromRawBytes (request_header r) ?key = Inr (show_nat (length (body_bytes r)))"
    unfolding h by (simp add: ReadFieldFromRawBytes_def)
  then show ?thesis
    using assms TryParse_unsigned_show_nat [of "length (body_bytes r)" erange]
    by (cases "TryParse_unsigned 64 erange 10 (show_nat (length (body_bytes r)))") (simp add: announced_size_def request_ok_def)
qed

lemma nb_bytes_Skip_Cut:
  assumes nb: "nb_ok nb" "nb_bytes nb = h @ b @ t"
  obtains nb1 body nb2 where "nb_Skip dbg nb (word_of_nat (length h)) = Inr nb1"
    "nb_Cut dbg nb1 (word_of_nat (length b)) = Inr (body, nb2)"
    "nb_ok body" "nb_bytes body = b" "nb_ok nb2" "nb_bytes nb2 = t"
proof -
  have len: "length h + length b + length t < 2 ^ 64"
    using nb_okD(2) [OF nb(1)] nb(2) by simp
  then have u: "unat (word_of_nat (length h) :: u64) = length h" "unat (word_of_nat (length b) :: u64) = length b"
    by (intro unat_word_of_small; simp)+
  have "unat (word_of_nat (length h) :: u64) \<le> length (nb_bytes nb)"
    unfolding u nb(2) by simp
  then obtain nb1 where nb1: "nb_Skip dbg nb (word_of_nat (length h)) = Inr nb1" "nb_ok nb1"
    "nb_bytes nb1 = drop (unat (word_of_nat (length h) :: u64)) (nb_bytes nb)"
    by (rule Skip_ok [OF nb(1)])
  then have nb1': "nb_bytes nb1 = b @ t"
    by (simp add: u nb(2))
  have "unat (word_of_nat (length b) :: u64) \<le> length (nb_bytes nb1)"
    unfolding u nb1' by simp
  then obtain body nb2 where "nb_Cut dbg nb1 (word_of_nat (length b)) = Inr (body, nb2)" "nb_ok body"
    "nb_bytes body = take (unat (word_of_nat (length b) :: u64)) (nb_bytes nb1)" "nb_ok nb2" "nb_bytes nb2 = drop (unat (word_of_nat (length b) :: u64)) (nb_bytes nb1)"
    by (rule Cut_ok [OF nb1(2)])
  then show thesis
    using that [OF nb1(1)] by (simp add: u nb1')
qed

lemma IsMessageClobbered_header:
  assumes "request_ok r"
  shows "\<not> IsMessageClobbered (request_header r)"
proof -
  have "\<not> StartsWith (request_header r) e" if "e \<in> set kClobberedStartLines" for e
  proof
    assume "StartsWith (request_header r) e"
    then have "prefix e (request_line r @ CR # LF # header_lines (request_fields r) @ crlf)"
      by (simp add: StartsWith_prefix request_header_eq crlf_def)
    moreover have "\<not> prefix e (request_line r)"
      using assms that by (auto simp: request_ok_def IsMessageClobbered_def list_ex_iff StartsWith_prefix)
    ultimately obtain us where "e = request_line r @ CR # us"
      by (auto simp: prefix_append prefix_Cons)
    then have "CR \<in> set e"
      by simp
    then show False
      using that by (auto simp: kClobberedStartLines_def)
  qed
  then show ?thesis
    by (auto simp: IsMessageClobbered_def list_ex_iff)
qed

lemma TryCutMessage_request:
  assumes r: "request_ok r" and nb: "nb_ok nb" "nb_bytes nb = request_header r @ body_bytes r @ t"
    and p: "parsed_header_block p = None \<or> parsed_header_block p = Some (request_header r)"
  obtains nb' wire where "TryCutMessage dbg erange max_size p nb = Inr (CutDone, p\<lparr>parsed_header_block := None\<rparr>, nb', Some wire)"
    "nb_ok nb'" "nb_bytes nb' = t" "wire_header_block wire = request_header r" "nb_ok (wire_body wire)" "nb_bytes (wire_body wire) = body_bytes r"
proof -
  have "ReadHeader dbg max_size nb = Inr (ReadOK, Some (request_header r))"
    using ReadHeader_block [of nb "request_line r # map field_line (request_fields r)"] nb request_lines_ok(5) [OF r] request_easy [OF r]
    by (simp add: request_header_def)
  then have cut: "cut_header dbg max_size p nb = Inr (Inr (request_header r))"
    using p IsMessageClobbered_header [OF r] by (auto simp: cut_header_def)
  have len: "length (request_header r) + length (body_bytes r) + length t < 2 ^ 64"
    using nb_okD(2) [OF nb(1)] nb(2) by simp
  then have "unat (word_of_nat (length (request_header r) + length (body_bytes r)) :: u64) = length (request_header r) + length (body_bytes r)"
    by (intro unat_word_of_small) simp
  then have size: "\<not> ByteSize nb < word_of_nat (length (request_header r)) + word_of_nat (length (body_bytes r))"
    using nb_okD(3) [OF nb(1)] nb(2) by (simp add: ByteSize_def word_less_nat_alt)
  obtain nb1 body nb2 where cuts: "nb_Skip dbg nb (word_of_nat (length (request_header r))) = Inr nb1"
    "nb_Cut dbg nb1 (word_of_nat (length (body_bytes r))) = Inr (body, nb2)"
    "nb_ok body" "nb_bytes body = body_bytes r" "nb_ok nb2" "nb_bytes nb2 = t"
    by (rule nb_bytes_Skip_Cut [OF nb])
  have "TryCutMessage dbg erange max_size p nb =
      Inr (CutDone, p\<lparr>parsed_header_block := None\<rparr>, nb2, Some \<lparr>wire_header_block = request_header r, wire_body = body\<rparr>)"
    using size by (simp add: TryCutMessage_def cut request_announced [OF r] cuts(1,2))
  then show thesis
    using cuts(3-6) by (intro that [of nb2 "\<lparr>wire_header_block = request_header r, wire_body = body\<rparr>"]) simp_all
qed


lemma TryParse_request:
  assumes r: "request_ok r" and w: "wire_header_block wire = request_header r"
  obtains r' where "TryParse_server wire = returns (Some (HttpRequestMessage r'))" "msg_version r' = msg_version r"
    "rq_method r' = rq_method r" "rq_uri r' = rq_uri r" "request_fields r' = request_fields r" "headers_ok (msg_headers r')"
    "msg_body r' = Some (wire_body wire)" "msg_body_str r' = None"
proof -
  obtain hs where hs: "HttpHeaders = Inr hs" "headers_ok hs" "hdr_fields hs = []"
    by (rule HttpHeaders_new)
  note lines = request_lines_ok [OF r]
  have len: "length (request_fields r) < 2 ^ 58"
    using r by (simp add: request_ok_def)
  obtain hs' where hs': "ParseMessagePartial (header_block_of (request_line r # map field_line (request_fields r))) hs = returns (True, request_line r, hs')"
    "headers_ok hs'" "hdr_fields hs' = request_fields r"
    by (rule ParseMessagePartial_block [OF hs(2) lines(1,2,4) len])
  let ?r' = "\<lparr>msg_version = msg_version r, msg_headers = hs', msg_body_str = None, msg_body = Some (wire_body wire), rq_method = rq_method r, rq_uri = rq_uri r\<rparr>"
  have "TryParse_server wire = returns (Some (HttpRequestMessage ?r'))"
    using hs'(1) by (simp add: TryParse_server_def HttpRequest_def hs(1) w request_header_def parse_request_line [OF r] set_body_nb_def)
  then show thesis
    by (rule that) (simp_all add: request_fields_def hs'(2,3))
qed

text \<open>Claim C20. A well-formed request (\<open>request_ok\<close>: a method the parser knows, HTTP 1.0 or 1.1, an ASCII target without blanks, fields that can be told apart, and the \<open>Content-Length\<close> of its body) written by \<open>WriteMessage\<close>, for any block size, and followed by anything is cut off the server's buffer exactly, even
  if it arrives in blocks of other sizes, and parses to a request of the same method, target, version, header fields and body; the
  bytes that follow stay in the buffer.\<close>

theorem Request_roundtrip:
  assumes "request_ok r" "0 < blk" "length (request_header r) + length (body_bytes r) < 2 ^ 64"
  shows "\<exists>w. Http11_WriteMessage dbg blk (HttpRequestMessage r) = returns w \<and> nb_ok w \<and>
    (\<forall>nb t. nb_ok nb \<and> nb_bytes nb = nb_bytes w @ t \<longrightarrow>
      (\<exists>nb' wire r'. TryCutMessage dbg erange max_size \<lparr>parsed_header_block = None\<rparr> nb =
          Inr (CutDone, \<lparr>parsed_header_block = None\<rparr>, nb', Some wire) \<and> nb_ok nb' \<and> nb_bytes nb' = t \<and>
        Http11_TryParse True erange wire = returns (Some (HttpRequestMessage r')) \<and>
        rq_method r' = rq_method r \<and> rq_uri r' = rq_uri r \<and> msg_version r' = msg_version r \<and>
        hdr_fields (msg_headers r') = hdr_fields (msg_headers r) \<and> body_bytes r' = body_bytes r))"
proof -
  obtain w where w: "Http11_WriteMessage dbg blk (HttpRequestMessage r) = returns w" "nb_ok w" "nb_bytes w = request_header r @ body_bytes r"
    by (rule Write_request_ok [OF assms])
  have "\<exists>nb' wire r'. TryCutMessage dbg erange max_size \<lparr>parsed_header_block = None\<rparr> nb =
          Inr (CutDone, \<lparr>parsed_header_block = None\<rparr>, nb', Some wire) \<and> nb_ok nb' \<and> nb_bytes nb' = t \<and>
        Http11_TryParse True erange wire = returns (Some (HttpRequestMessage r')) \<and>
        rq_method r' = rq_method r \<and> rq_uri r' = rq_uri r \<and> msg_version r' = msg_version r \<and>
        hdr_fields (msg_headers r') = hdr_fields (msg_headers r) \<and> body_bytes r' = body_bytes r"
    if nb: "nb_ok nb" "nb_bytes nb = nb_bytes w @ t" for nb t
  proof -
    have bytes: "nb_bytes nb = request_header r @ body_bytes r @ t"
      using nb(2) w(3) by simp
    obtain nb' wire where cut: "TryCutMessage dbg erange max_size \<lparr>parsed_header_block = None\<rparr> nb =
        Inr (CutDone, \<lparr>parsed_header_block = None\<rparr>\<lparr>parsed_header_block := None\<rparr>, nb', Some wire)"
      "nb_ok nb'" "nb_bytes nb' = t" "wire_header_block wire = request_header r" "nb_ok (wire_body wire)" "nb_bytes (wire_body wire) = body_bytes r"
      by (rule TryCutMessage_request [OF assms(1) nb(1) bytes, of "\<lparr>parsed_header_block = None\<rparr>" dbg erange max_size]) simp_all
    obtain r' where r': "TryParse_server wire = returns (Some (HttpRequestMessage r'))" "msg_version r' = msg_version r"
      "rq_method r' = rq_method r" "rq_uri r' = rq_uri r" "request_fields r' = request_fields r" "headers_ok (msg_headers r')"
      "msg_body r' = Some (wire_body wire)" "msg_body_str r' = None"
      by (rule TryParse_request [OF assms(1) cut(4)])
    have "body_bytes r' = body_bytes r"
      using r'(7) cut(5,6) by (simp add: body_bytes_def noncontiguous_body_def FlattenSlow_all)
    then show ?thesis
      using cut r' by (intro exI [of _ nb'] exI [of _ wire] exI [of _ r']) (simp add: Http11_TryParse_def request_fields_def)
  qed
  then show ?thesis
    using w by (intro exI [of _ w]) simp
qed


text \<open>A small request for the witnesses.\<close>

definition sample_request :: http_request where
  "sample_request = \<lparr>msg_version = V_1_1,
     msg_headers = \<lparr>header_block = [], owning_strs_2 = [], header_idx = \<lparr>hm_nodes = [], hm_capacity = 0, hm_mask = 0, hm_rehash_threshold = 0, hm_size = 0\<rparr>,
                    hdr_fields = [(''Host'', ''a''), (''content-length'', ''5'')]\<rparr>,
     msg_body_str = Some ''hello'', msg_body = None, rq_method = Post, rq_uri = ''/add''\<rparr>"

lemma sample_request_ok: "request_ok sample_request" "body_bytes sample_request = ''hello''" "length (request_header sample_request) < 100"
proof -
  show b: "body_bytes sample_request = ''hello''"
    by (simp add: sample_request_def body_bytes_def noncontiguous_body_def body_text_def message_body_def)
  have fs: "request_fields sample_request = [(''Host'', ''a''), (''content-length'', ''5'')]"
    by (simp add: sample_request_def request_fields_def)
  have line: "request_line sample_request = ''POST /add HTTP/1.1''"
    by code_simp
  have "list_all field_ok [(''Host'', ''a''), (''content-length'', ''5'')]"
    "\<not> IsMessageClobbered ''POST /add HTTP/1.1''"
    "map_of (normed lower [(''Host'', ''a''), (''content-length'', ''5'')]) (lower ''Content-Length'') = Some (show_nat (length ''hello''))"
    by code_simp+
  then show "request_ok sample_request"
    unfolding request_ok_def b fs line by (simp add: sample_request_def ascii_def)
  show "length (request_header sample_request) < 100"
    unfolding request_header_eq fs line by (simp add: header_lines_def crlf_def)
qed

theorem Request_roundtrip_witness:
  "\<exists>w nb' wire r'. Http11_WriteMessage True 16 (HttpRequestMessage sample_request) = returns w \<and>
    TryCutMessage True False 8192 \<lparr>parsed_header_block = None\<rparr> w = Inr (CutDone, \<lparr>parsed_header_block = None\<rparr>, nb', Some wire) \<and>
    Http11_TryParse True False wire = returns (Some (HttpRequestMessage r')) \<and> rq_uri r' = ''/add'' \<and> body_bytes r' = ''hello''"
proof -
  have len: "length (request_header sample_request) + length (body_bytes sample_request) < 2 ^ 64"
    using sample_request_ok(2,3) by simp
  obtain w where w: "Http11_WriteMessage True 16 (HttpRequestMessage sample_request) = returns w" "nb_ok w"
    and cut: "\<forall>nb t. nb_ok nb \<and> nb_bytes nb = nb_bytes w @ t \<longrightarrow>
      (\<exists>nb' wire r'. TryCutMessage True False 8192 \<lparr>parsed_header_block = None\<rparr> nb =
          Inr (CutDone, \<lparr>parsed_header_block = None\<rparr>, nb', Some wire) \<and> nb_ok nb' \<and> nb_bytes nb' = t \<and>
        Http11_TryParse True False wire = returns (Some (HttpRequestMessage r')) \<and>
        rq_method r' = rq_method sample_request \<and> rq_uri r' = rq_uri sample_request \<and> msg_version r' = msg_version sample_request \<and>
        hdr_fields (msg_headers r') = hdr_fields (msg_headers sample_request) \<and> body_bytes r' = body_bytes sample_request)"
    using Request_roundtrip [OF sample_request_ok(1) _ len, of 16 True False 8192] by auto
  have "rq_uri sample_request = ''/add''"
    by (simp add: sample_request_def)
  then show ?thesis
    using w cut [THEN spec, of w, THEN spec, of "[]"] sample_request_ok(2) by auto
qed

subsection \<open>What a peer can do\<close>

lemma Cut_loop_overrun: "length (concat bs) < n \<Longrightarrow> Cut_loop n rc bs = Inl Undefined"
  by (induction bs arbitrary: n rc) auto

text \<open>Claim C39. The test for a complete message adds the announced body size to the header size in 64 bits. When the sum wraps, it is less than
  what has arrived, the message is taken to be complete and cutting the body off runs past the end of the buffer: undefined behaviour, or an
  abort in a debug build. The announcement \<open>Content-Length: -1\<close> is enough, as the number parser accepts it.\<close>

theorem Content_Length_overflow:
  assumes "nb_ok nb" "cut_header dbg max_size p nb = Inr (Inr h)" "announced_size erange h = Inr (Some n)"
    "length h \<le> length (nb_bytes nb)" "2 ^ 64 \<le> length h + unat n"
  shows "TryCutMessage dbg erange max_size p nb = Inl (if dbg then Assertion else Undefined)"
proof -
  have h: "length h < 2 ^ 64"
    using assms(4) nb_okD(2) [OF assms(1)] by simp
  then have uh: "unat (word_of_nat (length h) :: u64) = length h"
    by (rule unat_word_of_small)
  have n: "unat n < 2 ^ 64"
    using unsigned_less [of n, where ?'a = nat] by simp
  have "unat (word_of_nat (length h) + n) = (length h + unat n) mod 2 ^ 64"
    by (simp add: unat_word_ariths uh)
  also have "\<dots> = length h + unat n - 2 ^ 64"
    using assms(5) h n by (simp add: mod_if)
  finally have size: "\<not> ByteSize nb < word_of_nat (length h) + n"
    using assms(4) n nb_okD(3) [OF assms(1)] by (simp add: ByteSize_def word_less_nat_alt)
  have "unat (word_of_nat (length h) :: u64) \<le> length (nb_bytes nb)"
    using assms(4) by (simp only: uh)
  then obtain nb1 where nb1: "nb_Skip dbg nb (word_of_nat (length h)) = Inr nb1" "nb_ok nb1"
    "nb_bytes nb1 = drop (unat (word_of_nat (length h) :: u64)) (nb_bytes nb)"
    by (rule Skip_ok [OF assms(1)])
  have over: "length (nb_bytes nb1) < unat n"
    unfolding nb1(3) length_drop uh using assms(4,5) nb_okD(2) [OF assms(1)] by linarith
  then have "\<not> n \<le> ByteSize nb1"
    using nb_okD(3) [OF nb1(2)] by (simp add: ByteSize_def word_le_nat_alt)
  then have "nb_Cut dbg nb1 n = Inl (if dbg then Assertion else Undefined)"
    using Cut_loop_overrun [of "nb_buffers nb1" "unat n" "[]"] over by (simp add: nb_Cut_def nb_bytes_def)
  then show ?thesis
    using size assms(2,3) nb1(1) by (simp add: TryCutMessage_def)
qed

definition overflow_block :: string where
  "overflow_block = header_block_of [''GET / HTTP/1.1'', ''Content-Length: -1'']"

definition one_block :: "string \<Rightarrow> nbuffer" where
  "one_block s = \<lparr>nb_byte_size = word_of_nat (length s), nb_buffers = [s]\<rparr>"

lemma one_block_ok: "s \<noteq> [] \<Longrightarrow> length s < 2 ^ 64 \<Longrightarrow> nb_ok (one_block s)" "nb_bytes (one_block s) = s"
  by (simp_all add: one_block_def nb_ok_def nb_bytes_def)

theorem Content_Length_overflow_witness:
  "TryCutMessage False False 8192 \<lparr>parsed_header_block = None\<rparr> (one_block overflow_block) = Inl Undefined"
proof -
  have cut: "cut_header False 8192 \<lparr>parsed_header_block = None\<rparr> (one_block overflow_block) = Inr (Inr overflow_block)"
    by code_simp
  have ann: "announced_size False overflow_block = Inr (Some (- 1))"
    by code_simp
  have len: "length overflow_block = 38" "overflow_block \<noteq> []"
    by code_simp+
  show ?thesis
    using Content_Length_overflow [OF one_block_ok(1) cut ann] len by (simp add: one_block_ok unat_minus_1_u64)
qed

text \<open>The search passes over lines that do not begin with the name.\<close>

lemma CR_lower: "CR \<in> set s \<Longrightarrow> CR \<in> set (lower s)"
proof -
  assume "CR \<in> set s"
  then have "kLowerChars (code CR) \<in> set (lower s)" unfolding lower_def set_map by (rule imageI)
  moreover have "kLowerChars (code CR) = CR" by code_simp
  ultimately show ?thesis by simp
qed

lemma window_other_line:
  assumes "\<not> prefix (lower key) (lower l)" "CR \<notin> set (lower key)"
  shows "lower (take (length key) (l @ CR # rest)) \<noteq> lower key"
proof (cases "length key \<le> length l")
  case True
  then have "take (length key) (l @ CR # rest) = take (length key) l" by simp
  moreover have "lower (take (length key) l) = take (length key) (lower l)" by (simp add: lower_def take_map)
  ultimately show ?thesis using assms(1) by (metis take_is_prefix)
next
  case False
  then have "CR \<in> set (take (length key) (l @ CR # rest))" by (cases "length key - length l") simp_all
  from CR_lower [OF this] show ?thesis using assms(2) by auto
qed

lemma ascii_concat: "ascii (concat xs) \<longleftrightarrow> (\<forall>x\<in>set xs. ascii x)"
  by (auto simp: ascii_def)

lemma ReadField_skip_lines:
  assumes "ascii key" "CR \<notin> set (lower key)" "length key \<le> length name" "ascii name"
  shows "(\<And>l. l \<in> set ls \<Longrightarrow> LF \<notin> set l \<and> ascii l \<and> \<not> prefix (lower key) (lower l)) \<Longrightarrow>
    ReadField_loop (pre @ concat (map (\<lambda>l. l @ crlf) ls) @ name @ rest) key (length pre) =
    ReadField_loop (pre @ concat (map (\<lambda>l. l @ crlf) ls) @ name @ rest) key (length (pre @ concat (map (\<lambda>l. l @ crlf) ls)))"
proof (induction ls arbitrary: pre)
  case (Cons l ls)
  let ?ls = "concat (map (\<lambda>l. l @ crlf) ls)"
  have l: "LF \<notin> set l" "ascii l" "\<not> prefix (lower key) (lower l)" using Cons.prems [of l] by simp_all
  have "ascii (concat (map (\<lambda>l. l @ crlf) ls))"
    using Cons.prems by (subst ascii_concat) (auto simp: ascii_append crlf_def)
  then have "ascii (l @ CR # LF # ?ls @ name)" using l(2) assms(4) by (simp add: ascii_append)
  moreover have "take (length key) (l @ CR # LF # ?ls @ name @ rest) = take (length key) (l @ CR # LF # ?ls @ name)"
    using assms(3) by (simp add: take_append take_Cons' flip: append_assoc append_Cons)
  ultimately have "ascii (take (length key) (l @ CR # LF # ?ls @ name @ rest))" by (simp only: ascii_take)
  then have "ReadField_loop (pre @ l @ CR # LF # ?ls @ name @ rest) key (length pre) =
    ReadField_loop (pre @ l @ CR # LF # ?ls @ name @ rest) key (length (pre @ l @ [CR, LF]))"
    using ReadField_next_line [OF l(1) _ assms(1)] window_other_line [OF l(3) assms(2)] by blast
  then show ?case using Cons.IH [of "pre @ l @ [CR, LF]"] Cons.prems by (simp add: crlf_def)
qed simp

text \<open>Claim C40. A header line \<open>Content-Length:\<close>, in letters of either case, with nothing between the colon and the end of the line aborts the process, wherever it stands after lines that are
  in ASCII and do not begin with that name: the check in \<open>ReadFieldFromRawBytes\<close>, whose comment says it cannot fire, fails.\<close>

theorem Empty_Content_Length_aborts:
  assumes "cut_header dbg max_size p nb = Inr (Inr (concat (map (\<lambda>l. l @ crlf) ls) @ name @ '':'' @ crlf @ rest))"
    "lower name = ''content-length''" "ascii name"
    "\<And>l. l \<in> set ls \<Longrightarrow> LF \<notin> set l \<and> ascii l \<and> \<not> prefix ''content-length'' (lower l)"
  shows "TryCutMessage dbg erange max_size p nb = Inl Assertion"
proof -
  let ?key = "''Content-Length''" and ?ls = "concat (map (\<lambda>l. l @ crlf) ls)"
  have low: "lower ?key = ''content-length''" by code_simp
  have key: "ascii ?key" "CR \<notin> set (lower ?key)" unfolding low by (simp_all add: ascii_def)
  have len: "length name = 14" using arg_cong [OF assms(2), of length] by (simp add: lower_def)
  have "CR \<notin> set name" using CR_lower [of name] unfolding assms(2) by auto
  then have "find_sub [CR] (name @ '':'' @ crlf @ rest) = Some 15"
    using find_sub_char(1) [of CR "name @ '':''" "LF # rest"] len by (simp add: crlf_def)
  then have v: "field_value (name @ '':'' @ crlf @ rest) ?key = Inl Assertion" by (simp add: field_value_def)
  have "ReadField_loop ([] @ ?ls @ name @ '':'' @ crlf @ rest) ?key (length ([] :: string)) =
      ReadField_loop ([] @ ?ls @ name @ '':'' @ crlf @ rest) ?key (length ([] @ ?ls))"
    by (rule ReadField_skip_lines) (use key len assms(3,4) low in simp_all)
  also have "\<dots> = Inl Assertion"
    using IEquals_ascii [OF assms(3) key(1)] v len low assms(2) by (subst ReadField_loop.simps) (simp add: Let_def nth_append)
  finally show ?thesis
    using assms(1) by (simp add: TryCutMessage_def announced_size_def ReadFieldFromRawBytes_def)
qed

theorem Empty_Content_Length_aborts_witness:
  "TryCutMessage False False 8192 \<lparr>parsed_header_block = None\<rparr>
     (one_block (header_block_of [''GET / HTTP/1.1'', ''Host: a'', ''content-Length:''])) = Inl Assertion"
proof -
  have cut: "cut_header False 8192 \<lparr>parsed_header_block = None\<rparr> (one_block (header_block_of [''GET / HTTP/1.1'', ''Host: a'', ''content-Length:''])) =
      Inr (Inr (concat (map (\<lambda>l. l @ crlf) [''GET / HTTP/1.1'', ''Host: a'']) @ ''content-Length'' @ '':'' @ crlf @ crlf))"
    by code_simp
  have name: "lower ''content-Length'' = ''content-length''" "lower ''GET / HTTP/1.1'' = ''get / http/1.1''" "lower ''Host: a'' = ''host: a''"
    by code_simp+
  have asc: "ascii ''content-Length''" "ascii ''GET / HTTP/1.1''" "ascii ''Host: a''" by (simp_all add: ascii_def)
  show ?thesis by (rule Empty_Content_Length_aborts [OF cut name(1) asc(1)]) (use name asc in auto)
qed

end
