(* ===== verification/Encoding.thy ===== *)
theory Encoding
  imports Flare_String
begin

section \<open>Text encodings (flare/base/encoding)\<close>

text \<open>
  Hexadecimal, percent and base64 encoding. Tables the source computes at compile time
  are functions on byte values here. The encoders and decoders append to a string the
  caller passes, so each has that string as an argument; a decoder that fails leaves
  what it had appended. Base64 itself is OpenSSL's: its two block functions are arguments,
  and the hypothesis \<open>evp_ok\<close> states what their manual page promises.

  The locale \<open>codec\<close> is the promise the three encodings share: decoding what was encoded
  gives it back, from which it follows that encoding loses nothing.
\<close>

locale codec =
  fixes enc :: "string \<Rightarrow> string" and dec :: "string \<Rightarrow> string option" and admissible :: "string \<Rightarrow> bool"
  assumes dec_enc: "admissible s \<Longrightarrow> dec (enc s) = Some s"
begin

lemma enc_inject: "admissible s \<Longrightarrow> admissible t \<Longrightarrow> enc s = enc t \<Longrightarrow> s = t"
  by (metis dec_enc option.inject)

lemma dec_onto: "admissible s \<Longrightarrow> \<exists>t. dec t = Some s"
  using dec_enc by blast

end

subsection \<open>Hexadecimal digits\<close>

definition kHexCharsLowercase :: "nat \<Rightarrow> char \<times> char" where
  "kHexCharsLowercase i = (''0123456789abcdef'' ! (i div 16 mod 16), ''0123456789abcdef'' ! (i mod 16))"

definition kHexCharsUppercase :: "nat \<Rightarrow> char \<times> char" where
  "kHexCharsUppercase i = (''0123456789ABCDEF'' ! (i div 16 mod 16), ''0123456789ABCDEF'' ! (i mod 16))"

definition kHexCharToDecimal :: "nat \<Rightarrow> int" where
  "kHexCharToDecimal i =
     (if 48 \<le> i \<and> i < 58 then int i - 48
      else if 97 \<le> i \<and> i < 103 then 10 + (int i - 97)
      else if 65 \<le> i \<and> i < 71 then 10 + (int i - 65)
      else -1)"

definition AsciiCodeFromHexCharPair :: "char \<Rightarrow> char \<Rightarrow> int" where
  "AsciiCodeFromHexCharPair x y =
     (let a = kHexCharToDecimal (code x); b = kHexCharToDecimal (code y)
      in if a = -1 \<or> b = -1 then -1 else a * 16 + b)"

fun EncodeHex_to :: "string \<Rightarrow> string \<Rightarrow> bool \<Rightarrow> string" where
  "EncodeHex_to [] to uppercase = to"
| "EncodeHex_to (e # from) to uppercase =
     EncodeHex_to from
       (to @ (if uppercase then [fst (kHexCharsUppercase (code e)), snd (kHexCharsUppercase (code e))]
              else [fst (kHexCharsLowercase (code e)), snd (kHexCharsLowercase (code e))])) uppercase"

definition EncodeHex :: "string \<Rightarrow> bool \<Rightarrow> string" where
  "EncodeHex from uppercase = EncodeHex_to from [] uppercase"

fun DecodeHex_loop :: "string \<Rightarrow> string \<Rightarrow> bool \<times> string" where
  "DecodeHex_loop (x # y # from) to =
     (let v = AsciiCodeFromHexCharPair x y
      in if v = -1 then (False, to) else DecodeHex_loop from (to @ [char_of (nat v)]))"
| "DecodeHex_loop _ to = (True, to)"

definition DecodeHex_to :: "string \<Rightarrow> string \<Rightarrow> bool \<times> string" where
  "DecodeHex_to from to = (if length from mod 2 \<noteq> 0 then (False, to) else DecodeHex_loop from to)"

text \<open>The optional-returning overload drops the flag.\<close>

definition DecodeHex :: "string \<Rightarrow> string option" where
  "DecodeHex from = Some (snd (DecodeHex_to from []))"

subsection \<open>Percent encoding\<close>

datatype PercentEncodingStyle = Ecma262 | Rfc3986 | Rfc5987

record PercentEncodingOptions =
  style :: PercentEncodingStyle
  escape_reserved :: bool

definition default_percent_options :: PercentEncodingOptions where
  "default_percent_options = \<lparr>style = Rfc3986, escape_reserved = True\<rparr>"

definition GenerateUnescapedCharBitmap :: "string \<Rightarrow> nat \<Rightarrow> bool" where
  "GenerateUnescapedCharBitmap unescaped_chars i \<longleftrightarrow>
     i \<in> set (map code unescaped_chars) \<or> (48 \<le> i \<and> i < 58) \<or> (97 \<le> i \<and> i < 123) \<or> (65 \<le> i \<and> i < 91)"

definition kUnescapedChars :: "PercentEncodingStyle \<Rightarrow> bool \<Rightarrow> nat \<Rightarrow> bool" where
  "kUnescapedChars st reserved =
     GenerateUnescapedCharBitmap
       (case st of
          Ecma262 \<Rightarrow> if reserved then ''_-!.*~'' @ [CHR 0x27] @ ''()'' else ''_-,;:!?.'' @ [CHR 0x27] @ ''()@*/&#+=~$''
        | Rfc3986 \<Rightarrow> if reserved then ''_-.~'' else ''_-,;:!?.'' @ [CHR 0x27] @ ''()[]@*/&#+=~$''
        | Rfc5987 \<Rightarrow> ''!#$&+-.^_'' @ [CHR 0x60] @ ''|~'')"

definition escaped_char :: "char \<Rightarrow> string" where
  "escaped_char e = [CHR 0x25, fst (kHexCharsUppercase (code e)), snd (kHexCharsUppercase (code e))]"

fun EncodePercent_to :: "string \<Rightarrow> string \<Rightarrow> PercentEncodingOptions \<Rightarrow> string" where
  "EncodePercent_to [] to options = to"
| "EncodePercent_to (e # from) to options =
     EncodePercent_to from
       (to @ (if kUnescapedChars (style options) (escape_reserved options) (code e) then [e] else escaped_char e)) options"

definition EncodePercent :: "string \<Rightarrow> PercentEncodingOptions \<Rightarrow> string" where
  "EncodePercent from options = EncodePercent_to from [] options"

function DecodePercent_to :: "string \<Rightarrow> string \<Rightarrow> bool \<Rightarrow> bool \<times> string" where
  "DecodePercent_to from to plus_ws =
     (case from of
        [] \<Rightarrow> (True, to)
      | c # r \<Rightarrow>
          if c = CHR 0x25 then
            (if length from < 3 then (False, to)
             else
               (let v = AsciiCodeFromHexCharPair (from ! 1) (from ! 2)
                in if v = -1 then (False, to)
                   else DecodePercent_to (drop 3 from) (to @ [char_of (nat v)]) plus_ws))
          else if plus_ws \<and> c = CHR ''+'' then DecodePercent_to r (to @ '' '') plus_ws
          else DecodePercent_to r (to @ [c]) plus_ws)"
  by pat_completeness auto
termination by (relation "measure (\<lambda>(from, _, _). length from)") auto

declare DecodePercent_to.simps [simp del]

definition DecodePercent :: "string \<Rightarrow> bool \<Rightarrow> string option" where
  "DecodePercent from plus_ws =
     (let (ok, result) = DecodePercent_to from [] plus_ws in if ok then Some result else None)"

subsection \<open>Base64\<close>

text \<open>\<open>EVP_EncodeBlock\<close> and \<open>EVP_DecodeBlock\<close> take the input and return their result code and what they wrote.\<close>

type_synonym evp_fn = "string \<Rightarrow> int \<times> string"

definition EncodeBase64 :: "evp_fn \<Rightarrow> string \<Rightarrow> fault + string" where
  "EncodeBase64 evp from =
     (if \<not> length from < 2 ^ 31 - 1 then Inl Assertion
      else
        (let size = 4 * ((length from + 2) div 3);
             (rc, out) = evp from
         in if rc \<noteq> int size then Inl Assertion else Inr (take size out)))"

text \<open>The buffer is \<open>size + 1\<close> bytes long: what the block function wrote, then a zero byte.\<close>

definition DecodeBase64_to :: "evp_fn \<Rightarrow> string \<Rightarrow> fault + (bool \<times> string)" where
  "DecodeBase64_to evp from =
     (if length from < 3 then Inr (from = [], [])
      else
        (let size = 3 * length from div 4;
             (rc, out) = evp from;
             to = take (size + 1) (out @ replicate (size + 1) (CHR 0x00))
         in if rc \<noteq> int size then Inr (False, to)
            else if \<not> (length from \<ge> 2 \<and> length to \<ge> 2) then Inl Assertion
            else
              (let to1 = (if from ! (length from - 1) = CHR ''='' then butlast to else to);
                   to2 = (if from ! (length from - 2) = CHR ''='' then butlast to1 else to1)
               in Inr (True, butlast to2))))"

definition DecodeBase64 :: "evp_fn \<Rightarrow> string \<Rightarrow> fault + string option" where
  "DecodeBase64 evp from =
     sthen (DecodeBase64_to evp from) (\<lambda>(ok, result). Inr (if ok then Some result else None))"

section \<open>Decoding what was encoded\<close>

subsection \<open>Hexadecimal\<close>

lemma hex_digit_value:
  "\<forall>i\<in>set [0..<16]. kHexCharToDecimal (code (''0123456789ABCDEF'' ! i)) = int i \<and>
                     kHexCharToDecimal (code (''0123456789abcdef'' ! i)) = int i"
  by (simp add: upt_rec kHexCharToDecimal_def)

lemma code_less_256: "code c < 256"
proof -
  have "code c = code (char_of (code c :: nat))" by simp
  also have "\<dots> = code c mod 256" by (simp only: of_char_of)
  finally show ?thesis by (metis mod_less_divisor zero_less_numeral)
qed

lemma hex_pair_value:
  "AsciiCodeFromHexCharPair (fst (kHexCharsUppercase (code e))) (snd (kHexCharsUppercase (code e))) = int (code e)"
  "AsciiCodeFromHexCharPair (fst (kHexCharsLowercase (code e))) (snd (kHexCharsLowercase (code e))) = int (code e)"
proof -
  define hi lo where "hi = code e div 16 mod 16" and "lo = code e mod 16"
  have "code e div 16 < 16" using code_less_256 [of e] by (simp add: less_mult_imp_div_less)
  then have e: "code e = hi * 16 + lo" by (simp add: hi_def lo_def)
  have "hi \<in> set [0..<16]" "lo \<in> set [0..<16]" by (simp_all add: hi_def lo_def)
  then have v: "kHexCharToDecimal (code (''0123456789ABCDEF'' ! hi)) = int hi"
    "kHexCharToDecimal (code (''0123456789abcdef'' ! hi)) = int hi"
    "kHexCharToDecimal (code (''0123456789ABCDEF'' ! lo)) = int lo"
    "kHexCharToDecimal (code (''0123456789abcdef'' ! lo)) = int lo"
    using hex_digit_value by blast+
  show "AsciiCodeFromHexCharPair (fst (kHexCharsUppercase (code e))) (snd (kHexCharsUppercase (code e))) = int (code e)"
    unfolding AsciiCodeFromHexCharPair_def kHexCharsUppercase_def hi_def [symmetric] lo_def [symmetric] fst_conv snd_conv v Let_def
    by (simp add: e)
  show "AsciiCodeFromHexCharPair (fst (kHexCharsLowercase (code e))) (snd (kHexCharsLowercase (code e))) = int (code e)"
    unfolding AsciiCodeFromHexCharPair_def kHexCharsLowercase_def hi_def [symmetric] lo_def [symmetric] fst_conv snd_conv v Let_def
    by (simp add: e)
qed

definition hex_of :: "bool \<Rightarrow> char \<Rightarrow> string" where
  "hex_of up e = (let (a, b) = (if up then kHexCharsUppercase (code e) else kHexCharsLowercase (code e)) in [a, b])"

lemma EncodeHex_concat: "EncodeHex_to from to up = to @ concat (map (hex_of up) from)"
  by (induction "from" arbitrary: to) (simp_all add: hex_of_def split_beta)

lemma DecodeHex_loop_enc: "DecodeHex_loop (concat (map (hex_of up) s)) to = (True, to @ s)"
proof (induction s arbitrary: to)
  case (Cons c s)
  have "\<exists>x y. hex_of up c = [x, y] \<and> AsciiCodeFromHexCharPair x y = int (code c)"
    using hex_pair_value [of c] by (auto simp: hex_of_def split_beta)
  then show ?case using Cons by auto
qed simp

lemma length_hex: "length (concat (map (hex_of up) s)) = 2 * length s"
  by (induction s) (simp_all add: hex_of_def split_beta)

lemma DecodeHex_to_enc: "DecodeHex_to (EncodeHex s up) [] = (True, s)"
  by (simp add: DecodeHex_to_def EncodeHex_def EncodeHex_concat length_hex DecodeHex_loop_enc)

interpretation hex: codec "\<lambda>s. EncodeHex s up" DecodeHex "\<lambda>_. True" for up
  by unfold_locales (simp add: DecodeHex_def DecodeHex_to_enc)

subsection \<open>Percent\<close>

lemma percent_never_unescaped: "\<not> kUnescapedChars st r 37"
  by (cases st; cases r) (simp_all add: kUnescapedChars_def GenerateUnescapedCharBitmap_def)

definition pct :: "PercentEncodingOptions \<Rightarrow> char \<Rightarrow> string" where
  "pct opts e = (if kUnescapedChars (style opts) (escape_reserved opts) (code e) then [e] else escaped_char e)"

lemma EncodePercent_concat: "EncodePercent_to from to opts = to @ concat (map (pct opts) from)"
  by (induction "from" arbitrary: to) (simp_all add: pct_def)

text \<open>What a character becomes when it is encoded and then decoded.\<close>

definition pct_back :: "PercentEncodingOptions \<Rightarrow> bool \<Rightarrow> char \<Rightarrow> char" where
  "pct_back opts plus_ws c =
     (if plus_ws \<and> c = CHR ''+'' \<and> kUnescapedChars (style opts) (escape_reserved opts) (code (CHR ''+''))
      then CHR '' '' else c)"

lemma DecodePercent_escaped:
  "DecodePercent_to (escaped_char c @ r) to plus_ws = DecodePercent_to r (to @ [c]) plus_ws"
  by (subst DecodePercent_to.simps)
    (simp add: escaped_char_def hex_pair_value numeral_2_eq_2 numeral_3_eq_3 Let_def)

lemma DecodePercent_plain:
  assumes "c \<noteq> CHR 0x25"
  shows "DecodePercent_to (c # r) to plus_ws =
           DecodePercent_to r (to @ [if plus_ws \<and> c = CHR ''+'' then CHR '' '' else c]) plus_ws"
  using assms by (subst DecodePercent_to.simps) simp

lemma DecodePercent_pct:
  "DecodePercent_to (pct opts c @ r) to plus_ws = DecodePercent_to r (to @ [pct_back opts plus_ws c]) plus_ws"
proof (cases "kUnescapedChars (style opts) (escape_reserved opts) (code c)")
  case True
  then have "c \<noteq> CHR 0x25" using percent_never_unescaped by auto
  then show ?thesis using True by (auto simp: pct_def pct_back_def DecodePercent_plain)
next
  case False
  then show ?thesis by (auto simp: pct_def pct_back_def DecodePercent_escaped)
qed

lemma DecodePercent_loop_enc:
  "DecodePercent_to (concat (map (pct opts) s)) to plus_ws = (True, to @ map (pct_back opts plus_ws) s)"
  by (induction s arbitrary: to) (simp add: DecodePercent_to.simps, simp add: DecodePercent_pct)

lemma DecodePercent_enc:
  "DecodePercent (EncodePercent s opts) plus_ws = Some (map (pct_back opts plus_ws) s)"
  by (simp add: DecodePercent_def EncodePercent_def EncodePercent_concat DecodePercent_loop_enc)

lemma pct_back_plain: "pct_back opts False = (\<lambda>c. c)"
  by (simp add: pct_back_def fun_eq_iff)

interpretation percent: codec "\<lambda>s. EncodePercent s opts" "\<lambda>s. DecodePercent s False" "\<lambda>_. True" for opts
  by unfold_locales (simp add: DecodePercent_enc pct_back_plain)

text \<open>With \<open>decode_plus_sign_as_whitespace\<close>, under any options that escape the plus sign.\<close>

interpretation percent_query: codec "\<lambda>s. EncodePercent s opts" "\<lambda>s. DecodePercent s True"
  "\<lambda>s. CHR ''+'' \<in> set s \<longrightarrow> \<not> kUnescapedChars (style opts) (escape_reserved opts) 43" for opts
  by unfold_locales (auto simp: DecodePercent_enc pct_back_def intro!: map_idI)

subsection \<open>Base64\<close>

text \<open>What the manual of \<open>EVP_EncodeBlock\<close> and \<open>EVP_DecodeBlock\<close> promises: the encoder returns four characters
  for every three bytes begun, padded with \<open>=\<close>; the decoder returns three bytes for every four characters,
  the bytes that the padding stands for being zero.\<close>

definition evp_ok :: "evp_fn \<Rightarrow> evp_fn \<Rightarrow> bool" where
  "evp_ok e d \<longleftrightarrow>
     (\<forall>s. let n = length s; size = 4 * ((n + 2) div 3); t = take size (snd (e s)) in
        fst (e s) = int size \<and> length t = size \<and>
        (s \<noteq> [] \<longrightarrow> (t ! (size - 1) = CHR ''='' \<longleftrightarrow> n mod 3 \<noteq> 0) \<and> (t ! (size - 2) = CHR ''='' \<longleftrightarrow> n mod 3 = 1) \<and>
           d t = (int (3 * size div 4), s @ replicate (3 * ((n + 2) div 3) - n) (CHR 0x00))))"

lemma DecodeBase64_enc:
  assumes ok: "evp_ok e d" and n: "length s < 2 ^ 31 - 1"
  shows "sthen (EncodeBase64 e s) (DecodeBase64 d) = Inr (Some s)"
proof (cases "s = []")
  case True
  then show ?thesis
    using ok by (auto simp: evp_ok_def Let_def EncodeBase64_def DecodeBase64_def DecodeBase64_to_def split_beta)
next
  case False
  define g size t pad where "g = (length s + 2) div 3" and "size = 4 * g" and "t = take size (snd (e s))"
    and "pad = 3 * g - length s"
  have facts: "fst (e s) = int size" "length t = size"
    "t ! (size - 1) = CHR ''='' \<longleftrightarrow> length s mod 3 \<noteq> 0" "t ! (size - 2) = CHR ''='' \<longleftrightarrow> length s mod 3 = 1"
    "d t = (int (3 * g), s @ replicate pad (CHR 0x00))"
    using ok False unfolding evp_ok_def Let_def g_def size_def t_def pad_def by (simp_all add: mult.assoc)
  have enc: "EncodeBase64 e s = Inr t"
    using n facts(1) by (simp add: EncodeBase64_def Let_def split_beta g_def size_def t_def)
  have g: "0 < g" using False by (cases s) (simp_all add: g_def)
  have pad: "length s + pad = 3 * g"
    "pad = (if length s mod 3 = 0 then 0 else if length s mod 3 = 1 then 2 else 1)"
    unfolding pad_def g_def by presburger+
  have three: "3 * length t div 4 = 3 * g" using facts(2) by (simp add: size_def)
  have "replicate pad (CHR 0x00) @ replicate (3 * g + 1) (CHR 0x00) = replicate (pad + (3 * g + 1)) (CHR 0x00)"
    by (simp only: replicate_add)
  moreover have "Suc (3 * g) - length s = Suc pad" using pad(1) by simp
  ultimately have to: "take (3 * g + 1) ((s @ replicate pad (CHR 0x00)) @ replicate (3 * g + 1) (CHR 0x00))
      = s @ replicate (pad + 1) (CHR 0x00)"
    using pad(1) by (simp only: append_assoc take_append take_replicate) simp
  have "replicate 3 x = [x, x, x]" for x :: char by (simp add: numeral_3_eq_3)
  then have "DecodeBase64_to d t = Inr (True, s)"
    using facts(2-4) three g pad(2) False
    unfolding DecodeBase64_to_def Let_def facts(5) prod.case three to
    by (simp add: size_def butlast_append Suc_le_eq)
  then show ?thesis using enc by (simp add: DecodeBase64_def)
qed

text \<open>Base64 as RFC 4648 defines it, to run the witness on.\<close>

definition b64_alphabet :: string where
  "b64_alphabet = ''ABCDEFGHIJKLMNOPQRSTUVWXYZabcdefghijklmnopqrstuvwxyz0123456789+/''"

definition b64_char :: "nat \<Rightarrow> char" where
  "b64_char i = b64_alphabet ! (i mod 64)"

definition b64_val :: "char \<Rightarrow> nat" where
  "b64_val c = (if c = CHR ''='' then 0 else the (find (\<lambda>i. b64_alphabet ! i = c) [0..<64]))"

fun b64_enc :: "nat list \<Rightarrow> string" where
  "b64_enc (a # b # c # r) =
     [b64_char (a div 4), b64_char (a mod 4 * 16 + b div 16), b64_char (b mod 16 * 4 + c div 64), b64_char (c mod 64)] @
     b64_enc r"
| "b64_enc [a, b] = [b64_char (a div 4), b64_char (a mod 4 * 16 + b div 16), b64_char (b mod 16 * 4), CHR ''='']"
| "b64_enc [a] = [b64_char (a div 4), b64_char (a mod 4 * 16), CHR ''='', CHR ''='']"
| "b64_enc [] = []"

fun b64_dec :: "string \<Rightarrow> nat list" where
  "b64_dec (x # y # z # w # r) =
     [b64_val x * 4 + b64_val y div 16, b64_val y mod 16 * 16 + b64_val z div 4, b64_val z mod 4 * 64 + b64_val w] @
     b64_dec r"
| "b64_dec _ = []"

definition evp_encode :: evp_fn where
  "evp_encode s = (int (length (b64_enc (map code s))), b64_enc (map code s))"

definition evp_decode :: evp_fn where
  "evp_decode t = (int (3 * length t div 4), map char_of (b64_dec t))"

lemma b64_alphabet_ok:
  "\<forall>i\<in>set [0..<64]. b64_alphabet ! i \<noteq> CHR ''='' \<and> find (\<lambda>j. b64_alphabet ! j = b64_alphabet ! i) [0..<64] = Some i"
proof -
  have d: "distinct b64_alphabet" and l: "length b64_alphabet = 64" and e: "CHR ''='' \<notin> set b64_alphabet"
    by (simp_all add: b64_alphabet_def)
  have "find (\<lambda>j. b64_alphabet ! j = b64_alphabet ! i) [0..<64] = Some i" if "i < 64" for i
    using that d l by (auto simp: find_Some_iff nth_eq_iff_index_eq intro!: exI [of _ i])
  moreover have "b64_alphabet ! i \<noteq> CHR ''=''" if "i < 64" for i
    using that e l nth_mem [of i b64_alphabet] by metis
  ultimately show ?thesis by simp
qed

lemma b64_char_val [simp]: "i < 64 \<Longrightarrow> b64_val (b64_char i) = i" "b64_char i \<noteq> CHR ''=''" "b64_val (CHR ''='') = 0"
proof -
  have "i mod 64 < 64" for i :: nat by simp
  then show "b64_char i \<noteq> CHR ''=''" using b64_alphabet_ok by (simp add: b64_char_def)
  then show "i < 64 \<Longrightarrow> b64_val (b64_char i) = i" using b64_alphabet_ok by (simp add: b64_char_def b64_val_def)
  show "b64_val (CHR ''='') = 0" by (simp add: b64_val_def)
qed

lemma b64_parts:
  assumes "a < (256 :: nat)"
  shows "a div 4 < 64" "a div 16 < 16" "a div 64 < 4" "a mod 4 * 16 < 64" "a mod 16 * 4 < 64"
  using assms by (simp_all add: less_mult_imp_div_less)

lemma b64_sums:
  assumes "b < (256 :: nat)"
  shows "a mod 4 * 16 + b div 16 < 64" "a mod 16 * 4 + b div 64 < 64"
proof -
  have "a mod 4 \<le> 3" "a mod 16 \<le> 15" by simp_all
  then show "a mod 4 * 16 + b div 16 < 64" "a mod 16 * 4 + b div 64 < 64"
    using b64_parts(2,3) [OF assms] by linarith+
qed

lemma b64_bytes:
  assumes "b < (256 :: nat)" and "c < (256 :: nat)"
  shows "a div 4 * 4 + (a mod 4 * 16 + b div 16) div 16 = a"
    and "(a mod 4 * 16 + b div 16) mod 16 * 16 + (b mod 16 * 4 + c div 64) div 4 = b"
    and "(b mod 16 * 4 + c div 64) mod 4 * 64 + c mod 64 = c"
  using b64_parts(2) [OF assms(1)] b64_parts(3) [OF assms(2)] by simp_all

lemma groups_of_3: "(5 + n) div 3 = Suc (Suc (Suc n) div 3)"
  by presburger

lemma b64_dec_enc:
  assumes "\<forall>x\<in>set xs. x < 256"
  shows "b64_dec (b64_enc xs) = xs @ replicate (3 * ((length xs + 2) div 3) - length xs) 0"
  using assms
proof (induction xs rule: b64_enc.induct)
  case (1 a b c r)
  have abc: "a < 256" "b < 256" "c < 256" using 1 by simp_all
  have "3 * ((length (a # b # c # r) + 2) div 3) - length (a # b # c # r) = 3 * ((length r + 2) div 3) - length r"
    by (simp add: groups_of_3)
  moreover have "b64_dec (b64_enc r) = r @ replicate (3 * ((length r + 2) div 3) - length r) 0" using 1 by simp
  moreover have "c mod 64 < 64" by simp
  ultimately show ?case
    by (simp only: b64_enc.simps b64_dec.simps append_Cons append_Nil b64_char_val(1) b64_parts(1) [OF abc(1)]
        b64_sums [OF abc(2)] b64_sums [OF abc(3)] b64_bytes [OF abc(2,3)])
next
  case (2 a b)
  then have ab: "a < 256" "b < 256" by simp_all
  show ?case using b64_parts [OF ab(1)] b64_parts [OF ab(2)] b64_sums [OF ab(2), of a] by simp
next
  case (3 a)
  then have "a < 256" by simp
  have r2: "replicate 2 x = [x, x]" for x :: nat by (simp add: numeral_2_eq_2)
  show ?case using b64_parts [OF \<open>a < 256\<close>] by (simp add: r2)
qed simp

lemma length_b64_enc: "length (b64_enc xs) = 4 * ((length xs + 2) div 3)"
  by (induction xs rule: b64_enc.induct) (simp_all add: groups_of_3)

lemma b64_enc_pad:
  "xs \<noteq> [] \<Longrightarrow> (b64_enc xs ! (length (b64_enc xs) - 1) = CHR ''='' \<longleftrightarrow> length xs mod 3 \<noteq> 0) \<and>
              (b64_enc xs ! (length (b64_enc xs) - 2) = CHR ''='' \<longleftrightarrow> length xs mod 3 = 1)"
proof (induction xs rule: b64_enc.induct)
  case (1 a b c r)
  show ?case
  proof (cases "r = []")
    case False
    then have "2 \<le> length (b64_enc r)" using length_b64_enc [of r] by (cases r) simp_all
    then obtain k where k: "length (b64_enc r) = Suc (Suc k)" by (metis add_2_eq_Suc le_Suc_ex)
    have "length (a # b # c # r) mod 3 = length r mod 3" by simp
    then show ?thesis using 1 False k by simp
  qed simp
qed simp_all

lemma evp_ok_rfc4648: "evp_ok evp_encode evp_decode"
proof -
  have "map char_of (map code s) = s" for s :: string by (induction s) simp_all
  moreover have "\<forall>x\<in>set (map code s). x < 256" for s using code_less_256 by auto
  moreover have "char_of (0 :: nat) = CHR 0x00" by (simp add: char_of_def)
  ultimately show ?thesis
    using b64_enc_pad [of "map code _"] b64_dec_enc [of "map code _"] length_b64_enc [of "map code _"]
    by (simp add: evp_ok_def Let_def evp_encode_def evp_decode_def)
qed

subsection \<open>Properties\<close>

text \<open>Hexadecimal text decodes to what was encoded, in both letter cases, so encoding is injective.\<close>

lemma Hex_roundtrip:
  "DecodeHex_to (EncodeHex s up) [] = (True, s) \<and> DecodeHex (EncodeHex s up) = Some s
   \<and> length (EncodeHex s up) = 2 * length s"
  by (simp add: DecodeHex_to_enc hex.dec_enc) (simp add: EncodeHex_def EncodeHex_concat length_hex)

text \<open>The decoder that returns an optional never reports an error: on malformed text it returns
  what it had decoded before it noticed.\<close>

lemma DecodeHex_never_fails:
  "DecodeHex text = Some (snd (DecodeHex_to text [])) \<and> DecodeHex ''6g'' = Some [] \<and> DecodeHex_to ''6g'' [] = (False, [])"
  by (simp add: DecodeHex_def DecodeHex_to_def AsciiCodeFromHexCharPair_def kHexCharToDecimal_def Let_def)

text \<open>Claim C36. Percent-encoded text decodes to what was encoded under every style and option. With plus signs
  decoded as spaces this fails for exactly the plus signs that the chosen style leaves unescaped.\<close>

theorem Percent_roundtrip:
  "DecodePercent (EncodePercent s opts) plus_ws =
     Some (map (\<lambda>c. if plus_ws \<and> c = CHR ''+'' \<and> kUnescapedChars (style opts) (escape_reserved opts) 43
                    then CHR '' '' else c) s)"
  using DecodePercent_enc [of s opts plus_ws] by (simp add: pct_back_def cong: if_cong)

text \<open>Under what OpenSSL promises for its block functions, base64 text decodes to what was encoded,
  including the bytes at the end that share a group with padding.\<close>

lemma Base64_roundtrip:
  assumes "evp_ok e d" and "length s < 2 ^ 31 - 1"
  shows "sthen (EncodeBase64 e s) (DecodeBase64 d) = Inr (Some s)"
  using assms by (rule DecodeBase64_enc)

end
