(* ===== verification/Byte_Set.thy ===== *)
theory Byte_Set
  imports Flare_String
begin

section \<open>Sets of bytes (flare/base/experimental/byte_set.h)\<close>

text \<open>
  \<open>ByteSet\<close> is a bitmap of 256 bits kept in four 64-bit words. A byte is the index of a
  bit: \<open>n / 64\<close> selects the word and \<open>n % 64\<close> the bit in it. The character predicates are
  those of the C library in the C locale.

  The locale \<open>byte_bitmap\<close> is the contract the URI parser relies on: every operation
  computes the operation on sets its name says. Its interpretation discharges the laws for
  the bitmap.
\<close>

record Rep =
  rep_u :: "u64 list"

type_synonym ByteSet = Rep

definition value_type :: "char \<Rightarrow> u8" where
  "value_type c = word_of_nat (code c)"

definition Rep_or :: "Rep \<Rightarrow> Rep \<Rightarrow> Rep" where
  "Rep_or a b = \<lparr>rep_u = [rep_u a ! 0 OR rep_u b ! 0, rep_u a ! 1 OR rep_u b ! 1, rep_u a ! 2 OR rep_u b ! 2, rep_u a ! 3 OR rep_u b ! 3]\<rparr>"

definition Rep_and :: "Rep \<Rightarrow> Rep \<Rightarrow> Rep" where
  "Rep_and a b = \<lparr>rep_u = [rep_u a ! 0 AND rep_u b ! 0, rep_u a ! 1 AND rep_u b ! 1, rep_u a ! 2 AND rep_u b ! 2, rep_u a ! 3 AND rep_u b ! 3]\<rparr>"

definition Rep_eq :: "Rep \<Rightarrow> Rep \<Rightarrow> bool" where
  "Rep_eq a b \<longleftrightarrow> rep_u a ! 0 = rep_u b ! 0 \<and> rep_u a ! 1 = rep_u b ! 1 \<and> rep_u a ! 2 = rep_u b ! 2 \<and> rep_u a ! 3 = rep_u b ! 3"

definition ByteSet_empty :: ByteSet where
  "ByteSet_empty = \<lparr>rep_u = [0, 0, 0, 0]\<rparr>"

definition FromChar :: "u8 \<Rightarrow> Rep" where
  "FromChar c =
     (let n = unat c
      in if n < 64 then \<lparr>rep_u = [push_bit n 1, 0, 0, 0]\<rparr>
         else if n < 128 then \<lparr>rep_u = [0, push_bit (n - 64) 1, 0, 0]\<rparr>
         else if n < 192 then \<lparr>rep_u = [0, 0, push_bit (n - 128) 1, 0]\<rparr>
         else \<lparr>rep_u = [0, 0, 0, push_bit (n - 192) 1]\<rparr>)"

text \<open>The argument of \<open>FromString\<close> is a literal: it ends at the first NUL.\<close>

fun FromString :: "string \<Rightarrow> Rep" where
  "FromString [] = ByteSet_empty"
| "FromString (c # s) = (if c = CHR 0x00 then ByteSet_empty else Rep_or (FromChar (value_type c)) (FromString s))"

definition bs_insert :: "u8 \<Rightarrow> ByteSet \<Rightarrow> ByteSet" where
  "bs_insert n bs =
     (let i = unat n div 64 in \<lparr>rep_u = (rep_u bs)[i := rep_u bs ! i OR push_bit (unat n mod 64) 1]\<rparr>)"

definition bs_erase :: "u8 \<Rightarrow> ByteSet \<Rightarrow> ByteSet" where
  "bs_erase n bs =
     (let i = unat n div 64 in \<lparr>rep_u = (rep_u bs)[i := rep_u bs ! i AND NOT (push_bit (unat n mod 64) 1)]\<rparr>)"

definition contains :: "ByteSet \<Rightarrow> u8 \<Rightarrow> bool" where
  "contains bs c \<longleftrightarrow> drop_bit (unat c mod 64) (rep_u bs ! (unat c div 64)) AND 1 \<noteq> 0"

definition bs_insert_string :: "string \<Rightarrow> ByteSet \<Rightarrow> ByteSet" where
  "bs_insert_string bytes bs = fold (\<lambda>e. bs_insert (value_type e)) bytes bs"

definition bs_erase_string :: "string \<Rightarrow> ByteSet \<Rightarrow> ByteSet" where
  "bs_erase_string bytes bs = fold (\<lambda>e. bs_erase (value_type e)) bytes bs"

definition bs_insert_if :: "(nat \<Rightarrow> bool) \<Rightarrow> ByteSet \<Rightarrow> ByteSet" where
  "bs_insert_if pred bs = fold (\<lambda>c s. if pred c then bs_insert (word_of_nat c) s else s) [0..<256] bs"

definition bs_erase_if :: "(nat \<Rightarrow> bool) \<Rightarrow> ByteSet \<Rightarrow> ByteSet" where
  "bs_erase_if pred bs = fold (\<lambda>c s. if pred c then bs_erase (word_of_nat c) s else s) [0..<256] bs"

definition ByteSet_pred :: "(nat \<Rightarrow> bool) \<Rightarrow> ByteSet" where
  "ByteSet_pred pred = bs_insert_if pred ByteSet_empty"

definition ByteSet_or :: "ByteSet \<Rightarrow> ByteSet \<Rightarrow> ByteSet" where
  "ByteSet_or a b = Rep_or a b"

definition ByteSet_or_string :: "ByteSet \<Rightarrow> string \<Rightarrow> ByteSet" where
  "ByteSet_or_string a s = ByteSet_or a (FromString s)"

definition ByteSet_and :: "ByteSet \<Rightarrow> ByteSet \<Rightarrow> ByteSet" where
  "ByteSet_and a b = Rep_and a b"

definition ByteSet_eq :: "ByteSet \<Rightarrow> ByteSet \<Rightarrow> bool" where
  "ByteSet_eq a b = Rep_eq a b"

definition ByteSet_string :: "string \<Rightarrow> ByteSet" where
  "ByteSet_string bytes = bs_insert_string bytes ByteSet_empty"

definition bs_clear :: "ByteSet \<Rightarrow> ByteSet" where
  "bs_clear bs = \<lparr>rep_u = [0, 0, 0, 0]\<rparr>"

text \<open>The assignments \<open>|=\<close> and \<open>&=\<close> update the words in place.\<close>

definition Rep_or_assign :: "Rep \<Rightarrow> Rep \<Rightarrow> Rep" where
  "Rep_or_assign a b = fold (\<lambda>i r. \<lparr>rep_u = (rep_u r)[i := rep_u r ! i OR rep_u b ! i]\<rparr>) [0, 1, 2, 3] a"

definition Rep_and_assign :: "Rep \<Rightarrow> Rep \<Rightarrow> Rep" where
  "Rep_and_assign a b = fold (\<lambda>i r. \<lparr>rep_u = (rep_u r)[i := rep_u r ! i AND rep_u b ! i]\<rparr>) [0, 1, 2, 3] a"

definition ByteSet_or_assign :: "ByteSet \<Rightarrow> ByteSet \<Rightarrow> ByteSet" where
  "ByteSet_or_assign a b = Rep_or_assign a b"

definition ByteSet_and_assign :: "ByteSet \<Rightarrow> ByteSet \<Rightarrow> ByteSet" where
  "ByteSet_and_assign a b = Rep_and_assign a b"

definition ByteSet_or_assign_string :: "ByteSet \<Rightarrow> string \<Rightarrow> ByteSet" where
  "ByteSet_or_assign_string a s = bs_insert_string (c_str s) a"

subsection \<open>Character classes\<close>

definition isspace :: "nat \<Rightarrow> bool" where "isspace c \<longleftrightarrow> c = 32 \<or> 9 \<le> c \<and> c \<le> 13"

definition isblank :: "nat \<Rightarrow> bool" where "isblank c \<longleftrightarrow> c = 32 \<or> c = 9"

definition isascii :: "nat \<Rightarrow> bool" where "isascii c \<longleftrightarrow> c < 128"

definition isupper :: "nat \<Rightarrow> bool" where "isupper c \<longleftrightarrow> 65 \<le> c \<and> c \<le> 90"

definition islower :: "nat \<Rightarrow> bool" where "islower c \<longleftrightarrow> 97 \<le> c \<and> c \<le> 122"

definition isdigit :: "nat \<Rightarrow> bool" where "isdigit c \<longleftrightarrow> 48 \<le> c \<and> c \<le> 57"

definition isalpha :: "nat \<Rightarrow> bool" where "isalpha c \<longleftrightarrow> isupper c \<or> islower c"

definition isalnum :: "nat \<Rightarrow> bool" where "isalnum c \<longleftrightarrow> isalpha c \<or> isdigit c"

definition isxdigit :: "nat \<Rightarrow> bool" where
  "isxdigit c \<longleftrightarrow> isdigit c \<or> (65 \<le> c \<and> c \<le> 70) \<or> (97 \<le> c \<and> c \<le> 102)"

definition isprint :: "nat \<Rightarrow> bool" where "isprint c \<longleftrightarrow> 32 \<le> c \<and> c \<le> 126"

definition spaces :: ByteSet where "spaces = ByteSet_pred isspace"

definition blanks :: ByteSet where "blanks = ByteSet_pred isblank"

definition asciis :: ByteSet where "asciis = ByteSet_pred isascii"

definition alphas :: ByteSet where "alphas = ByteSet_pred isalpha"

definition alpha_nums :: ByteSet where "alpha_nums = ByteSet_pred isalnum"

definition hex_digits :: ByteSet where "hex_digits = ByteSet_pred isxdigit"

definition digits :: ByteSet where "digits = ByteSet_pred isdigit"

definition uppercase :: ByteSet where "uppercase = ByteSet_pred isupper"

definition lowercase :: ByteSet where "lowercase = ByteSet_pred islower"

definition printables :: ByteSet where "printables = ByteSet_pred isprint"

section \<open>The bitmap implements sets\<close>

locale byte_bitmap =
  fixes wf :: "'s \<Rightarrow> bool" and mem :: "'s \<Rightarrow> 'b \<Rightarrow> bool" and emp :: 's
    and ins del :: "'b \<Rightarrow> 's \<Rightarrow> 's" and join meet :: "'s \<Rightarrow> 's \<Rightarrow> 's"
  assumes emp: "wf emp" "\<not> mem emp b"
    and ins: "wf s \<Longrightarrow> wf (ins a s)" "wf s \<Longrightarrow> mem (ins a s) b \<longleftrightarrow> b = a \<or> mem s b"
    and del: "wf s \<Longrightarrow> wf (del a s)" "wf s \<Longrightarrow> mem (del a s) b \<longleftrightarrow> b \<noteq> a \<and> mem s b"
    and join: "wf s \<Longrightarrow> wf t \<Longrightarrow> wf (join s t)" "wf s \<Longrightarrow> wf t \<Longrightarrow> mem (join s t) b \<longleftrightarrow> mem s b \<or> mem t b"
    and meet: "wf s \<Longrightarrow> wf t \<Longrightarrow> wf (meet s t)" "wf s \<Longrightarrow> wf t \<Longrightarrow> mem (meet s t) b \<longleftrightarrow> mem s b \<and> mem t b"
begin

lemma fold_ins:
  "wf s \<Longrightarrow> wf (fold (\<lambda>e. ins (f e)) es s) \<and> (mem (fold (\<lambda>e. ins (f e)) es s) b \<longleftrightarrow> b \<in> f ` set es \<or> mem s b)"
  by (induction es arbitrary: s) (auto simp: ins)

lemma fold_del:
  "wf s \<Longrightarrow> wf (fold (\<lambda>e. del (f e)) es s) \<and> (mem (fold (\<lambda>e. del (f e)) es s) b \<longleftrightarrow> b \<notin> f ` set es \<and> mem s b)"
  by (induction es arbitrary: s) (auto simp: del)

lemma fold_ins_if:
  "wf s \<Longrightarrow> wf (fold (\<lambda>e s. if P e then ins (f e) s else s) es s) \<and>
     (mem (fold (\<lambda>e s. if P e then ins (f e) s else s) es s) b \<longleftrightarrow> b \<in> f ` {e \<in> set es. P e} \<or> mem s b)"
  by (induction es arbitrary: s) (auto simp: ins)

lemma fold_del_if:
  "wf s \<Longrightarrow> wf (fold (\<lambda>e s. if P e then del (f e) s else s) es s) \<and>
     (mem (fold (\<lambda>e s. if P e then del (f e) s else s) es s) b \<longleftrightarrow> b \<notin> f ` {e \<in> set es. P e} \<and> mem s b)"
  by (induction es arbitrary: s) (auto simp: del)

end

definition wf_Rep :: "Rep \<Rightarrow> bool" where
  "wf_Rep r \<longleftrightarrow> length (rep_u r) = 4"

lemma byte_index: "unat (c :: u8) div 64 < 4"
  using unsigned_less [of c, where 'a = nat] by (simp add: less_mult_imp_div_less)

lemma byte_index_cases:
  obtains "unat (c :: u8) div 64 = 0" | "unat c div 64 = 1" | "unat c div 64 = 2" | "unat c div 64 = 3"
proof -
  have "n < 4 \<Longrightarrow> n = 0 \<or> n = 1 \<or> n = 2 \<or> n = 3" for n :: nat by arith
  with byte_index [of c] that show thesis by metis
qed

lemma byte_eq_iff: "(a :: u8) = b \<longleftrightarrow> unat a div 64 = unat b div 64 \<and> unat a mod 64 = unat b mod 64"
proof -
  have "m = n \<longleftrightarrow> m div 64 = n div 64 \<and> m mod 64 = n mod 64" for m n :: nat
    using div_mult_mod_eq [of m 64] div_mult_mod_eq [of n 64] by metis
  then have "unat a = unat b \<longleftrightarrow> unat a div 64 = unat b div 64 \<and> unat a mod 64 = unat b mod 64" .
  then show ?thesis using unsigned_word_eqI [of a b] by blast
qed

lemma contains_bit: "contains bs c \<longleftrightarrow> bit (rep_u bs ! (unat c div 64)) (unat c mod 64)"
  by (simp add: contains_def and_one_eq bit_iff_odd_drop_bit odd_iff_mod_2_eq_one)

lemma bit_single: "i < 64 \<Longrightarrow> bit (2 ^ k :: u64) i \<longleftrightarrow> i = k"
  by (auto simp: bit_exp_iff possible_bit_word)

lemma bit_clear: "i < 64 \<Longrightarrow> bit (w AND NOT (2 ^ k) :: u64) i \<longleftrightarrow> i \<noteq> k \<and> bit w i"
  by (auto simp: bit_and_iff bit_not_iff bit_single)

lemma contains_empty: "\<not> contains ByteSet_empty c"
  by (cases rule: byte_index_cases [of c]) (simp_all add: contains_bit ByteSet_empty_def)

lemma contains_insert: "wf_Rep bs \<Longrightarrow> contains (bs_insert n bs) c \<longleftrightarrow> c = n \<or> contains bs c"
  using byte_index [of n]
  by (auto simp: contains_bit bs_insert_def Let_def wf_Rep_def nth_list_update bit_or_iff bit_single byte_eq_iff)

lemma contains_erase: "wf_Rep bs \<Longrightarrow> contains (bs_erase n bs) c \<longleftrightarrow> c \<noteq> n \<and> contains bs c"
  using byte_index [of n]
  by (auto simp: contains_bit bs_erase_def Let_def wf_Rep_def nth_list_update bit_clear byte_eq_iff)

lemma contains_or: "contains (Rep_or a b) c \<longleftrightarrow> contains a c \<or> contains b c"
  by (cases rule: byte_index_cases [of c]) (simp_all add: contains_bit Rep_or_def bit_or_iff)

lemma contains_and: "contains (Rep_and a b) c \<longleftrightarrow> contains a c \<and> contains b c"
  by (cases rule: byte_index_cases [of c]) (simp_all add: contains_bit Rep_and_def bit_and_iff)

interpretation bm: byte_bitmap wf_Rep contains ByteSet_empty bs_insert bs_erase ByteSet_or ByteSet_and
  by unfold_locales
    (simp_all add: contains_empty contains_insert contains_erase contains_or contains_and ByteSet_or_def ByteSet_and_def,
     simp_all add: wf_Rep_def ByteSet_empty_def bs_insert_def bs_erase_def Rep_or_def Rep_and_def Let_def)

subsection \<open>Sets given by characters\<close>

lemma unat_value_type: "unat (value_type c) = code c"
proof -
  have "code c = code (char_of (code c :: nat))" by simp
  also have "\<dots> = code c mod 256" by (simp only: of_char_of)
  finally have "code c < 256" by (metis mod_less_divisor zero_less_numeral)
  then show ?thesis by (simp add: value_type_def unat_of_nat)
qed

lemma value_type_eq_iff: "value_type c = value_type d \<longleftrightarrow> c = d"
  using unat_value_type [of c] unat_value_type [of d] by (metis of_char_eq_iff)

lemma contains_FromChar: "contains (FromChar n) c \<longleftrightarrow> c = n"
proof -
  have "FromChar n = bs_insert n ByteSet_empty"
    by (cases rule: byte_index_cases [of n])
      (auto simp: FromChar_def bs_insert_def ByteSet_empty_def Let_def div_nat_eqI modulo_nat_def
        numeral_2_eq_2 numeral_3_eq_3 dest: sym)
  then show ?thesis by (simp add: bm.ins bm.emp)
qed

lemma wf_FromString: "wf_Rep (FromString s)"
  by (induction s) (auto simp: wf_Rep_def Rep_or_def ByteSet_empty_def)

lemma contains_FromString: "contains (FromString s) b \<longleftrightarrow> b \<in> value_type ` set (c_str s)"
proof (induction s)
  case (Cons c s)
  have "code c = 0 \<longleftrightarrow> c = CHR 0x00" using of_char_eq_iff [where 'a = nat, of c "CHR 0x00"] by simp
  then show ?case using Cons by (auto simp: contains_or contains_FromChar c_str_def contains_empty)
qed (simp add: c_str_def contains_empty)

lemma ByteSet_pred_members: "wf_Rep (ByteSet_pred P)" "contains (ByteSet_pred P) b \<longleftrightarrow> P (unat b)"
proof -
  have "unat b \<in> set [0..<256]" using unsigned_less [of b, where 'a = nat] by simp
  then have "b \<in> word_of_nat ` {e \<in> set [0..<256]. P e} \<longleftrightarrow> P (unat b)"
    by (auto simp: image_iff unat_of_nat intro!: bexI [of _ "unat b"])
  then show "wf_Rep (ByteSet_pred P)" "contains (ByteSet_pred P) b \<longleftrightarrow> P (unat b)"
    using bm.fold_ins_if [OF bm.emp(1), of P word_of_nat "[0..<256]" b]
    by (simp_all add: ByteSet_pred_def bs_insert_if_def bm.emp)
qed

text \<open>Membership of a character, and the rules by which the sets the parser uses unfold.\<close>

definition has :: "ByteSet \<Rightarrow> char \<Rightarrow> bool" where
  "has bs c \<longleftrightarrow> contains bs (value_type c)"

lemma has_simps:
  "has (ByteSet_pred P) c \<longleftrightarrow> P (code c)"
  "has (FromString s) c \<longleftrightarrow> c \<in> set (c_str s)"
  "has (ByteSet_or a b) c \<longleftrightarrow> has a c \<or> has b c"
  "has (ByteSet_or_string a s) c \<longleftrightarrow> has a c \<or> c \<in> set (c_str s)"
  by (auto simp: has_def ByteSet_pred_members unat_value_type contains_FromString value_type_eq_iff
      contains_or ByteSet_or_def ByteSet_or_string_def)

lemma string_ops_refine:
  assumes "wf_Rep bs"
  shows "has (bs_insert_string s bs) c \<longleftrightarrow> c \<in> set s \<or> has bs c"
    and "has (bs_erase_string s bs) c \<longleftrightarrow> c \<notin> set s \<and> has bs c"
  using bm.fold_ins [OF assms, of value_type s] bm.fold_del [OF assms, of value_type s]
  by (auto simp: has_def bs_insert_string_def bs_erase_string_def value_type_eq_iff)

lemma if_ops_refine:
  assumes "wf_Rep bs"
  shows "has (bs_insert_if P bs) c \<longleftrightarrow> P (code c) \<or> has bs c"
    and "has (bs_erase_if P bs) c \<longleftrightarrow> \<not> P (code c) \<and> has bs c"
proof -
  have "unat (value_type c) \<in> set [0..<256]"
    using unsigned_less [of "value_type c", where 'a = nat] by simp
  then have "value_type c \<in> word_of_nat ` {e \<in> set [0..<256]. P e} \<longleftrightarrow> P (code c)"
    by (auto simp: image_iff unat_of_nat simp flip: unat_value_type intro!: bexI [of _ "unat (value_type c)"])
  then show "has (bs_insert_if P bs) c \<longleftrightarrow> P (code c) \<or> has bs c"
    and "has (bs_erase_if P bs) c \<longleftrightarrow> \<not> P (code c) \<and> has bs c"
    using bm.fold_ins_if [OF assms, of P word_of_nat "[0..<256]" "value_type c"]
      bm.fold_del_if [OF assms, of P word_of_nat "[0..<256]" "value_type c"]
    by (simp_all add: has_def bs_insert_if_def bs_erase_if_def)
qed

text \<open>Updating in place computes the same set, and two sets are equal exactly when they have the same bytes.\<close>

lemma assign_refine:
  assumes "wf_Rep a" "wf_Rep b"
  shows "ByteSet_or_assign a b = ByteSet_or a b" "ByteSet_and_assign a b = ByteSet_and a b"
proof -
  obtain a0 a1 a2 a3 where "rep_u a = [a0, a1, a2, a3]"
    using assms(1) by (auto simp: wf_Rep_def length_Suc_conv numeral_eq_Suc)
  then show "ByteSet_or_assign a b = ByteSet_or a b" "ByteSet_and_assign a b = ByteSet_and a b"
    by (simp_all add: ByteSet_or_assign_def ByteSet_or_def Rep_or_assign_def Rep_or_def
        ByteSet_and_assign_def ByteSet_and_def Rep_and_assign_def Rep_and_def numeral_2_eq_2 numeral_3_eq_3)
qed

lemma ByteSet_eq_iff: "ByteSet_eq a b \<longleftrightarrow> (\<forall>c. contains a c \<longleftrightarrow> contains b c)"
proof
  assume "ByteSet_eq a b"
  then have "contains a c \<longleftrightarrow> contains b c" for c
    by (cases rule: byte_index_cases [of c]) (simp_all add: ByteSet_eq_def Rep_eq_def contains_bit)
  then show "\<forall>c. contains a c \<longleftrightarrow> contains b c" ..
next
  assume same: "\<forall>c. contains a c \<longleftrightarrow> contains b c"
  have "rep_u a ! k = rep_u b ! k" if "k < 4" for k
  proof (rule bit_word_eqI)
    fix i :: nat
    assume "i < LENGTH(64)"
    then have i: "i < 64" by simp
    have "64 * k + i < 256" using that i by linarith
    then have "unat (word_of_nat (64 * k + i) :: u8) = 64 * k + i" by (simp only: unat_of_nat) simp
    then show "bit (rep_u a ! k) i \<longleftrightarrow> bit (rep_u b ! k) i"
      using same [rule_format, of "word_of_nat (64 * k + i)"] i by (simp add: contains_bit)
  qed
  then show "ByteSet_eq a b" by (simp add: ByteSet_eq_def Rep_eq_def)
qed

end
