(* ===== verification/Net_Uri.thy ===== *)
theory Net_Uri
  imports Byte_Set
begin

section \<open>URIs (flare/base/net/uri.h, uri.cc)\<close>

text \<open>
  The recursive-descent parser \<open>UriParser\<close> and the class \<open>Uri\<close>. A matcher is a function from the state of the
  parser to whether it matched and the state afterwards, as the member functions are; \<open>&&\<close> and \<open>||\<close> are
  \<open>and_m\<close> and \<open>or_m\<close>, which keep the state the first operand left behind. The pointers
  \<open>m_begin\<close>, \<open>m_current\<close> and \<open>m_end\<close> are offsets into the text. A local \<open>Result r\<close> moves \<open>m_current\<close> back to where
  it was when \<open>r\<close> is false at the end of its block; \<open>guarded\<close> is the common form of it.

  One matcher subtracts the address of the text from the address of an empty literal. What 16 bits it
  leaves as the offset of an empty path depends on where the compiler and the caller put the two, so they are
  an argument, \<open>m_empty\<close>. The gflag \<open>flare_extension_non_conformant_uri_for_gdt\<close> is the argument of
  \<open>UriParserByteSets_ctor\<close>.
\<close>

subsection \<open>The byte sets\<close>

record UriParserByteSets =
  bs_alpha :: ByteSet
  bs_upper :: ByteSet
  bs_lower :: ByteSet
  bs_digit :: ByteSet
  bs_alphanum :: ByteSet
  bs_print :: ByteSet
  bs_hex :: ByteSet
  bs_gen_delims :: ByteSet
  bs_sub_delims :: ByteSet
  bs_reserved :: ByteSet
  bs_mark :: ByteSet
  bs_unreserved :: ByteSet
  bs_userinfo :: ByteSet
  bs_uric_no_slash :: ByteSet
  bs_rel_segment :: ByteSet
  bs_scheme :: ByteSet
  bs_reg_name :: ByteSet
  bs_expansion :: ByteSet
  bs_pchar :: ByteSet
  bs_query :: ByteSet
  bs_fragment :: ByteSet

definition UriParserByteSets_ctor :: "bool \<Rightarrow> UriParserByteSets" where
  "UriParserByteSets_ctor gdt =
     (let alphanum = alpha_nums;
          gen_delims = FromString '':/?#[]@'';
          sub_delims = FromString (''!$&'' @ [CHR 0x27] @ ''()*+,;='');
          unreserved = ByteSet_or_string alphanum ''-._~'';
          expansion = FromString (if \<not> gdt then '''' else ''|{}[]^'' @ [CHR 0x22]);
          pchar = ByteSet_or (ByteSet_or_string (ByteSet_or unreserved sub_delims) '':@'') expansion
      in \<lparr>bs_alpha = alphas, bs_upper = uppercase, bs_lower = lowercase, bs_digit = digits,
          bs_alphanum = alphanum, bs_print = printables, bs_hex = hex_digits,
          bs_gen_delims = gen_delims, bs_sub_delims = sub_delims,
          bs_reserved = ByteSet_or gen_delims sub_delims,
          bs_mark = FromString (''-_.!~*'' @ [CHR 0x27] @ ''()''),
          bs_unreserved = unreserved,
          bs_userinfo = ByteSet_or_string unreserved '',:&=+$,'',
          bs_uric_no_slash = ByteSet_or_string unreserved '',?:@&=+$,'',
          bs_rel_segment = ByteSet_or_string unreserved '',@&=+$,'',
          bs_scheme = ByteSet_or_string alpha_nums ''+-.'',
          bs_reg_name = ByteSet_or unreserved sub_delims,
          bs_expansion = expansion, bs_pchar = pchar,
          bs_query = ByteSet_or_string pchar ''/?'',
          bs_fragment = ByteSet_or_string (ByteSet_or_string pchar ''/?'') (if \<not> gdt then '''' else ''#'')\<rparr>)"

subsection \<open>The receiver of the components\<close>

type_synonym u16 = "16 word"
type_synonym ComponentView = "u16 \<times> u16"

record UriParseResultReceiver =
  r_scheme :: ComponentView
  r_userinfo :: ComponentView
  r_host :: ComponentView
  r_port :: ComponentView
  r_path :: ComponentView
  r_query :: ComponentView
  r_fragment :: ComponentView

definition UriParseResultReceiver_ctor :: UriParseResultReceiver where
  "UriParseResultReceiver_ctor =
     \<lparr>r_scheme = (0, 0), r_userinfo = (0, 0), r_host = (0, 0), r_port = (0, 0), r_path = (0, 0),
      r_query = (0, 0), r_fragment = (0, 0)\<rparr>"

text \<open>An offset and a length are stored in 16 bits each.\<close>

definition view :: "nat \<Rightarrow> nat \<Rightarrow> ComponentView" where
  "view off len = (word_of_nat off, word_of_nat len)"

record UriParser =
  m_byte_sets :: UriParserByteSets
  m_text :: string
  m_end :: nat
  m_current :: nat
  m_result :: UriParseResultReceiver
  m_empty :: u16

type_synonym matcher = "UriParser \<Rightarrow> bool \<times> UriParser"

definition SetScheme :: "nat \<Rightarrow> nat \<Rightarrow> UriParser \<Rightarrow> UriParser" where
  "SetScheme off len p = p\<lparr>m_result := m_result p\<lparr>r_scheme := view off len\<rparr>\<rparr>"

definition SetUserInfo :: "nat \<Rightarrow> nat \<Rightarrow> UriParser \<Rightarrow> UriParser" where
  "SetUserInfo off len p = p\<lparr>m_result := m_result p\<lparr>r_userinfo := view off len\<rparr>\<rparr>"

definition SetHost :: "nat \<Rightarrow> nat \<Rightarrow> UriParser \<Rightarrow> UriParser" where
  "SetHost off len p = p\<lparr>m_result := m_result p\<lparr>r_host := view off len\<rparr>\<rparr>"

definition SetPort :: "nat \<Rightarrow> nat \<Rightarrow> UriParser \<Rightarrow> UriParser" where
  "SetPort off len p = p\<lparr>m_result := m_result p\<lparr>r_port := view off len\<rparr>\<rparr>"

definition SetPath :: "nat \<Rightarrow> nat \<Rightarrow> UriParser \<Rightarrow> UriParser" where
  "SetPath off len p = p\<lparr>m_result := m_result p\<lparr>r_path := view off len\<rparr>\<rparr>"

definition SetQuery :: "nat \<Rightarrow> nat \<Rightarrow> UriParser \<Rightarrow> UriParser" where
  "SetQuery off len p = p\<lparr>m_result := m_result p\<lparr>r_query := view off len\<rparr>\<rparr>"

definition SetFragment :: "nat \<Rightarrow> nat \<Rightarrow> UriParser \<Rightarrow> UriParser" where
  "SetFragment off len p = p\<lparr>m_result := m_result p\<lparr>r_fragment := view off len\<rparr>\<rparr>"

subsection \<open>Matching\<close>

definition and_m :: "matcher \<Rightarrow> matcher \<Rightarrow> matcher" where
  "and_m f g p = (let (b, p1) = f p in if b then g p1 else (False, p1))"

definition or_m :: "matcher \<Rightarrow> matcher \<Rightarrow> matcher" where
  "or_m f g p = (let (b, p1) = f p in if b then (True, p1) else g p1)"

text \<open>\<open>Result r(this); r = f(); return r;\<close>\<close>

definition guarded :: "matcher \<Rightarrow> matcher" where
  "guarded f p = (let (b, p1) = f p in (b, if b then p1 else p1\<lparr>m_current := m_current p\<rparr>))"

definition match_literal :: "char \<Rightarrow> matcher" where
  "match_literal c p =
     (if m_current p < m_end p \<and> m_text p ! m_current p = c then (True, p\<lparr>m_current := m_current p + 1\<rparr>)
      else (False, p))"

definition match_literal_string :: "string \<Rightarrow> matcher" where
  "match_literal_string l p =
     (let w = length l
      in if m_end p - m_current p \<ge> w \<and> take w (drop (m_current p) (m_text p)) = l
         then (True, p\<lparr>m_current := m_current p + w\<rparr>) else (False, p))"

definition match_byteset :: "(UriParserByteSets \<Rightarrow> ByteSet) \<Rightarrow> matcher" where
  "match_byteset cs p =
     (if m_current p < m_end p \<and> has (cs (m_byte_sets p)) (m_text p ! m_current p)
      then (True, p\<lparr>m_current := m_current p + 1\<rparr>) else (False, p))"

definition match_alpha :: matcher where "match_alpha = match_byteset bs_alpha"

definition match_digit :: matcher where "match_digit = match_byteset bs_digit"

definition match_alphanum :: matcher where "match_alphanum = match_byteset bs_alphanum"

definition match_hex :: matcher where "match_hex = match_byteset bs_hex"

definition match_mark :: matcher where "match_mark = match_byteset bs_mark"

definition match_unreserved :: matcher where "match_unreserved = match_byteset bs_unreserved"

definition match_reserved :: matcher where "match_reserved = match_byteset bs_reserved"

definition match_pct_encoded :: matcher where
  "match_pct_encoded p =
     (let left = m_end p - m_current p;
          at = (\<lambda>i. m_text p ! (m_current p + i));
          hex = (\<lambda>i. has (bs_hex (m_byte_sets p)) (at i))
      in if left > 2 \<and> at 0 = CHR 0x25 then
           (if hex 1 \<and> hex 2 then (True, p\<lparr>m_current := m_current p + 3\<rparr>)
            else if left > 5 \<and> at 1 = CHR ''u'' \<and> hex 2 \<and> hex 3 \<and> hex 4 \<and> hex 5
              then (True, p\<lparr>m_current := m_current p + 6\<rparr>)
            else (False, p))
         else (False, p))"

definition match_percent_encoded :: matcher where
  "match_percent_encoded p =
     (let left = m_end p - m_current p;
          at = (\<lambda>i. m_text p ! (m_current p + i));
          hex = (\<lambda>i. has (bs_hex (m_byte_sets p)) (at i))
      in if left > 2 \<and> at 0 = CHR 0x25 \<and> hex 1 \<and> hex 2 then (True, p\<lparr>m_current := m_current p + 3\<rparr>)
         else (False, p))"

text \<open>A step that matches moves forward inside the text and changes nothing else, so the loops end.\<close>

definition adv :: "nat \<Rightarrow> UriParser \<Rightarrow> UriParser" where
  "adv k p = p\<lparr>m_current := m_current p + k\<rparr>"

lemma adv_simps [simp]:
  "adv k (adv j p) = adv (j + k) p" "adv 0 p = p"
  "m_current (adv k p) = m_current p + k" "m_end (adv k p) = m_end p" "m_text (adv k p) = m_text p"
  "m_byte_sets (adv k p) = m_byte_sets p" "m_empty (adv k p) = m_empty p" "m_result (adv k p) = m_result p"
  by (simp_all add: adv_def add.assoc)

definition stepper :: "matcher \<Rightarrow> bool" where
  "stepper m \<longleftrightarrow>
     (\<forall>p q. (m p = (True, q) \<longrightarrow> (\<exists>k>0. m_current p < m_end p \<and> q = adv k p)) \<and> (m p = (False, q) \<longrightarrow> q = p))"

lemma stepperD: "stepper m \<Longrightarrow> m p = (True, q) \<Longrightarrow> \<exists>k>0. m_current p < m_end p \<and> q = adv k p"
  "stepper m \<Longrightarrow> m p = (False, q) \<Longrightarrow> q = p"
  unfolding stepper_def by blast+

lemma stepper_pct: "stepper match_pct_encoded"
proof -
  have "match_pct_encoded p = (False, p) \<or> m_current p < m_end p \<and> (\<exists>k>0. match_pct_encoded p = (True, adv k p))" for p
  proof -
    have "match_pct_encoded p = (False, p) \<or> m_current p < m_end p \<and>
        (match_pct_encoded p = (True, adv 3 p) \<or> match_pct_encoded p = (True, adv 6 p))"
      by (auto simp: match_pct_encoded_def Let_def adv_def)
    then show ?thesis using zero_less_numeral by blast
  qed
  then show ?thesis unfolding stepper_def by (metis Pair_inject)
qed

lemma stepper_byteset: "stepper (match_byteset cs)"
  unfolding stepper_def match_byteset_def adv_def by (simp, metis zero_less_one add.commute plus_1_eq_Suc)

lemma stepper_literal: "stepper (match_literal c)"
  unfolding stepper_def match_literal_def adv_def by (simp, metis zero_less_one add.commute plus_1_eq_Suc)

lemma stepper_or:
  assumes "stepper f" and "stepper g"
  shows "stepper (or_m f g)"
  unfolding stepper_def
proof (intro allI conjI impI)
  fix p q
  obtain b p1 where f: "f p = (b, p1)" by force
  { assume a: "or_m f g p = (True, q)"
    show "\<exists>k>0. m_current p < m_end p \<and> q = adv k p"
    proof (cases b)
      case True
      then have "f p = (True, q)" using f a by (simp add: or_m_def)
      then show ?thesis by (rule stepperD(1) [OF assms(1)])
    next
      case False
      then have "g p = (True, q)" using f a stepperD(2) [OF assms(1), of p p1] by (simp add: or_m_def)
      then show ?thesis by (rule stepperD(1) [OF assms(2)])
    qed }
  { assume a: "or_m f g p = (False, q)"
    then have "b = False" using f by (cases b) (simp_all add: or_m_def)
    then have "g p = (False, q)" using f a stepperD(2) [OF assms(1), of p p1] by (simp add: or_m_def)
    then show "q = p" by (rule stepperD(2) [OF assms(2)]) }
qed

lemma stepper_guarded:
  assumes "stepper f"
  shows "guarded f = f"
proof
  fix p
  obtain b q where f: "f p = (b, q)" by force
  show "guarded f p = f p"
    using f stepperD(2) [OF assms, of p q] by (cases b) (simp_all add: guarded_def)
qed

lemmas stepper_byteset_or_pct = stepper_or [OF stepper_byteset stepper_pct]

function match_while :: "(UriParserByteSets \<Rightarrow> ByteSet) \<Rightarrow> UriParser \<Rightarrow> UriParser" where
  "match_while cs p = (let (b, p1) = match_byteset cs p in if b then match_while cs p1 else p1)"
  by pat_completeness auto
termination
proof (relation "measure (\<lambda>(_, p). m_end p - m_current p)", goal_cases)
  case (2 cs p x b p1)
  then have "\<exists>k>0. m_current p < m_end p \<and> p1 = adv k p" using stepperD(1) [OF stepper_byteset, of cs p p1] by metis
  then show ?case by auto
qed simp

function match_while_pct :: "(UriParserByteSets \<Rightarrow> ByteSet) \<Rightarrow> nat \<Rightarrow> UriParser \<Rightarrow> nat \<times> UriParser" where
  "match_while_pct cs n p =
     (let (b, p1) = or_m (match_byteset cs) match_pct_encoded p
      in if b then match_while_pct cs (n + 1) p1 else (n, p1))"
  by pat_completeness auto
termination
proof (relation "measure (\<lambda>(_, _, p). m_end p - m_current p)", goal_cases)
  case (2 cs n p x b p1)
  then have "\<exists>k>0. m_current p < m_end p \<and> p1 = adv k p" using stepperD(1) [OF stepper_byteset_or_pct, of cs p p1] by metis
  then show ?case by auto
qed simp

declare match_while.simps [simp del] match_while_pct.simps [simp del]

lemma while_pct_frame: "\<exists>k. snd (match_while_pct cs n p) = adv k p"
proof (induction cs n p rule: match_while_pct.induct)
  case (1 cs n p)
  obtain b p1 where s: "or_m (match_byteset cs) match_pct_encoded p = (b, p1)" by force
  show ?case
  proof (cases b)
    case True
    then have "or_m (match_byteset cs) match_pct_encoded p = (True, p1)" using s by simp
    then obtain j where "p1 = adv j p" using stepperD(1) [OF stepper_byteset_or_pct] by blast
    moreover obtain k where "snd (match_while_pct cs (n + 1) p1) = adv k p1" using "1.IH" s True by metis
    ultimately show ?thesis using s True by (auto simp: match_while_pct.simps [of cs n p])
  next
    case False
    then show ?thesis using s stepperD(2) [OF stepper_byteset_or_pct, of cs p p1]
      by (auto simp: match_while_pct.simps [of cs n p] intro: exI [of _ 0])
  qed
qed

definition match_pchar :: matcher where
  "match_pchar = or_m (match_byteset bs_pchar) match_pct_encoded"

definition match_segment :: matcher where
  "match_segment p = (True, snd (match_while_pct bs_pchar 0 p))"

definition match_segment_nz :: matcher where
  "match_segment_nz p = (let (count, p1) = match_while_pct bs_pchar 0 p in (count > 0, p1))"

text \<open>\<open>for (;;) { Result r(this); r = match_literal('/') && match_segment(); if (!r) break; }\<close>\<close>

function match_segments :: "UriParser \<Rightarrow> UriParser" where
  "match_segments p =
     (let (b, p1) = guarded (and_m (match_literal CHR ''/'') match_segment) p
      in if b then match_segments p1 else p1)"
  by pat_completeness auto
termination
proof (relation "measure (\<lambda>p. m_end p - m_current p)", goal_cases)
  case (2 p x b p1)
  have "m_current p < m_end p" and p1: "p1 = snd (match_while_pct bs_pchar 0 (adv 1 p))"
    using 2 by (auto simp: guarded_def and_m_def match_literal_def match_segment_def adv_def split: if_splits)
  moreover obtain k where "snd (match_while_pct bs_pchar 0 (adv 1 p)) = adv k (adv 1 p)" using while_pct_frame by blast
  ultimately show ?case by simp
qed simp

definition nc_step :: matcher where
  "nc_step =
     guarded (or_m (or_m (or_m match_unreserved match_pct_encoded) (match_byteset bs_sub_delims)) (match_literal CHR ''@''))"

lemma stepper_nc: "stepper nc_step"
  unfolding nc_step_def match_unreserved_def
  by (subst stepper_guarded) (intro stepper_or stepper_byteset stepper_pct stepper_literal)+

function match_nc_loop :: "nat \<Rightarrow> UriParser \<Rightarrow> nat \<times> UriParser" where
  "match_nc_loop count p = (let (b, p1) = nc_step p in if b then match_nc_loop (count + 1) p1 else (count, p1))"
  by pat_completeness auto
termination
proof (relation "measure (\<lambda>(_, p). m_end p - m_current p)", goal_cases)
  case (2 count p x b p1)
  then have "\<exists>k>0. m_current p < m_end p \<and> p1 = adv k p" using stepperD(1) [OF stepper_nc, of p p1] by metis
  then show ?case by auto
qed simp

declare match_segments.simps [simp del] match_nc_loop.simps [simp del]

definition match_segment_nz_nc :: matcher where
  "match_segment_nz_nc p = (let (count, p1) = match_nc_loop 0 p in (count > 0, p1))"

subsection \<open>The grammar\<close>

definition match_query :: matcher where
  "match_query p = (True, snd (match_while_pct bs_query 0 p))"

definition match_fragment :: matcher where
  "match_fragment p = (True, snd (match_while_pct bs_fragment 0 p))"

definition match_userinfo :: matcher where
  "match_userinfo p = (True, snd (match_while_pct bs_userinfo 0 p))"

definition match_port :: matcher where
  "match_port p = (True, match_while bs_digit p)"

definition match_reg_name :: matcher where
  "match_reg_name = guarded (\<lambda>p. let (n, p1) = match_while_pct bs_reg_name 0 p in (n > 0, p1))"

definition match_IP_literal :: matcher where
  "match_IP_literal p = (False, p)"

text \<open>The loop over the first three fields of an IPv4 address; it returns false from inside the loop when a field
  that has a digit is not followed by a dot, and passes over a field that has none.\<close>

fun match_IPv4_fields :: "nat \<Rightarrow> matcher" where
  "match_IPv4_fields 0 p = (True, p)"
| "match_IPv4_fields (Suc i) p =
     (let (d, p1) = match_digit p
      in if d then
           (let (dot, p2) = match_literal CHR ''.'' (match_while bs_digit p1)
            in if \<not> dot then (False, p2) else match_IPv4_fields i p2)
         else match_IPv4_fields i p1)"

definition match_IPv4address :: matcher where
  "match_IPv4address =
     guarded (\<lambda>p.
       let (ok, p1) = match_IPv4_fields 3 p
       in if \<not> ok then (False, p1)
          else (let (d, p2) = match_digit p1 in if d then (True, match_while bs_digit p2) else (False, p2)))"

definition match_host :: matcher where
  "match_host p =
     (let (b, p1) = or_m (or_m match_IPv4address match_IP_literal) match_reg_name p
      in if b then (True, SetHost (m_current p) (m_current p1 - m_current p) p1) else (False, p1))"

fun contains_userinfo :: "string \<Rightarrow> bool" where
  "contains_userinfo [] = False"
| "contains_userinfo (c # s) =
     (if c = CHR ''@'' then True else if c = CHR ''/'' then False else contains_userinfo s)"

definition maybe_contains_userinfo :: "UriParser \<Rightarrow> bool" where
  "maybe_contains_userinfo p = contains_userinfo (drop (m_current p) (take (m_end p) (m_text p)))"

definition match_authority :: matcher where
  "match_authority p =
     (let p1 = (if maybe_contains_userinfo p then
                  (let (b, q) = guarded (and_m match_userinfo (match_literal CHR ''@'')) p
                   in if b then SetUserInfo (m_current p) (m_current q - m_current p - 1) q else q)
                else p);
          (h, p2) = match_host p1
      in if \<not> h then (False, p2)
         else
           (let (b, p3) = guarded (and_m (match_literal CHR '':'') match_port) p2
            in (True, if b then SetPort (m_current p2 + 1) (m_current p3 - m_current p2 - 1) p3 else p3)))"

definition match_path_abempty :: matcher where
  "match_path_abempty p = (let q = match_segments p in (True, SetPath (m_current p) (m_current q - m_current p) q))"

definition match_path_absolute :: matcher where
  "match_path_absolute p =
     (let (b, p1) = match_literal CHR ''/'' p
      in if \<not> b then (False, p1)
         else
           (let (nz, p2) = match_segment_nz p1; q = (if nz then match_segments p2 else p2)
            in (True, SetPath (m_current p) (m_current q - m_current p) q)))"

definition match_path_noscheme :: matcher where
  "match_path_noscheme p =
     (let (nz, p1) = match_segment_nz_nc p
      in if \<not> nz then (False, p1)
         else (let q = match_segments p1 in (True, SetPath (m_current p) (m_current q - m_current p) q)))"

definition match_path_rootless :: matcher where
  "match_path_rootless p =
     (let (nz, p1) = match_segment_nz p
      in if \<not> nz then (False, p1)
         else (let q = match_segments p1 in (True, SetPath (m_current p) (m_current q - m_current p) q)))"

text \<open>\<open>SetPath("", 0)\<close>: the distance of the literal from the text, cut to 16 bits.\<close>

definition match_path_empty :: matcher where
  "match_path_empty p = (True, p\<lparr>m_result := m_result p\<lparr>r_path := (m_empty p, 0)\<rparr>\<rparr>)"

definition match_path :: matcher where
  "match_path =
     or_m (or_m (or_m (or_m match_path_abempty match_path_absolute) match_path_noscheme) match_path_rootless)
       match_path_empty"

definition match_scheme_and_colon :: matcher where
  "match_scheme_and_colon =
     guarded (\<lambda>p.
       let (b, p1) = match_alpha p
       in if \<not> b then (False, p1)
          else
            (let (c, q) = match_literal CHR '':'' (match_while bs_scheme p1)
             in if c then (True, SetScheme (m_current p) (m_current q - m_current p - 1) q) else (False, q)))"

definition match_net_path :: matcher where
  "match_net_path = and_m (and_m (match_literal_string ''//'') match_authority) match_path_abempty"

text \<open>In \<open>match_hier_part\<close> only the first alternative is assigned to the \<open>Result\<close>. When another one matches, its
  value is returned, but the destructor of the \<open>Result\<close>, still false, moves back to the start.\<close>

definition match_hier_part :: matcher where
  "match_hier_part p =
     (let (b, p1) = guarded match_net_path p
      in if b then (True, p1)
         else
           (let (c, p2) = or_m (or_m match_path_absolute match_path_rootless) match_path_empty p1
            in (c, p2\<lparr>m_current := m_current p\<rparr>)))"

definition match_relative_part :: matcher where
  "match_relative_part p =
     (let (b, p1) = guarded match_net_path p
      in if b then (True, p1)
         else
           (let (c, p2) = or_m (or_m match_path_absolute match_path_noscheme) match_path_empty p1
            in (c, if c then p2 else p2\<lparr>m_current := m_current p\<rparr>)))"

definition optional_query :: "UriParser \<Rightarrow> UriParser" where
  "optional_query p =
     (let (b, q) = guarded (and_m (match_literal CHR ''?'') match_query) p
      in if b then SetQuery (m_current p + 1) (m_current q - m_current p - 1) q else q)"

definition optional_fragment :: "UriParser \<Rightarrow> UriParser" where
  "optional_fragment p =
     (let (b, q) = guarded (and_m (match_literal CHR ''#'') match_fragment) p
      in if b then SetFragment (m_current p + 1) (m_current q - m_current p - 1) q else q)"

definition match_URI :: matcher where
  "match_URI p =
     (let (b, p1) = guarded (and_m match_scheme_and_colon match_hier_part) p
      in if b then (True, optional_fragment (optional_query p1)) else (False, p1))"

definition match_absoluteURI :: matcher where
  "match_absoluteURI p =
     (let (s, p1) = match_scheme_and_colon p
      in if \<not> s then (False, p1\<lparr>m_current := m_current p\<rparr>)
         else (let (b, p2) = match_hier_part p1
               in if b then (True, optional_query p2) else (False, p2\<lparr>m_current := m_current p\<rparr>)))"

definition match_relative_ref :: matcher where
  "match_relative_ref p =
     (let (b, p1) = guarded match_relative_part p in if b then (True, optional_query p1) else (False, p1))"

definition match_URI_reference :: matcher where
  "match_URI_reference = or_m match_URI match_relative_ref"

text \<open>The host-name matchers, which nothing calls.\<close>

function match_dashes :: "UriParser \<Rightarrow> UriParser" where
  "match_dashes p = (let (b, p1) = match_literal CHR ''-'' p in if b then match_dashes p1 else p1)"
  by pat_completeness auto
termination
proof (relation "measure (\<lambda>p. m_end p - m_current p)", goal_cases)
  case (2 p x b p1)
  then have "\<exists>k>0. m_current p < m_end p \<and> p1 = adv k p" using stepperD(1) [OF stepper_literal, of "CHR ''-''" p p1] by metis
  then show ?case by auto
qed simp

declare match_dashes.simps [simp del]

lemma dashes_frame: "\<exists>k. match_dashes p = adv k p"
proof (induction p rule: match_dashes.induct)
  case (1 p)
  obtain b p1 where s: "match_literal CHR ''-'' p = (b, p1)" by force
  show ?case
  proof (cases b)
    case True
    then obtain j where "p1 = adv j p" using s stepperD(1) [OF stepper_literal, of "CHR ''-''" p p1] by auto
    moreover obtain k where "match_dashes p1 = adv k p1" using "1.IH" s True by metis
    ultimately show ?thesis using s True by (auto simp: match_dashes.simps [of p])
  next
    case False
    then show ?thesis using s stepperD(2) [OF stepper_literal, of "CHR ''-''" p p1]
      by (auto simp: match_dashes.simps [of p] intro: exI [of _ 0])
  qed
qed

function match_label_tail :: "bool \<Rightarrow> UriParser \<Rightarrow> bool \<times> UriParser" where
  "match_label_tail r1 p =
     (let (b, p1) = match_alphanum (match_dashes p) in if b then match_label_tail True p1 else (r1, p1))"
  by pat_completeness auto
termination
proof (relation "measure (\<lambda>(_, p). m_end p - m_current p)", goal_cases)
  case (2 r1 p x b p1)
  obtain j where j: "match_dashes p = adv j p" using dashes_frame by blast
  have "match_byteset bs_alphanum (adv j p) = (True, p1)" using 2 j unfolding match_alphanum_def by metis
  then have "\<exists>k>0. m_current p + j < m_end p \<and> p1 = adv k (adv j p)"
    using stepperD(1) [OF stepper_byteset, of bs_alphanum "adv j p" p1] by simp
  then show ?case by auto
qed simp

definition match_domainlabel :: matcher where
  "match_domainlabel p =
     (let (b, p1) = match_alphanum p
      in if b then (let (r1, p2) = match_label_tail False p1 in (True, if r1 then p2 else p2\<lparr>m_current := m_current p1\<rparr>))
         else (False, p1))"

definition match_toplabel :: matcher where
  "match_toplabel p =
     (let (b, p1) = match_alpha p
      in if b then (let (r1, p2) = match_label_tail False p1 in (True, if r1 then p2 else p2\<lparr>m_current := m_current p1\<rparr>))
         else (False, p1))"

declare match_label_tail.simps [simp del]

lemma label_tail_frame: "\<exists>k. snd (match_label_tail r p) = adv k p"
proof (induction r p rule: match_label_tail.induct)
  case (1 r p)
  obtain i where i: "match_dashes p = adv i p" using dashes_frame by blast
  obtain b p1 where s: "match_byteset bs_alphanum (adv i p) = (b, p1)" by force
  show ?case
  proof (cases b)
    case True
    then obtain j where "p1 = adv j (adv i p)" using s stepperD(1) [OF stepper_byteset, of bs_alphanum "adv i p" p1] by auto
    moreover obtain k where "snd (match_label_tail True p1) = adv k p1"
      using "1.IH" s i True unfolding match_alphanum_def by metis
    ultimately show ?thesis using s i True by (auto simp: match_label_tail.simps [of r p] match_alphanum_def)
  next
    case False
    then show ?thesis using s i stepperD(2) [OF stepper_byteset, of bs_alphanum "adv i p" p1]
      by (auto simp: match_label_tail.simps [of r p] match_alphanum_def)
  qed
qed

lemma domainlabel_step:
  assumes "match_domainlabel p = (b, q)"
  shows "\<exists>k. q = adv k p"
proof -
  obtain c p1 where s: "match_byteset bs_alphanum p = (c, p1)" by force
  obtain r p2 where t: "match_label_tail False p1 = (r, p2)" by force
  obtain k where k: "p2 = adv k p1" using label_tail_frame [of False p1] t by auto
  show ?thesis
  proof (cases c)
    case True
    then obtain j where j: "p1 = adv j p" using s stepperD(1) [OF stepper_byteset, of bs_alphanum p p1] by auto
    have "q = (if r then adv (j + k) p else (adv (j + k) p)\<lparr>m_current := m_current p + j\<rparr>)"
      using assms s t j k True by (auto simp: match_domainlabel_def match_alphanum_def)
    moreover have "(adv (j + k) p)\<lparr>m_current := m_current p + j\<rparr> = adv j p" by (simp add: adv_def)
    ultimately have "q = (if r then adv (j + k) p else adv j p)" by simp
    then show ?thesis by (cases r) auto
  next
    case False
    then show ?thesis using assms s stepperD(2) [OF stepper_byteset, of bs_alphanum p p1]
      by (auto simp: match_domainlabel_def match_alphanum_def intro: exI [of _ 0])
  qed
qed

text \<open>\<open>for (;;) { Result r1(this); r1 = match_domainlabel() && match_literal('.'); if (!r1) break; }\<close>\<close>

function match_domains :: "UriParser \<Rightarrow> UriParser" where
  "match_domains p =
     (let (b, p1) = guarded (and_m match_domainlabel (match_literal CHR ''.'')) p
      in if b then match_domains p1 else p1)"
  by pat_completeness auto
termination
proof (relation "measure (\<lambda>p. m_end p - m_current p)", goal_cases)
  case (2 p x b p1)
  obtain c q where d: "match_domainlabel p = (c, q)" by force
  obtain k where k: "q = adv k p" using domainlabel_step [OF d] by blast
  have "guarded (and_m match_domainlabel (match_literal CHR ''.'')) p = (True, p1)" using 2 by metis
  then have "match_literal CHR ''.'' q = (True, p1)"
    using d by (cases c) (auto simp: guarded_def and_m_def split: prod.splits if_splits)
  then have "\<exists>j>0. m_current q < m_end q \<and> p1 = adv j q"
    by (rule stepperD(1) [OF stepper_literal])
  then show ?case using k by auto
qed simp

definition match_hostname :: matcher where
  "match_hostname =
     guarded (\<lambda>p. let (b, p1) = match_toplabel (match_domains p)
                   in if b then (True, snd (match_literal CHR ''.'' p1)) else (False, p1))"

subsection \<open>Parsing\<close>

definition UriParser_Parse :: "bool \<Rightarrow> u16 \<Rightarrow> string \<Rightarrow> nat \<times> UriParseResultReceiver" where
  "UriParser_Parse gdt lit uri =
     (let q = snd (match_URI_reference
                \<lparr>m_byte_sets = UriParserByteSets_ctor gdt, m_text = uri, m_end = length uri, m_current = 0,
                 m_result = UriParseResultReceiver_ctor, m_empty = lit\<rparr>)
      in (m_current q, m_result q))"

datatype Component = kScheme | kUserInfo | kHost | kPort | kPath | kQuery | kFragment | kComponentCount

fun component_index :: "Component \<Rightarrow> nat" where
  "component_index kScheme = 0"
| "component_index kUserInfo = 1"
| "component_index kHost = 2"
| "component_index kPort = 3"
| "component_index kPath = 4"
| "component_index kQuery = 5"
| "component_index kFragment = 6"
| "component_index kComponentCount = 7"

record Uri =
  uri_str :: string
  comps :: "ComponentView list"
  port_num :: u16

text \<open>\<open>std::string_view::substr\<close> throws when the position is past the end; \<open>GetComponent\<close> is \<open>noexcept\<close>, so
  the process is terminated.\<close>

definition GetComponent :: "Uri \<Rightarrow> Component \<Rightarrow> fault + string" where
  "GetComponent u component =
     (if component = kPort \<or> component = kComponentCount then Inl Assertion
      else
        (let (first, second) = comps u ! component_index component
         in if unat first > length (uri_str u) then Inl Thrown
            else Inr (take (unat second) (drop (unat first) (uri_str u)))))"

definition Uri_scheme :: "Uri \<Rightarrow> fault + string" where "Uri_scheme u = GetComponent u kScheme"

definition Uri_userinfo :: "Uri \<Rightarrow> fault + string" where "Uri_userinfo u = GetComponent u kUserInfo"

definition Uri_host :: "Uri \<Rightarrow> fault + string" where "Uri_host u = GetComponent u kHost"

definition Uri_port :: "Uri \<Rightarrow> u16" where "Uri_port u = port_num u"

definition Uri_path :: "Uri \<Rightarrow> fault + string" where "Uri_path u = GetComponent u kPath"

definition Uri_query :: "Uri \<Rightarrow> fault + string" where "Uri_query u = GetComponent u kQuery"

definition Uri_fragment :: "Uri \<Rightarrow> fault + string" where "Uri_fragment u = GetComponent u kFragment"

definition Uri_ToString :: "Uri \<Rightarrow> string" where "Uri_ToString u = uri_str u"

text \<open>\<open>std::transform\<close> with \<open>::tolower\<close> over the scheme.\<close>

definition lower_range :: "nat \<Rightarrow> nat \<Rightarrow> string \<Rightarrow> string" where
  "lower_range i n s = take i s @ lower (take n (drop i s)) @ drop (i + n) s"

definition TryParse_Uri :: "bool \<Rightarrow> u16 \<Rightarrow> bool \<Rightarrow> string \<Rightarrow> Uri option \<times> bool" where
  "TryParse_Uri gdt lit erange s =
     (if length s > 2 ^ 16 - 1 then (None, erange)
      else
        (let (parsed, r) = UriParser_Parse gdt lit s
         in if parsed \<noteq> length s then (None, erange)
            else
              (let components = [r_scheme r, r_userinfo r, r_host r, r_port r, r_path r, r_query r, r_fragment r];
                   possible_port = take (unat (snd (r_port r))) (drop (unat (fst (r_port r))) s);
                   (port, erange') =
                     (if possible_port \<noteq> [] then TryParse_unsigned 16 erange 10 possible_port else (Some 0, erange))
               in case port of
                    None \<Rightarrow> (None, erange')
                  | Some n \<Rightarrow>
                      (Some \<lparr>uri_str = lower_range (unat (fst (r_scheme r))) (unat (snd (r_scheme r))) s,
                             comps = components, port_num = word_of_int n\<rparr>, erange'))))"

end
