(* ===== verification/Net_Uri_Correct.thy ===== *)
theory Net_Uri_Correct
  imports Net_Uri
begin

section \<open>What the URI parser accepts, and what it returns\<close>

text \<open>
  The matchers are first computed as functions of the text that is left: a loop over a byte set
  advances by the length of the longest prefix in it, where a percent escape counts as one element. With these
  the components of a text that is put together by the grammar of RFC 3986 are found again by the parser, and the
  texts that the grammar allows and the parser refuses are described.
\<close>

subsection \<open>Matchers on the text that is left\<close>

definition rest :: "UriParser \<Rightarrow> string" where
  "rest p = drop (m_current p) (m_text p)"

definition inside :: "UriParser \<Rightarrow> bool" where
  "inside p \<longleftrightarrow>
     m_end p = length (m_text p) \<and> m_current p \<le> m_end p \<and> (\<exists>gdt. m_byte_sets p = UriParserByteSets_ctor gdt)"

lemma rest_adv [simp]: "rest (adv k p) = drop k (rest p)"
  by (simp add: rest_def add.commute)

lemma inside_adv [simp]: "inside p \<Longrightarrow> k \<le> length (rest p) \<Longrightarrow> inside (adv k p)"
  by (auto simp: inside_def rest_def)

lemma rest_Cons: "inside p \<Longrightarrow> rest p = d # r \<Longrightarrow> m_current p < m_end p \<and> m_text p ! m_current p = d"
  unfolding inside_def rest_def by (metis Cons_nth_drop_Suc drop_eq_Nil le_less list.distinct(1) list.sel(1) not_less)

lemma rest_Nil: "inside p \<Longrightarrow> rest p = [] \<Longrightarrow> \<not> m_current p < m_end p"
  by (simp add: inside_def rest_def)

lemma length_rest: "inside p \<Longrightarrow> length (rest p) = m_end p - m_current p"
  by (simp add: inside_def rest_def)

lemma rest_nth: "inside p \<Longrightarrow> i < length (rest p) \<Longrightarrow> rest p ! i = m_text p ! (m_current p + i)"
  by (simp add: inside_def rest_def)

lemma match_literal_rest:
  "inside p \<Longrightarrow> match_literal c p = (case rest p of [] \<Rightarrow> (False, p) | d # _ \<Rightarrow> if d = c then (True, adv 1 p) else (False, p))"
  by (cases "rest p") (auto simp: match_literal_def adv_def dest: rest_Cons rest_Nil)

lemma match_byteset_rest:
  "inside p \<Longrightarrow> match_byteset cs p =
     (case rest p of [] \<Rightarrow> (False, p) | d # _ \<Rightarrow> if has (cs (m_byte_sets p)) d then (True, adv 1 p) else (False, p))"
  by (cases "rest p") (auto simp: match_byteset_def adv_def dest: rest_Cons rest_Nil)

lemma match_literal_string_rest:
  "inside p \<Longrightarrow> match_literal_string l p = (if prefix l (rest p) then (True, adv (length l) p) else (False, p))"
  by (auto simp: match_literal_string_def Let_def adv_def length_rest [symmetric] rest_def [symmetric] take_is_prefix
      dest: prefix_length_le) (metis append_eq_conv_conj prefix_def)+

lemma match_while_rest:
  "inside p \<Longrightarrow> match_while cs p = adv (length (takeWhile (has (cs (m_byte_sets p))) (rest p))) p"
proof (induction "rest p" arbitrary: p)
  case Nil
  then show ?case by (simp add: match_while.simps [of cs p] match_byteset_rest)
next
  case (Cons c s)
  have "inside (adv 1 p)" "rest (adv 1 p) = s" using Cons.prems Cons.hyps(2) by (simp_all flip: Cons.hyps(2))
  then show ?case using Cons.hyps(1) [of "adv 1 p"] Cons.prems
    by (simp add: match_while.simps [of cs p] match_byteset_rest flip: Cons.hyps(2))
qed

text \<open>The length of a percent escape at the front of a text, zero if there is none.\<close>

definition is_hex :: "char \<Rightarrow> bool" where
  "is_hex c \<longleftrightarrow> isxdigit (code c)"

definition pct_len :: "string \<Rightarrow> nat" where
  "pct_len s =
     (if length s > 2 \<and> s ! 0 = CHR 0x25 then
        (if is_hex (s ! 1) \<and> is_hex (s ! 2) then 3
         else if length s > 5 \<and> s ! 1 = CHR ''u'' \<and> is_hex (s ! 2) \<and> is_hex (s ! 3) \<and> is_hex (s ! 4) \<and> is_hex (s ! 5) then 6
         else 0)
      else 0)"

function span_pct :: "(char \<Rightarrow> bool) \<Rightarrow> string \<Rightarrow> nat" where
  "span_pct P [] = 0"
| "span_pct P (c # s) =
     (if P c then Suc (span_pct P s)
      else if pct_len (c # s) = 0 then 0
      else pct_len (c # s) + span_pct P (drop (pct_len (c # s)) (c # s)))"
  by pat_completeness auto
termination by (relation "measure (\<lambda>(_, s). length s)") auto

declare span_pct.simps(2) [simp del]

lemma hex_set: "inside p \<Longrightarrow> has (bs_hex (m_byte_sets p)) c \<longleftrightarrow> is_hex c"
  by (auto simp: inside_def UriParserByteSets_ctor_def Let_def hex_digits_def has_simps is_hex_def)

lemma match_pct_rest:
  assumes "inside p"
  shows "match_pct_encoded p = (if pct_len (rest p) = 0 then (False, p) else (True, adv (pct_len (rest p)) p))"
proof -
  have "rest p ! i = m_text p ! (m_current p + i)" if "i < length (rest p)" for i
    using that assms by (rule rest_nth [rotated])
  then show ?thesis
    using assms by (auto simp: match_pct_encoded_def pct_len_def Let_def adv_def hex_set length_rest)
qed

lemma pct_len_le: "pct_len s \<le> length s"
  by (auto simp: pct_len_def)

lemma match_while_pct_rest:
  fixes cs :: "UriParserByteSets \<Rightarrow> ByteSet"
  assumes "inside p"
  defines "k \<equiv> span_pct (has (cs (m_byte_sets p))) (rest p)"
  shows "snd (match_while_pct cs n p) = adv k p" "n \<le> fst (match_while_pct cs n p)"
    "fst (match_while_pct cs n p) = n \<longleftrightarrow> k = 0" "k \<le> length (rest p)"
proof -
  have "snd (match_while_pct cs n p) = adv (span_pct (has (cs (m_byte_sets p))) (rest p)) p \<and>
      n \<le> fst (match_while_pct cs n p) \<and>
      (fst (match_while_pct cs n p) = n \<longleftrightarrow> span_pct (has (cs (m_byte_sets p))) (rest p) = 0) \<and>
      span_pct (has (cs (m_byte_sets p))) (rest p) \<le> length (rest p)"
    using assms(1)
  proof (induction "length (rest p)" arbitrary: p n rule: less_induct)
    case less
    let ?P = "has (cs (m_byte_sets p))"
    define j where "j = (if rest p = [] then 0 else if ?P (hd (rest p)) then 1 else pct_len (rest p))"
    have j: "or_m (match_byteset cs) match_pct_encoded p = (j \<noteq> 0, adv j p)"
      using less.prems by (cases "rest p") (simp_all add: or_m_def match_byteset_rest match_pct_rest j_def pct_len_def)
    have sp: "span_pct ?P (rest p) = (if j = 0 then 0 else j + span_pct ?P (drop j (rest p)))"
      by (cases "rest p") (simp_all add: j_def span_pct.simps(2))
    have le: "j \<le> length (rest p)" using pct_len_le [of "rest p"] by (cases "rest p") (auto simp: j_def)
    show ?case
    proof (cases "j = 0")
      case True
      then show ?thesis using j sp by (simp add: match_while_pct.simps [of cs n p])
    next
      case False
      have "inside (adv j p)" using less.prems le by (rule inside_adv)
      moreover have "length (rest (adv j p)) < length (rest p)" using False le by auto
      ultimately show ?thesis using less.hyps [of "adv j p" "n + 1"] j sp False le
        by (auto simp: match_while_pct.simps [of cs n p])
    qed
  qed
  then show "snd (match_while_pct cs n p) = adv k p" "n \<le> fst (match_while_pct cs n p)"
    "fst (match_while_pct cs n p) = n \<longleftrightarrow> k = 0" "k \<le> length (rest p)"
    by (simp_all add: k_def)
qed

function span_seg :: "(char \<Rightarrow> bool) \<Rightarrow> string \<Rightarrow> nat" where
  "span_seg P [] = 0"
| "span_seg P (c # s) =
     (if c = CHR ''/'' then Suc (span_pct P s + span_seg P (drop (span_pct P s) s)) else 0)"
  by pat_completeness auto
termination by (relation "measure (\<lambda>(_, s). length s)") auto

declare span_seg.simps(2) [simp del]

lemma match_segments_rest:
  "inside p \<Longrightarrow> match_segments p = adv (span_seg (has (bs_pchar (m_byte_sets p))) (rest p)) p \<and>
     span_seg (has (bs_pchar (m_byte_sets p))) (rest p) \<le> length (rest p)"
proof (induction "length (rest p)" arbitrary: p rule: less_induct)
  case less
  let ?P = "has (bs_pchar (m_byte_sets p))"
  show ?case
  proof (cases "rest p")
    case Nil
    then show ?thesis using less.prems
      by (simp add: match_segments.simps [of p] guarded_def and_m_def match_literal_rest)
  next
    case (Cons c s)
    show ?thesis
    proof (cases "c = CHR ''/''")
      case True
      define k where "k = span_pct ?P s"
      have i1: "inside (adv 1 p)" using less.prems Cons by simp
      then have k: "k \<le> length s" using match_while_pct_rest(4) [of "adv 1 p" bs_pchar] Cons by (simp add: k_def)
      have "guarded (and_m (match_literal CHR ''/'') match_segment) p = (True, adv (Suc k) p)"
        using match_while_pct_rest(1) [OF i1, of bs_pchar 0] less.prems Cons True
        by (simp add: guarded_def and_m_def match_literal_rest match_segment_def k_def)
      then have "match_segments p = match_segments (adv (Suc k) p)" by (subst match_segments.simps) simp
      moreover have "inside (adv (Suc k) p)" using less.prems Cons k by simp
      moreover have "length (rest (adv (Suc k) p)) < length (rest p)" using Cons by simp
      ultimately show ?thesis using less.hyps [of "adv (Suc k) p"] Cons True k
        by (auto simp: span_seg.simps(2) k_def)
    next
      case False
      then show ?thesis using less.prems Cons
        by (simp add: match_segments.simps [of p] guarded_def and_m_def match_literal_rest span_seg.simps(2))
    qed
  qed
qed

text \<open>A path is a sequence of path characters, slashes and percent escapes.\<close>

definition slashed :: "(char \<Rightarrow> bool) \<Rightarrow> char \<Rightarrow> bool" where
  "slashed P c \<longleftrightarrow> P c \<or> c = CHR ''/''"

lemma pct_len_not_percent: "c \<noteq> CHR 0x25 \<Longrightarrow> pct_len (c # s) = 0"
  by (simp add: pct_len_def)

lemma span_pct_step:
  assumes "\<not> P c" and "pct_len (c # r) \<noteq> 0"
  shows "span_pct P (c # r) = pct_len (c # r) + span_pct P (drop (pct_len (c # r)) (c # r))"
  using assms by (simp only: span_pct.simps(2) if_False)

lemma span_pct_slashed:
  assumes slash: "\<not> P CHR ''/''"
  shows "span_pct (slashed P) s = span_pct P s + span_seg P (drop (span_pct P s) s)"
proof (induction "length s" arbitrary: s rule: less_induct)
  case less
  show ?case
  proof (cases s)
    case (Cons c r)
    have IH: "span_pct (slashed P) r = span_pct P r + span_seg P (drop (span_pct P r) r)"
      using less.hyps [of r] Cons by simp
    consider "P c" | "c = CHR ''/''" | "\<not> slashed P c" "pct_len (c # r) = 0" | "\<not> slashed P c" "pct_len (c # r) \<noteq> 0"
      by (auto simp: slashed_def)
    then show ?thesis
    proof cases
      case 1
      then show ?thesis using IH Cons by (simp add: span_pct.simps(2) slashed_def)
    next
      case 2
      then show ?thesis using IH Cons slash
        by (simp add: span_pct.simps(2) span_seg.simps(2) slashed_def pct_len_not_percent)
    next
      case 3
      then show ?thesis using Cons by (simp add: span_pct.simps(2) span_seg.simps(2) slashed_def)
    next
      case 4
      define k where "k = pct_len s"
      have k: "k \<noteq> 0" using 4 Cons by (simp add: k_def)
      then have "span_pct (slashed P) (drop k s) =
          span_pct P (drop k s) + span_seg P (drop (span_pct P (drop k s)) (drop k s))"
        using less.hyps [of "drop k s"] Cons by simp
      moreover have "span_pct (slashed P) s = k + span_pct (slashed P) (drop k s)" "span_pct P s = k + span_pct P (drop k s)"
        using 4 span_pct_step [of "slashed P" c r] span_pct_step [of P c r] unfolding k_def Cons slashed_def by blast+
      ultimately show ?thesis by (simp add: add.commute)
    qed
  qed simp
qed

lemma pct_len_append:
  assumes "pct_len w \<noteq> 0"
  shows "pct_len (w @ t) = pct_len w"
proof -
  have w: "length w > 2" using assms by (cases "length w > 2") (simp_all add: pct_len_def)
  then have n: "(w @ t) ! 0 = w ! 0" "(w @ t) ! 1 = w ! 1" "(w @ t) ! 2 = w ! 2" by (auto simp: nth_append)
  show ?thesis
  proof (cases "length w > 5")
    case True
    then have "(w @ t) ! 3 = w ! 3" "(w @ t) ! 4 = w ! 4" "(w @ t) ! 5 = w ! 5" by (simp_all add: nth_append)
    then show ?thesis using w n True unfolding pct_len_def by simp
  next
    case False
    then have "w ! 0 = CHR 0x25 \<and> is_hex (w ! 1) \<and> is_hex (w ! 2)"
      using assms unfolding pct_len_def by metis
    then show ?thesis using w n unfolding pct_len_def by simp
  qed
qed

lemma span_pct_append: "span_pct P w = length w \<Longrightarrow> span_pct P (w @ t) = length w + span_pct P t"
proof (induction "length w" arbitrary: w rule: less_induct)
  case less
  show ?case
  proof (cases w)
    case (Cons c r)
    show ?thesis
    proof (cases "P c")
      case True
      then show ?thesis using less Cons by (simp add: span_pct.simps(2))
    next
      case False
      define k where "k = pct_len w"
      have k: "k \<noteq> 0" "k + span_pct P (drop k w) = length w" "k \<le> length w"
        using less.prems Cons False pct_len_le [of w] by (auto simp: span_pct.simps(2) k_def split: if_splits)
      then have "span_pct P (drop k w @ t) = length (drop k w) + span_pct P t"
        using less.hyps [of "drop k w"] Cons by simp
      moreover have "pct_len (w @ t) = k" using pct_len_append k(1) by (simp add: k_def)
      moreover have "span_pct P (w @ t) = pct_len (w @ t) + span_pct P (drop (pct_len (w @ t)) (w @ t))"
        using False Cons calculation(2) k(1) by (simp add: span_pct.simps(2))
      ultimately show ?thesis using k by simp
    qed
  qed simp
qed

lemma span_pct_le: "span_pct P s \<le> length s"
proof (induction P s rule: span_pct.induct)
  case (2 P c s)
  then show ?case using pct_len_le [of "c # s"] by (auto simp: span_pct.simps(2))
qed simp

definition stops :: "(char \<Rightarrow> bool) \<Rightarrow> string \<Rightarrow> bool" where
  "stops P t \<longleftrightarrow> (case t of [] \<Rightarrow> True | c # _ \<Rightarrow> \<not> P c \<and> c \<noteq> CHR 0x25)"

lemma span_pct_stops: "stops P t \<Longrightarrow> span_pct P t = 0"
  by (cases t) (simp_all add: stops_def span_pct.simps(2) pct_len_not_percent)

lemma span_pct_exact: "span_pct P w = length w \<Longrightarrow> stops P t \<Longrightarrow> span_pct P (w @ t) = length w"
  by (simp add: span_pct_append span_pct_stops)

subsection \<open>The grammar of RFC 3986\<close>

definition unreserved :: "char \<Rightarrow> bool" where
  "unreserved c \<longleftrightarrow> isalnum (code c) \<or> c \<in> set ''-._~''"

definition sub_delim :: "char \<Rightarrow> bool" where
  "sub_delim c \<longleftrightarrow> c \<in> set (''!$&'' @ [CHR 0x27] @ ''()*+,;='')"

definition scheme_char :: "char \<Rightarrow> bool" where
  "scheme_char c \<longleftrightarrow> isalnum (code c) \<or> c \<in> set ''+-.''"

definition userinfo_char :: "char \<Rightarrow> bool" where
  "userinfo_char c \<longleftrightarrow> unreserved c \<or> c \<in> set '',:&=+$,''"

definition reg_name_char :: "char \<Rightarrow> bool" where
  "reg_name_char c \<longleftrightarrow> unreserved c \<or> sub_delim c"

definition path_char :: "bool \<Rightarrow> char \<Rightarrow> bool" where
  "path_char gdt c \<longleftrightarrow> unreserved c \<or> sub_delim c \<or> c \<in> set '':@'' \<or> gdt \<and> c \<in> set (''|{}[]^'' @ [CHR 0x22])"

definition query_char :: "bool \<Rightarrow> char \<Rightarrow> bool" where
  "query_char gdt c \<longleftrightarrow> path_char gdt c \<or> c \<in> set ''/?''"

definition fragment_char :: "bool \<Rightarrow> char \<Rightarrow> bool" where
  "fragment_char gdt c \<longleftrightarrow> query_char gdt c \<or> c = CHR ''#'' \<and> gdt"

lemma c_str_literals:
  "c_str ''-._~'' = ''-._~''" "c_str ''+-.'' = ''+-.''" "c_str '',:&=+$,'' = '',:&=+$,''"
  "c_str (''!$&'' @ [CHR 0x27] @ ''()*+,;='') = ''!$&'' @ [CHR 0x27] @ ''()*+,;=''" "c_str '':@'' = '':@''"
  "c_str ''/?'' = ''/?''" "c_str (if \<not> gdt then [] else ''#'') = (if gdt then ''#'' else [])"
  "c_str (if \<not> gdt then [] else ''|{}[]^'' @ [CHR 0x22]) = (if gdt then ''|{}[]^'' @ [CHR 0x22] else [])"
  by (simp_all add: c_str_def)

lemma byte_sets_has:
  "has (bs_alpha (UriParserByteSets_ctor gdt)) c \<longleftrightarrow> isalpha (code c)"
  "has (bs_digit (UriParserByteSets_ctor gdt)) c \<longleftrightarrow> isdigit (code c)"
  "has (bs_scheme (UriParserByteSets_ctor gdt)) c \<longleftrightarrow> scheme_char c"
  "has (bs_userinfo (UriParserByteSets_ctor gdt)) c \<longleftrightarrow> userinfo_char c"
  "has (bs_reg_name (UriParserByteSets_ctor gdt)) c \<longleftrightarrow> reg_name_char c"
  "has (bs_unreserved (UriParserByteSets_ctor gdt)) c \<longleftrightarrow> unreserved c"
  "has (bs_sub_delims (UriParserByteSets_ctor gdt)) c \<longleftrightarrow> sub_delim c"
  "has (bs_pchar (UriParserByteSets_ctor gdt)) c \<longleftrightarrow> path_char gdt c"
  "has (bs_query (UriParserByteSets_ctor gdt)) c \<longleftrightarrow> query_char gdt c"
  "has (bs_fragment (UriParserByteSets_ctor gdt)) c \<longleftrightarrow> fragment_char gdt c"
  by (simp_all only: UriParserByteSets_ctor_def Let_def UriParserByteSets.select_convs has_simps alphas_def digits_def
      alpha_nums_def scheme_char_def userinfo_char_def unreserved_def reg_name_char_def sub_delim_def path_char_def
      query_char_def fragment_char_def c_str_literals, simp_all)

text \<open>The characters that end a component are in none of the sets before them.\<close>

lemma delimiters:
  "\<not> scheme_char CHR '':''" "\<not> isalpha (code CHR ''/'')"
  "\<not> userinfo_char CHR ''@''" "\<not> userinfo_char CHR ''/''" "\<not> userinfo_char CHR ''?''" "\<not> userinfo_char CHR ''#''"
  "\<not> reg_name_char CHR '':''" "\<not> reg_name_char CHR ''/''" "\<not> reg_name_char CHR ''?''" "\<not> reg_name_char CHR ''#''"
  "\<not> reg_name_char CHR ''@''"
  "\<not> path_char gdt CHR ''/''" "\<not> path_char gdt CHR ''?''" "\<not> path_char gdt CHR ''#''" "\<not> query_char gdt CHR ''#''"
  by (simp_all add: scheme_char_def userinfo_char_def unreserved_def reg_name_char_def sub_delim_def path_char_def
      query_char_def isalnum_def isalpha_def isupper_def islower_def isdigit_def)

definition pct_text :: "(char \<Rightarrow> bool) \<Rightarrow> string \<Rightarrow> bool" where
  "pct_text P w \<longleftrightarrow> span_pct P w = length w"

subsection \<open>Components\<close>

lemma Set_simps [simp]:
  "rest (SetScheme a b p) = rest p" "rest (SetUserInfo a b p) = rest p" "rest (SetHost a b p) = rest p"
  "rest (SetPort a b p) = rest p" "rest (SetPath a b p) = rest p" "rest (SetQuery a b p) = rest p"
  "rest (SetFragment a b p) = rest p"
  "inside (SetScheme a b p) = inside p" "inside (SetUserInfo a b p) = inside p" "inside (SetHost a b p) = inside p"
  "inside (SetPort a b p) = inside p" "inside (SetPath a b p) = inside p" "inside (SetQuery a b p) = inside p"
  "inside (SetFragment a b p) = inside p"
  "m_current (SetScheme a b p) = m_current p" "m_current (SetUserInfo a b p) = m_current p"
  "m_current (SetHost a b p) = m_current p" "m_current (SetPort a b p) = m_current p"
  "m_current (SetPath a b p) = m_current p" "m_current (SetQuery a b p) = m_current p"
  "m_current (SetFragment a b p) = m_current p"
  "m_byte_sets (SetScheme a b p) = m_byte_sets p" "m_byte_sets (SetUserInfo a b p) = m_byte_sets p"
  "m_byte_sets (SetHost a b p) = m_byte_sets p" "m_byte_sets (SetPort a b p) = m_byte_sets p"
  "m_byte_sets (SetPath a b p) = m_byte_sets p" "m_byte_sets (SetQuery a b p) = m_byte_sets p"
  "m_byte_sets (SetFragment a b p) = m_byte_sets p"
  by (simp_all add: SetScheme_def SetUserInfo_def SetHost_def SetPort_def SetPath_def SetQuery_def SetFragment_def
      rest_def inside_def)

lemma result_simps:
  "m_result (SetScheme a b p) = (m_result p)\<lparr>r_scheme := view a b\<rparr>"
  "m_result (SetUserInfo a b p) = (m_result p)\<lparr>r_userinfo := view a b\<rparr>"
  "m_result (SetHost a b p) = (m_result p)\<lparr>r_host := view a b\<rparr>"
  "m_result (SetPort a b p) = (m_result p)\<lparr>r_port := view a b\<rparr>"
  "m_result (SetPath a b p) = (m_result p)\<lparr>r_path := view a b\<rparr>"
  "m_result (SetQuery a b p) = (m_result p)\<lparr>r_query := view a b\<rparr>"
  "m_result (SetFragment a b p) = (m_result p)\<lparr>r_fragment := view a b\<rparr>"
  by (simp_all add: SetScheme_def SetUserInfo_def SetHost_def SetPort_def SetPath_def SetQuery_def SetFragment_def)

definition at_text :: "bool \<Rightarrow> UriParser \<Rightarrow> string \<Rightarrow> bool" where
  "at_text gdt p s \<longleftrightarrow> inside p \<and> m_byte_sets p = UriParserByteSets_ctor gdt \<and> rest p = s"

lemma at_text_adv: "at_text gdt p (w @ t) \<Longrightarrow> at_text gdt (adv (length w) p) t"
  by (simp add: at_text_def)

lemma at_text_drop: "at_text gdt p s \<Longrightarrow> k \<le> length s \<Longrightarrow> at_text gdt (adv k p) (drop k s)"
  using at_text_adv [of gdt p "take k s" "drop k s"] by simp

lemma at_text_adv1: "at_text gdt p (c # t) \<Longrightarrow> at_text gdt (adv 1 p) t"
  by (simp add: at_text_def)

lemma at_text_Set [simp]:
  "at_text gdt (SetScheme a b p) s = at_text gdt p s" "at_text gdt (SetUserInfo a b p) s = at_text gdt p s"
  "at_text gdt (SetHost a b p) s = at_text gdt p s" "at_text gdt (SetPort a b p) s = at_text gdt p s"
  "at_text gdt (SetPath a b p) s = at_text gdt p s" "at_text gdt (SetQuery a b p) s = at_text gdt p s"
  "at_text gdt (SetFragment a b p) s = at_text gdt p s"
  by (simp_all add: at_text_def)

lemma has_eta:
  "has (bs_alpha (UriParserByteSets_ctor gdt)) = (\<lambda>c. isalpha (code c))"
  "has (bs_digit (UriParserByteSets_ctor gdt)) = (\<lambda>c. isdigit (code c))"
  "has (bs_scheme (UriParserByteSets_ctor gdt)) = scheme_char"
  "has (bs_userinfo (UriParserByteSets_ctor gdt)) = userinfo_char"
  "has (bs_reg_name (UriParserByteSets_ctor gdt)) = reg_name_char"
  "has (bs_pchar (UriParserByteSets_ctor gdt)) = path_char gdt"
  "has (bs_query (UriParserByteSets_ctor gdt)) = query_char gdt"
  "has (bs_fragment (UriParserByteSets_ctor gdt)) = fragment_char gdt"
  by (simp_all only: byte_sets_has fun_eq_iff) simp_all

lemma literal_at:
  "at_text gdt p (c # t) \<Longrightarrow> match_literal d p = (if c = d then (True, adv 1 p) else (False, p))"
  "at_text gdt p [] \<Longrightarrow> match_literal d p = (False, p)"
  by (simp_all add: at_text_def match_literal_rest)

lemma while_at:
  assumes "at_text gdt p s"
  shows "match_while bs_digit p = adv (length (takeWhile (\<lambda>c. isdigit (code c)) s)) p"
    and "match_while bs_scheme p = adv (length (takeWhile scheme_char s)) p"
  using assms by (simp_all add: at_text_def match_while_rest has_eta)

lemma scheme_at:
  assumes p: "at_text gdt p (sch @ CHR '':'' # t)" and sch: "sch \<noteq> []" "isalpha (code (hd sch))" "list_all scheme_char sch"
  shows "match_scheme_and_colon p = (True, SetScheme (m_current p) (length sch) (adv (length sch + 1) p))"
proof -
  obtain c r where s: "sch = c # r" using sch(1) by (cases sch) auto
  have a: "match_alpha p = (True, adv 1 p)"
    using p sch(2) s by (simp add: at_text_def match_alpha_def match_byteset_rest byte_sets_has)
  have p1: "at_text gdt (adv 1 p) (r @ CHR '':'' # t)" using p s by (simp add: at_text_def)
  have "takeWhile scheme_char (r @ CHR '':'' # t) = r"
    using sch(3) s by (simp add: takeWhile_append list_all_iff delimiters)
  then have w: "match_while bs_scheme (adv 1 p) = adv (length sch) p"
    using while_at(2) [OF p1] s by simp
  have "at_text gdt (adv (length sch) p) (CHR '':'' # t)" using at_text_adv [OF p] .
  then have "match_literal CHR '':'' (adv (length sch) p) = (True, adv (length sch + 1) p)"
    by (simp add: literal_at)
  then show ?thesis using a w by (simp add: match_scheme_and_colon_def guarded_def)
qed

text \<open>Digits and dots: the length of an IPv4 address at the front of a text.\<close>

abbreviation dig :: "char \<Rightarrow> bool" where
  "dig c \<equiv> isdigit (code c)"

fun dotted :: "nat \<Rightarrow> string \<Rightarrow> nat option" where
  "dotted 0 s = (if takeWhile dig s = [] then None else Some (length (takeWhile dig s)))"
| "dotted (Suc n) s =
     (if takeWhile dig s = [] then None
      else case dropWhile dig s of
             c # t \<Rightarrow> if c = CHR ''.'' then map_option ((+) (length (takeWhile dig s) + 1)) (dotted n t) else None
           | [] \<Rightarrow> None)"

lemma dotted_append:
  assumes "t = [] \<or> \<not> dig (hd t) \<and> hd t \<noteq> CHR ''.''"
  shows "dotted n (h @ t) = dotted n h"
proof (induction n arbitrary: h)
  case 0
  have "takeWhile dig (h @ t) = takeWhile dig h"
    using assms by (cases t) (auto simp: takeWhile_append takeWhile_eq_all_conv [THEN iffD2])
  then show ?case by simp
next
  case (Suc n)
  have t: "takeWhile dig (h @ t) = takeWhile dig h" "dropWhile dig (h @ t) = dropWhile dig h @ t"
    using assms by (cases t; auto simp: takeWhile_append dropWhile_append takeWhile_eq_all_conv [THEN iffD2])+
  show ?case
  proof (cases "dropWhile dig h")
    case Nil
    show ?thesis unfolding dotted.simps t Nil using assms by (cases t) simp_all
  next
    case (Cons c r)
    show ?thesis unfolding dotted.simps t Cons by (simp add: Suc)
  qed
qed

lemma adv_back: "(adv j p)\<lparr>m_current := m_current p\<rparr> = p"
  by (simp add: adv_def)

lemma digit_at:
  assumes "at_text gdt p s"
  shows "match_digit p = (if takeWhile dig s = [] then (False, p) else (True, adv 1 p))"
    and "takeWhile dig s \<noteq> [] \<Longrightarrow> match_while bs_digit (adv 1 p) = adv (length (takeWhile dig s)) p"
proof -
  show "match_digit p = (if takeWhile dig s = [] then (False, p) else (True, adv 1 p))"
    using assms by (cases s) (simp_all add: at_text_def match_digit_def match_byteset_rest byte_sets_has)
  assume "takeWhile dig s \<noteq> []"
  then obtain c r where s: "s = c # r" "dig c" by (cases s) (auto split: if_splits)
  then have "at_text gdt (adv 1 p) r" using assms at_text_adv1 by blast
  then show "match_while bs_digit (adv 1 p) = adv (length (takeWhile dig s)) p"
    using s by (simp add: while_at(1))
qed

lemma fields_no_digit:
  "at_text gdt p s \<Longrightarrow> takeWhile dig s = [] \<Longrightarrow> match_IPv4_fields n p = (True, p)"
  by (induction n) (simp_all add: digit_at(1))

definition IPv4_body :: "nat \<Rightarrow> matcher" where
  "IPv4_body n p =
     (let (ok, p1) = match_IPv4_fields n p
      in if \<not> ok then (False, p1)
         else (let (d, p2) = match_digit p1 in if d then (True, match_while bs_digit p2) else (False, p2)))"

lemma IPv4_body_at:
  "at_text gdt p s \<Longrightarrow> \<exists>j. IPv4_body n p = (dotted n s \<noteq> None, adv j p) \<and> (\<forall>k. dotted n s = Some k \<longrightarrow> j = k)"
proof (induction n arbitrary: p s)
  case 0
  then show ?case
    using digit_at [OF 0] by (cases "takeWhile dig s = []") (auto simp: IPv4_body_def intro: exI [of _ 0])
next
  case (Suc n)
  show ?case
  proof (cases "takeWhile dig s = []")
    case True
    then show ?thesis using Suc.prems
      by (auto simp: IPv4_body_def fields_no_digit digit_at(1) intro: exI [of _ 0])
  next
    case False
    define k where "k = length (takeWhile dig s)"
    have s: "s = takeWhile dig s @ dropWhile dig s" by simp
    then have pk: "at_text gdt (adv k p) (dropWhile dig s)"
      using at_text_adv [of gdt p "takeWhile dig s" "dropWhile dig s"] Suc.prems by (simp add: k_def)
    have w: "match_while bs_digit (adv 1 p) = adv k p" using digit_at(2) [OF Suc.prems False] by (simp add: k_def)
    show ?thesis
    proof (cases "\<exists>t. dropWhile dig s = CHR ''.'' # t")
      case True
      then obtain t where t: "dropWhile dig s = CHR ''.'' # t" by blast
      have q: "at_text gdt (adv (k + 1) p) t" using pk t at_text_adv1 by fastforce
      have "IPv4_body (Suc n) p = IPv4_body n (adv (k + 1) p)"
        using digit_at(1) [OF Suc.prems] False w literal_at(1) [of gdt "adv k p" "CHR ''.''" t "CHR ''.''"] pk t
        by (simp add: IPv4_body_def)
      then show ?thesis using Suc.IH [OF q] t False by (auto simp: k_def)
    next
      case nodot: False
      then have "match_literal CHR ''.'' (adv k p) = (False, adv k p)"
        using pk literal_at by (cases "dropWhile dig s") auto
      then have "IPv4_body (Suc n) p = (False, adv k p)"
        using digit_at(1) [OF Suc.prems] False w by (simp add: IPv4_body_def)
      moreover have "dotted (Suc n) s = None" using nodot by (auto split: list.split)
      ultimately show ?thesis by auto
    qed
  qed
qed

lemma IPv4_at:
  assumes "at_text gdt p s"
  shows "match_IPv4address p = (case dotted 3 s of None \<Rightarrow> (False, p) | Some k \<Rightarrow> (True, adv k p))"
proof -
  obtain j where "IPv4_body 3 p = (dotted 3 s \<noteq> None, adv j p)" "\<And>k. dotted 3 s = Some k \<Longrightarrow> j = k"
    using IPv4_body_at [OF assms, of 3] by blast
  then show ?thesis
    unfolding match_IPv4address_def guarded_def IPv4_body_def [symmetric]
    by (cases "dotted 3 s") (simp_all add: adv_back)
qed

definition begins :: "string \<Rightarrow> string \<Rightarrow> bool" where
  "begins cs t \<longleftrightarrow> t = [] \<or> hd t \<in> set cs"

lemma pct_at:
  assumes "at_text gdt p (w @ t)" and "span_pct (has (cs (UriParserByteSets_ctor gdt))) (w @ t) = length w"
  shows "snd (match_while_pct cs 0 p) = adv (length w) p" "fst (match_while_pct cs 0 p) > 0 \<longleftrightarrow> w \<noteq> []"
  using match_while_pct_rest(1-3) [where p = p and cs = cs and n = 0] assms by (auto simp: at_text_def)

lemma begins_stops: "begins cs t \<Longrightarrow> (\<And>c. c \<in> set cs \<Longrightarrow> \<not> P c \<and> c \<noteq> CHR 0x25) \<Longrightarrow> stops P t"
  by (cases t) (auto simp: begins_def stops_def)

definition host_ok :: "string \<Rightarrow> bool" where
  "host_ok h \<longleftrightarrow> h \<noteq> [] \<and> pct_text reg_name_char h \<and> (dotted 3 h = None \<or> dotted 3 h = Some (length h))"

lemma host_at:
  assumes p: "at_text gdt p (h @ t)" and h: "host_ok h" and t: "begins '':/?#'' t"
  shows "match_host p = (True, SetHost (m_current p) (length h) (adv (length h) p))"
proof -
  have "t = [] \<or> \<not> dig (hd t) \<and> hd t \<noteq> CHR ''.''" using t by (auto simp: begins_def isdigit_def)
  then have d: "dotted 3 (h @ t) = dotted 3 h" by (rule dotted_append)
  have "stops reg_name_char t" by (rule begins_stops [OF t]) (auto simp: delimiters)
  then have "span_pct reg_name_char (h @ t) = length h" using h by (simp add: host_ok_def pct_text_def span_pct_exact)
  then have "match_reg_name p = (True, adv (length h) p)"
    using pct_at [OF p, of bs_reg_name] h
    by (auto simp: match_reg_name_def guarded_def has_eta host_ok_def split: prod.split)
  then have "or_m (or_m match_IPv4address match_IP_literal) match_reg_name p = (True, adv (length h) p)"
    using IPv4_at [OF p] d h by (auto simp: or_m_def match_IP_literal_def host_ok_def)
  then show ?thesis by (simp add: match_host_def)
qed

text \<open>The characters a scan over a byte set consumes.\<close>

lemma pct_len_chars: "set (take (pct_len s) s) \<subseteq> {c. c = CHR 0x25 \<or> is_hex c \<or> c = CHR ''u''}"
proof (cases "pct_len s = 0")
  case False
  have tk: "take n s = map ((!) s) [0..<n]" if "n \<le> length s" for n
    using that by (intro nth_equalityI) simp_all
  have "length s > 2" using False by (cases "length s > 2") (simp_all add: pct_len_def)
  then have three: "take 3 s = [s ! 0, s ! 1, s ! 2]"
    by (simp add: tk upt_rec numeral_2_eq_2)
  have six: "take 6 s = [s ! 0, s ! 1, s ! 2, s ! 3, s ! 4, s ! 5]" if "length s > 5"
    using that by (simp add: tk upt_rec eval_nat_numeral)
  show ?thesis
  proof (cases "is_hex (s ! 1) \<and> is_hex (s ! 2)")
    case True
    then have "pct_len s = 3 \<and> s ! 0 = CHR 0x25" using False unfolding pct_len_def by metis
    then show ?thesis using True three by auto
  next
    case nothex: False
    then have "pct_len s = 6 \<and> length s > 5 \<and> s ! 0 = CHR 0x25 \<and> s ! 1 = CHR ''u'' \<and> is_hex (s ! 2) \<and> is_hex (s ! 3) \<and>
        is_hex (s ! 4) \<and> is_hex (s ! 5)"
      using False unfolding pct_len_def by metis
    then show ?thesis using six by auto
  qed
qed simp

lemma span_pct_chars: "set (take (span_pct P s) s) \<subseteq> {c. P c \<or> c = CHR 0x25 \<or> is_hex c \<or> c = CHR ''u''}"
proof (induction "length s" arbitrary: s rule: less_induct)
  case less
  show ?case
  proof (cases s)
    case (Cons c r)
    consider "P c" | "\<not> P c" "pct_len s = 0" | "\<not> P c" "pct_len s \<noteq> 0" by blast
    then show ?thesis
    proof cases
      case 1
      then show ?thesis using less [of r] Cons by (auto simp: span_pct.simps(2))
    next
      case 2
      then show ?thesis using Cons by (simp add: span_pct.simps(2))
    next
      case 3
      define k where "k = pct_len s"
      have "span_pct P s = k + span_pct P (drop k s)" using 3 Cons span_pct_step [of P c r] by (simp add: k_def)
      then have "set (take (span_pct P s) s) = set (take k s) \<union> set (take (span_pct P (drop k s)) (drop k s))"
        by (simp add: take_add)
      moreover have "length (drop k s) < length s" using 3 Cons by (simp add: k_def)
      ultimately show ?thesis using less [of "drop k s"] pct_len_chars [of s] unfolding k_def by blast
    qed
  qed simp
qed

definition userinfo_stage :: "UriParser \<Rightarrow> UriParser" where
  "userinfo_stage p =
     (if maybe_contains_userinfo p then
        (let (b, q) = guarded (and_m match_userinfo (match_literal CHR ''@'')) p
         in if b then SetUserInfo (m_current p) (m_current q - m_current p - 1) q else q)
      else p)"

lemma match_userinfo_rest:
  "at_text gdt p s \<Longrightarrow> match_userinfo p = (True, adv (span_pct userinfo_char s) p)"
  using match_while_pct_rest(1) [where p = p and cs = bs_userinfo and n = 0]
  by (simp add: at_text_def match_userinfo_def has_eta)

lemma userinfo_not_delim:
  "set (take (span_pct userinfo_char s) s) \<inter> set ''@/?#'' = {}"
  using span_pct_chars [of userinfo_char s]
  by (auto simp: delimiters is_hex_def isxdigit_def isdigit_def)

lemma userinfo_stage_None:
  assumes p: "at_text gdt p (a @ t)" and a: "CHR ''@'' \<notin> set a" and t: "begins ''/?#'' t"
  shows "userinfo_stage p = p"
proof -
  define k where "k = span_pct userinfo_char (a @ t)"
  have d: "set (take k (a @ t)) \<inter> set ''@/?#'' = {}" unfolding k_def by (rule userinfo_not_delim)
  have "k \<le> length a \<or> t = []"
  proof (rule ccontr)
    assume "\<not> (k \<le> length a \<or> t = [])"
    then have "hd t \<in> set (take k (a @ t))" by (cases t) (auto simp: take_Cons' split: if_splits)
    then show False using d t \<open>\<not> (k \<le> length a \<or> t = [])\<close> by (auto simp: begins_def)
  qed
  then have "drop k (a @ t) = [] \<or> hd (drop k (a @ t)) \<noteq> CHR ''@''"
  proof
    assume "k \<le> length a"
    then show ?thesis
    proof (cases "k = length a")
      case False
      then have "drop k (a @ t) = a ! k # drop (Suc k) a @ t" "a ! k \<in> set a"
        using \<open>k \<le> length a\<close> by (simp_all add: Cons_nth_drop_Suc)
      then show ?thesis using a by auto
    qed (use t in \<open>auto simp: begins_def\<close>)
  next
    assume "t = []"
    then show ?thesis using a by (metis append_Nil2 hd_in_set in_set_dropD)
  qed
  moreover have "at_text gdt (adv k p) (drop k (a @ t))"
    using p match_while_pct_rest(4) [where p = p and cs = bs_userinfo] by (simp add: at_text_def has_eta k_def)
  ultimately have "match_literal CHR ''@'' (adv k p) = (False, adv k p)"
    using literal_at by (cases "drop k (a @ t)") auto
  then show ?thesis
    using match_userinfo_rest [OF p] by (simp add: userinfo_stage_def guarded_def and_m_def k_def adv_back)
qed

lemma contains_userinfo_append: "CHR ''/'' \<notin> set w \<Longrightarrow> contains_userinfo (w @ CHR ''@'' # r)"
  by (induction w) auto

lemma userinfo_stage_Some:
  assumes p: "at_text gdt p (w @ CHR ''@'' # r)" and w: "pct_text userinfo_char w"
  shows "userinfo_stage p = SetUserInfo (m_current p) (length w) (adv (length w + 1) p)"
proof -
  have k: "span_pct userinfo_char (w @ CHR ''@'' # r) = length w"
    using w by (intro span_pct_exact) (simp_all add: pct_text_def stops_def delimiters)
  have "CHR ''/'' \<notin> set w" using userinfo_not_delim [of w] w by (auto simp: pct_text_def)
  then have "maybe_contains_userinfo p"
    using p contains_userinfo_append by (simp add: maybe_contains_userinfo_def at_text_def inside_def rest_def)
  moreover have "match_literal CHR ''@'' (adv (length w) p) = (True, adv (length w + 1) p)"
    using literal_at(1) [OF at_text_adv [OF p]] by simp
  ultimately show ?thesis
    using match_userinfo_rest [OF p] k by (simp add: userinfo_stage_def guarded_def and_m_def)
qed

lemma match_authority_eq:
  "match_authority p =
     (let (h, p2) = match_host (userinfo_stage p)
      in if \<not> h then (False, p2)
         else
           (let (b, p3) = guarded (and_m (match_literal CHR '':'') match_port) p2
            in (True, if b then SetPort (m_current p2 + 1) (m_current p3 - m_current p2 - 1) p3 else p3)))"
  unfolding match_authority_def userinfo_stage_def Let_def by simp

definition opt :: "char \<Rightarrow> string option \<Rightarrow> string" where
  "opt c w = (case w of None \<Rightarrow> [] | Some v \<Rightarrow> c # v)"

lemma opt_simps [simp]: "opt c None = []" "opt c (Some v) = c # v"
  by (simp_all add: opt_def)

lemma port_at:
  assumes p: "at_text gdt p (opt CHR '':'' pt @ t)" and d: "\<And>d. pt = Some d \<Longrightarrow> list_all dig d" and t: "begins ''/?#'' t"
  shows "guarded (and_m (match_literal CHR '':'') match_port) p =
           (case pt of None \<Rightarrow> (False, p) | Some d \<Rightarrow> (True, adv (length d + 1) p))"
proof (cases pt)
  case None
  then have "match_literal CHR '':'' p = (False, p)"
    using p t literal_at by (cases t) (auto simp: begins_def)
  then show ?thesis using None adv_back [of p 0] by (simp add: guarded_def and_m_def)
next
  case (Some w)
  have p1: "at_text gdt (adv 1 p) (w @ t)" using p Some at_text_adv1 by simp
  have "takeWhile dig (w @ t) = w"
    using d [OF Some] t by (cases t) (auto simp: takeWhile_append list_all_iff begins_def isdigit_def takeWhile_eq_all_conv [THEN iffD2])
  then have "match_while bs_digit (adv 1 p) = adv (length w + 1) p" using while_at(1) [OF p1] by simp
  moreover have "match_literal CHR '':'' p = (True, adv 1 p)" using p Some literal_at(1) by simp
  ultimately show ?thesis using Some by (simp add: guarded_def and_m_def match_port_def)
qed

definition path_ok :: "bool \<Rightarrow> string \<Rightarrow> bool" where
  "path_ok gdt path \<longleftrightarrow> begins ''/'' path \<and> pct_text (slashed (path_char gdt)) path"

lemma span_seg_path:
  assumes "path_ok gdt path" and "begins ''?#'' t"
  shows "span_seg (path_char gdt) (path @ t) = length path"
proof (cases path)
  case Nil
  then show ?thesis using assms(2) by (cases t) (auto simp: begins_def span_seg.simps(2))
next
  case (Cons c r)
  then have "c = CHR ''/''" using assms(1) by (simp add: path_ok_def begins_def)
  then have "span_pct (path_char gdt) (path @ t) = 0"
    using Cons by (simp add: span_pct_stops stops_def delimiters)
  moreover have "stops (slashed (path_char gdt)) t"
    by (rule begins_stops [OF assms(2)]) (auto simp: slashed_def delimiters)
  then have "span_pct (slashed (path_char gdt)) (path @ t) = length path"
    using assms(1) by (intro span_pct_exact) (simp_all add: path_ok_def pct_text_def)
  ultimately show ?thesis using span_pct_slashed [of "path_char gdt" "path @ t"] by (simp add: delimiters)
qed

lemma segments_at:
  "at_text gdt p s \<Longrightarrow> match_segments p = adv (span_seg (path_char gdt) s) p"
  using match_segments_rest [of p] by (simp add: at_text_def has_eta)

lemma abempty_at:
  assumes "at_text gdt p (path @ t)" and "path_ok gdt path" and "begins ''?#'' t"
  shows "match_path_abempty p = (True, SetPath (m_current p) (length path) (adv (length path) p))"
  using assms by (simp add: match_path_abempty_def segments_at [OF assms(1)] span_seg_path)

lemma query_at:
  assumes p: "at_text gdt p (opt CHR ''?'' q @ t)" and q: "\<And>w. q = Some w \<Longrightarrow> pct_text (query_char gdt) w"
    and t: "begins ''#'' t"
  shows "optional_query p =
           (case q of None \<Rightarrow> p | Some w \<Rightarrow> SetQuery (m_current p + 1) (length w) (adv (length w + 1) p))"
proof (cases q)
  case None
  then have "match_literal CHR ''?'' p = (False, p)"
    using p t literal_at by (cases t) (auto simp: begins_def)
  then show ?thesis using None adv_back [of p 0] by (simp add: optional_query_def guarded_def and_m_def)
next
  case (Some w)
  have p1: "at_text gdt (adv 1 p) (w @ t)" using p Some at_text_adv1 by simp
  have "stops (query_char gdt) t" by (rule begins_stops [OF t]) (auto simp: delimiters)
  then have "span_pct (query_char gdt) (w @ t) = length w" using q [OF Some] by (simp add: pct_text_def span_pct_exact)
  then have "match_query (adv 1 p) = (True, adv (length w + 1) p)"
    using pct_at(1) [OF p1, of bs_query] by (simp add: match_query_def has_eta)
  moreover have "match_literal CHR ''?'' p = (True, adv 1 p)" using p Some literal_at(1) by simp
  ultimately show ?thesis using Some by (simp add: optional_query_def guarded_def and_m_def)
qed

lemma fragment_at:
  assumes p: "at_text gdt p (opt CHR ''#'' f)" and f: "\<And>w. f = Some w \<Longrightarrow> pct_text (fragment_char gdt) w"
  shows "optional_fragment p =
           (case f of None \<Rightarrow> p | Some w \<Rightarrow> SetFragment (m_current p + 1) (length w) (adv (length w + 1) p))"
proof (cases f)
  case None
  then have "match_literal CHR ''#'' p = (False, p)" using p literal_at(2) by simp
  then show ?thesis using None adv_back [of p 0] by (simp add: optional_fragment_def guarded_def and_m_def)
next
  case (Some w)
  have p1: "at_text gdt (adv 1 p) (w @ [])" using p Some at_text_adv1 by simp
  have "match_fragment (adv 1 p) = (True, adv (length w + 1) p)"
    using pct_at(1) [OF p1, of bs_fragment] f [OF Some] by (simp add: match_fragment_def has_eta pct_text_def)
  moreover have "match_literal CHR ''#'' p = (True, adv 1 p)" using p Some literal_at(1) by simp
  ultimately show ?thesis using Some by (simp add: optional_fragment_def guarded_def and_m_def)
qed

subsection \<open>Absolute references with an authority\<close>

record uri_parts =
  up_scheme :: string
  up_userinfo :: "string option"
  up_host :: string
  up_port :: "string option"
  up_path :: string
  up_query :: "string option"
  up_fragment :: "string option"

definition userinfo_text :: "uri_parts \<Rightarrow> string" where
  "userinfo_text x = (case up_userinfo x of None \<Rightarrow> [] | Some w \<Rightarrow> w @ ''@'')"

definition authority_text :: "uri_parts \<Rightarrow> string" where
  "authority_text x = userinfo_text x @ up_host x @ opt CHR '':'' (up_port x)"

definition tail_text :: "uri_parts \<Rightarrow> string" where
  "tail_text x = opt CHR ''?'' (up_query x) @ opt CHR ''#'' (up_fragment x)"

text \<open>The text of the parts, with the scheme spelled \<open>sch\<close>.\<close>

definition uri_text :: "string \<Rightarrow> uri_parts \<Rightarrow> string" where
  "uri_text sch x = sch @ ''://'' @ authority_text x @ up_path x @ tail_text x"

definition uri_valid :: "bool \<Rightarrow> uri_parts \<Rightarrow> bool" where
  "uri_valid gdt x \<longleftrightarrow>
     up_scheme x \<noteq> [] \<and> isalpha (code (hd (up_scheme x))) \<and> list_all scheme_char (up_scheme x) \<and>
     (case up_userinfo x of None \<Rightarrow> True | Some w \<Rightarrow> pct_text userinfo_char w) \<and>
     host_ok (up_host x) \<and>
     (case up_port x of None \<Rightarrow> True | Some d \<Rightarrow> list_all dig d \<and> length d \<le> 128 \<and> digits_val 10 d < 2 ^ 16) \<and>
     path_ok gdt (up_path x) \<and>
     (case up_query x of None \<Rightarrow> True | Some w \<Rightarrow> pct_text (query_char gdt) w) \<and>
     (case up_fragment x of None \<Rightarrow> True | Some w \<Rightarrow> pct_text (fragment_char gdt) w) \<and>
     length (uri_text (up_scheme x) x) < 2 ^ 16"

lemma tail_begins: "begins ''?#'' (tail_text x)" "begins ''#'' (opt CHR ''#'' (up_fragment x))"
  by (simp_all add: begins_def tail_text_def opt_def split: option.split)

lemma path_begins: "path_ok gdt (up_path x) \<Longrightarrow> begins ''/?#'' (up_path x @ tail_text x)"
  using tail_begins(1) [of x] by (cases "up_path x") (auto simp: path_ok_def begins_def)

definition put_userinfo :: "nat \<Rightarrow> uri_parts \<Rightarrow> UriParser \<Rightarrow> UriParser" where
  "put_userinfo i x p = (case up_userinfo x of None \<Rightarrow> p | Some w \<Rightarrow> SetUserInfo i (length w) p)"

definition put_port :: "nat \<Rightarrow> uri_parts \<Rightarrow> UriParser \<Rightarrow> UriParser" where
  "put_port i x p = (case up_port x of None \<Rightarrow> p | Some w \<Rightarrow> SetPort (i + 1) (length w) p)"

definition put_query :: "nat \<Rightarrow> uri_parts \<Rightarrow> UriParser \<Rightarrow> UriParser" where
  "put_query i x p = (case up_query x of None \<Rightarrow> p | Some w \<Rightarrow> SetQuery (i + 1) (length w) p)"

definition put_fragment :: "nat \<Rightarrow> uri_parts \<Rightarrow> UriParser \<Rightarrow> UriParser" where
  "put_fragment i x p = (case up_fragment x of None \<Rightarrow> p | Some w \<Rightarrow> SetFragment (i + 1) (length w) p)"

lemma put_simps [simp]:
  "at_text gdt (put_userinfo i x p) s = at_text gdt p s" "m_current (put_userinfo i x p) = m_current p"
  "at_text gdt (put_port i x p) s = at_text gdt p s" "m_current (put_port i x p) = m_current p"
  "at_text gdt (put_query i x p) s = at_text gdt p s" "m_current (put_query i x p) = m_current p"
  "at_text gdt (put_fragment i x p) s = at_text gdt p s" "m_current (put_fragment i x p) = m_current p"
  by (simp_all add: put_userinfo_def put_port_def put_query_def put_fragment_def split: option.split)

lemma adv_Set [simp]:
  "adv k (SetScheme a b p) = SetScheme a b (adv k p)" "adv k (SetUserInfo a b p) = SetUserInfo a b (adv k p)"
  "adv k (SetHost a b p) = SetHost a b (adv k p)" "adv k (SetPort a b p) = SetPort a b (adv k p)"
  "adv k (SetPath a b p) = SetPath a b (adv k p)" "adv k (SetQuery a b p) = SetQuery a b (adv k p)"
  "adv k (SetFragment a b p) = SetFragment a b (adv k p)"
  "adv k (put_userinfo i x p) = put_userinfo i x (adv k p)" "adv k (put_port i x p) = put_port i x (adv k p)"
  "adv k (put_query i x p) = put_query i x (adv k p)"
  by (simp_all add: adv_def SetScheme_def SetUserInfo_def SetHost_def SetPort_def SetPath_def SetQuery_def SetFragment_def
      put_userinfo_def put_port_def put_query_def split: option.split)

lemma pct_text_chars: "pct_text P w \<Longrightarrow> c \<in> set w \<Longrightarrow> P c \<or> c = CHR 0x25 \<or> is_hex c \<or> c = CHR ''u''"
  using span_pct_chars [of P w] by (auto simp: pct_text_def)

lemma no_at_in_host:
  assumes "host_ok h" and "\<And>d. pt = Some d \<Longrightarrow> list_all dig d"
  shows "CHR ''@'' \<notin> set (h @ opt CHR '':'' pt)"
proof -
  have "CHR ''@'' \<notin> set h"
    using pct_text_chars [of reg_name_char h "CHR ''@''"] assms(1)
    by (auto simp: host_ok_def delimiters is_hex_def isxdigit_def isdigit_def)
  moreover have "CHR ''@'' \<notin> set (opt CHR '':'' pt)"
    using assms(2) by (cases pt) (auto simp: list_all_iff isdigit_def)
  ultimately show ?thesis by simp
qed

lemma userinfo_at:
  assumes p: "at_text gdt p (authority_text x @ t)" and v: "uri_valid gdt x" and t: "begins ''/?#'' t"
  shows "userinfo_stage p = put_userinfo (m_current p) x (adv (length (userinfo_text x)) p)"
proof (cases "up_userinfo x")
  case None
  have "CHR ''@'' \<notin> set (up_host x @ opt CHR '':'' (up_port x))"
    using v by (intro no_at_in_host) (auto simp: uri_valid_def)
  moreover have "authority_text x = up_host x @ opt CHR '':'' (up_port x)"
    using None by (simp add: authority_text_def userinfo_text_def)
  ultimately have "userinfo_stage p = p" using userinfo_stage_None [OF _ _ t] p by metis
  then show ?thesis using None by (simp add: put_userinfo_def userinfo_text_def)
next
  case (Some w)
  have "at_text gdt p (w @ CHR ''@'' # (up_host x @ opt CHR '':'' (up_port x) @ t))"
    using p Some by (simp add: authority_text_def userinfo_text_def)
  moreover have "pct_text userinfo_char w" using v Some by (simp add: uri_valid_def)
  ultimately show ?thesis using userinfo_stage_Some Some by (simp add: put_userinfo_def userinfo_text_def)
qed

lemma authority_at:
  assumes p: "at_text gdt p (authority_text x @ t)" and v: "uri_valid gdt x" and t: "begins ''/?#'' t"
  defines "i \<equiv> m_current p + length (userinfo_text x)"
  shows "match_authority p =
           (True, put_port (i + length (up_host x)) x (SetHost i (length (up_host x))
              (put_userinfo (m_current p) x (adv (length (authority_text x)) p))))"
proof -
  define p1 where "p1 = put_userinfo (m_current p) x (adv (length (userinfo_text x)) p)"
  have u: "userinfo_stage p = p1" using userinfo_at [OF p v t] by (simp add: p1_def)
  have pt: "up_port x = Some d \<Longrightarrow> list_all dig d" for d using v by (simp add: uri_valid_def)
  have p1: "at_text gdt p1 (up_host x @ (opt CHR '':'' (up_port x) @ t))"
    using at_text_adv [of gdt p "userinfo_text x"] p by (simp add: p1_def authority_text_def)
  have b: "begins '':/?#'' (opt CHR '':'' (up_port x) @ t)"
    using t by (cases "up_port x") (auto simp: begins_def)
  define p2 where "p2 = SetHost (m_current p1) (length (up_host x)) (adv (length (up_host x)) p1)"
  have h: "match_host p1 = (True, p2)"
    using host_at [OF p1 _ b] v by (simp add: uri_valid_def p2_def)
  have p2: "at_text gdt p2 (opt CHR '':'' (up_port x) @ t)" using at_text_adv [OF p1] by (simp add: p2_def)
  show ?thesis
    unfolding match_authority_eq u h using port_at [OF p2 pt t]
    by (cases "up_port x") (simp_all add: p2_def p1_def put_port_def authority_text_def i_def add.assoc)
qed

lemma port_parses:
  assumes d: "list_all dig d" "d \<noteq> []" "length d \<le> 128" and v: "digits_val 10 d < 2 ^ 16"
  shows "TryParse_unsigned 16 erange 10 d = (Some (int (digits_val 10 d)), erange)"
proof -
  obtain c r where cr: "d = c # r" using d(2) by (cases d) auto
  have dg: "48 \<le> code x \<and> code x \<le> 57" if "x \<in> set d" for x using d(1) that by (simp add: list_all_iff isdigit_def)
  then have all: "\<forall>x\<in>set d. is_digit 10 x" using digit_val_dec by blast
  have c: "48 \<le> code c" "code c \<le> 57" using dg cr by simp_all
  then have "c \<noteq> CHR ''-''" "c \<noteq> CHR ''+''" "\<not> is_space c" by (auto simp: is_space_def)
  then have "strip_sign (dropWhile is_space d) = (False, d)" by (simp add: cr strip_sign_def)
  moreover have "strip_0x 10 d = d" by (simp add: strip_0x_def split: list.split)
  moreover have tw: "takeWhile (is_digit 10) d = d" "dropWhile (is_digit 10) d = []"
    using all takeWhile_eq_all_conv dropWhile_eq_Nil_conv by blast+
  ultimately have "scan_number 10 d = Some (False, digits_val 10 d, [])"
    using d(2) by (simp only: scan_number_def Let_def prod.case tw if_False)
  moreover have "c_str d = d"
    unfolding c_str_def using dg by (intro takeWhile_eq_all_conv [THEN iffD2]) fastforce
  ultimately show ?thesis using d v
    by (simp add: TryParse_unsigned_def TryParseImpl_def strtoull_def TryNarrowCast_def)
qed

lemma URI_at:
  assumes p: "at_text gdt p (uri_text (up_scheme x) x)" and v: "uri_valid gdt x"
  defines "i \<equiv> m_current p + length (up_scheme x) + 3" and "j \<equiv> m_current p + length (up_scheme x) + 3 + length (authority_text x)"
  shows "match_URI p =
           (True, put_fragment (j + length (up_path x) + length (opt CHR ''?'' (up_query x))) x
              (put_query (j + length (up_path x)) x (SetPath j (length (up_path x))
                (put_port (i + length (userinfo_text x) + length (up_host x)) x
                  (SetHost (i + length (userinfo_text x)) (length (up_host x)) (put_userinfo i x
                    (SetScheme (m_current p) (length (up_scheme x)) (adv (length (uri_text (up_scheme x) x)) p))))))))"
proof -
  define t where "t = up_path x @ tail_text x"
  have v': "path_ok gdt (up_path x)" using v by (simp add: uri_valid_def)
  have s: "uri_text (up_scheme x) x = up_scheme x @ CHR '':'' # ''//'' @ authority_text x @ t"
    by (simp add: uri_text_def t_def)
  define p1 where "p1 = SetScheme (m_current p) (length (up_scheme x)) (adv (length (up_scheme x) + 1) p)"
  have sch: "match_scheme_and_colon p = (True, p1)"
    using scheme_at [OF p [unfolded s]] v by (simp add: uri_valid_def p1_def)
  have p1: "at_text gdt p1 (''//'' @ authority_text x @ t)"
    using at_text_adv [of gdt p "up_scheme x @ '':''" "''//'' @ authority_text x @ t"] p s by (simp add: p1_def)
  have sl: "match_literal_string ''//'' p1 = (True, adv 2 p1)"
    using p1 by (simp add: at_text_def match_literal_string_rest)
  have p2: "at_text gdt (adv 2 p1) (authority_text x @ t)" using at_text_adv [OF p1] by (simp add: numeral_2_eq_2)
  define p3 where "p3 = snd (match_authority (adv 2 p1))"
  have b: "begins ''/?#'' t" unfolding t_def by (rule path_begins [OF v'])
  have au: "match_authority (adv 2 p1) = (True, p3)" using authority_at [OF p2 v b] by (simp add: p3_def)
  have p3: "at_text gdt p3 (up_path x @ tail_text x)"
    using at_text_adv [OF p2] authority_at [OF p2 v b] by (simp add: p3_def t_def)
  define p4 where "p4 = SetPath (m_current p3) (length (up_path x)) (adv (length (up_path x)) p3)"
  have ab: "match_path_abempty p3 = (True, p4)"
    using abempty_at [OF p3 v' tail_begins(1)] by (simp add: p4_def)
  have p4: "at_text gdt p4 (opt CHR ''?'' (up_query x) @ opt CHR ''#'' (up_fragment x))"
    using at_text_adv [OF p3] by (simp add: p4_def tail_text_def)
  have "match_hier_part p1 = (True, p4)"
    using sl au ab by (simp add: match_hier_part_def match_net_path_def guarded_def and_m_def)
  then have m: "match_URI p = (True, optional_fragment (optional_query p4))"
    using sch by (simp add: match_URI_def guarded_def and_m_def)
  define p5 where "p5 = put_query (m_current p4) x (adv (length (opt CHR ''?'' (up_query x))) p4)"
  have q: "optional_query p4 = p5"
    using query_at [OF p4 _ tail_begins(2)] v by (cases "up_query x") (simp_all add: p5_def put_query_def uri_valid_def)
  have p5: "at_text gdt p5 (opt CHR ''#'' (up_fragment x))" using at_text_adv [OF p4] by (simp add: p5_def)
  have f: "optional_fragment p5 = put_fragment (m_current p5) x (adv (length (opt CHR ''#'' (up_fragment x))) p5)"
    using fragment_at [OF p5] v by (cases "up_fragment x") (simp_all add: put_fragment_def uri_valid_def)
  have "match_URI p = (True, put_fragment (m_current p5) x (adv (length (opt CHR ''#'' (up_fragment x))) p5))"
    unfolding m q f ..
  then show ?thesis
    unfolding p5_def p4_def p3_def authority_at [OF p2 v b] snd_conv
    by (simp add: p1_def uri_text_def tail_text_def i_def j_def add.assoc add.commute add.left_commute numeral_2_eq_2
        numeral_3_eq_3)
qed

definition part_view :: "nat \<Rightarrow> string option \<Rightarrow> ComponentView" where
  "part_view i w = (case w of None \<Rightarrow> (0, 0) | Some v \<Rightarrow> view i (length v))"

definition expected_result :: "uri_parts \<Rightarrow> UriParseResultReceiver" where
  "expected_result x =
     (let i = length (up_scheme x) + 3; h = i + length (userinfo_text x); j = i + length (authority_text x);
          q = j + length (up_path x)
      in \<lparr>r_scheme = view 0 (length (up_scheme x)), r_userinfo = part_view i (up_userinfo x),
          r_host = view h (length (up_host x)), r_port = part_view (h + length (up_host x) + 1) (up_port x),
          r_path = view j (length (up_path x)), r_query = part_view (q + 1) (up_query x),
          r_fragment = part_view (q + length (opt CHR ''?'' (up_query x)) + 1) (up_fragment x)\<rparr>)"

lemma result_put:
  "m_result (put_userinfo i x p) = (case up_userinfo x of None \<Rightarrow> m_result p | Some v \<Rightarrow> (m_result p)\<lparr>r_userinfo := view i (length v)\<rparr>)"
  "m_result (put_port i x p) = (case up_port x of None \<Rightarrow> m_result p | Some v \<Rightarrow> (m_result p)\<lparr>r_port := view (i + 1) (length v)\<rparr>)"
  "m_result (put_query i x p) = (case up_query x of None \<Rightarrow> m_result p | Some v \<Rightarrow> (m_result p)\<lparr>r_query := view (i + 1) (length v)\<rparr>)"
  "m_result (put_fragment i x p) = (case up_fragment x of None \<Rightarrow> m_result p | Some v \<Rightarrow> (m_result p)\<lparr>r_fragment := view (i + 1) (length v)\<rparr>)"
  by (simp_all add: put_userinfo_def put_port_def put_query_def put_fragment_def result_simps split: option.split)

lemma Parse_valid:
  assumes v: "uri_valid gdt x"
  shows "UriParser_Parse gdt lit (uri_text (up_scheme x) x) = (length (uri_text (up_scheme x) x), expected_result x)"
proof -
  define p where "p = \<lparr>m_byte_sets = UriParserByteSets_ctor gdt, m_text = uri_text (up_scheme x) x,
    m_end = length (uri_text (up_scheme x) x), m_current = 0, m_result = UriParseResultReceiver_ctor, m_empty = lit\<rparr>"
  have p: "at_text gdt p (uri_text (up_scheme x) x)" by (auto simp: p_def at_text_def inside_def rest_def)
  have c: "m_current p = 0" "m_result p = UriParseResultReceiver_ctor" by (simp_all add: p_def)
  have "UriParser_Parse gdt lit (uri_text (up_scheme x) x) =
      (m_current (snd (match_URI_reference p)), m_result (snd (match_URI_reference p)))"
    by (simp add: UriParser_Parse_def p_def Let_def)
  moreover have "match_URI_reference p = (True, snd (match_URI p))"
    using URI_at [OF p v] by (simp add: match_URI_reference_def or_m_def)
  ultimately show ?thesis
    using URI_at [OF p v] c
    by (simp add: result_put result_simps expected_result_def part_view_def Let_def UriParseResultReceiver_ctor_def
        split: option.split)
qed

lemma GetComponent_piece:
  assumes "comps a ! component_index k = view (length l) (length w)" and "uri_str a = l @ w @ r"
    and "length (uri_str a) < 2 ^ 16" and "k \<noteq> kPort" "k \<noteq> kComponentCount"
  shows "GetComponent a k = Inr w"
proof -
  have "unat (word_of_nat (length l) :: u16) = length l" "unat (word_of_nat (length w) :: u16) = length w"
    using assms(2,3) by (simp_all add: unat_of_nat)
  then show ?thesis using assms by (simp add: GetComponent_def view_def)
qed

lemma GetComponent_part:
  assumes "comps a ! component_index k = part_view (length l) w" and "\<And>v. w = Some v \<Longrightarrow> \<exists>r. uri_str a = l @ v @ r"
    and "length (uri_str a) < 2 ^ 16" and "k \<noteq> kPort" "k \<noteq> kComponentCount"
  shows "GetComponent a k = Inr (case w of None \<Rightarrow> [] | Some v \<Rightarrow> v)"
proof (cases w)
  case None
  then show ?thesis using assms by (simp add: GetComponent_def part_view_def)
next
  case (Some v)
  obtain r where "uri_str a = l @ v @ r" using assms(2) Some by blast
  then show ?thesis using GetComponent_piece [of a k l v r] assms Some by (simp add: part_view_def)
qed

abbreviation or_empty :: "string option \<Rightarrow> string" where
  "or_empty w \<equiv> (case w of None \<Rightarrow> [] | Some v \<Rightarrow> v)"

definition parsed_uri :: "uri_parts \<Rightarrow> Uri" where
  "parsed_uri x =
     (let r = expected_result x
      in \<lparr>uri_str = uri_text (lower (up_scheme x)) x,
          comps = [r_scheme r, r_userinfo r, r_host r, r_port r, r_path r, r_query r, r_fragment r],
          port_num = word_of_nat (digits_val 10 (or_empty (up_port x)))\<rparr>)"

lemma length_lower [simp]: "length (lower s) = length s"
  by (simp add: lower_def)

lemma length_uri_text: "length (uri_text (lower (up_scheme x)) x) = length (uri_text (up_scheme x) x)"
  by (simp add: uri_text_def)

lemma port_piece:
  assumes "uri_valid gdt x"
  shows "take (unat (snd (r_port (expected_result x)))) (drop (unat (fst (r_port (expected_result x)))) (uri_text (up_scheme x) x))
           = or_empty (up_port x)"
proof (cases "up_port x")
  case (Some d)
  define l where "l = up_scheme x @ ''://'' @ userinfo_text x @ up_host x @ '':''"
  define r where "r = up_path x @ tail_text x"
  have s: "uri_text (up_scheme x) x = l @ d @ r"
    using Some by (simp add: uri_text_def authority_text_def l_def r_def)
  then have "unat (word_of_nat (length l) :: u16) = length l" "unat (word_of_nat (length d) :: u16) = length d"
    using assms by (auto simp: uri_valid_def unat_of_nat)
  moreover have "r_port (expected_result x) = view (length l) (length d)"
    using Some by (simp add: expected_result_def Let_def part_view_def l_def numeral_3_eq_3 add.assoc)
  ultimately show ?thesis using Some by (simp add: view_def s)
qed (simp add: expected_result_def Let_def part_view_def)

lemma TryParse_valid:
  assumes v: "uri_valid gdt x"
  shows "TryParse_Uri gdt lit erange (uri_text (up_scheme x) x) = (Some (parsed_uri x), erange)"
proof -
  have n: "length (up_scheme x) < 2 ^ 16" "length (uri_text (up_scheme x) x) < 2 ^ 16"
    using v by (auto simp: uri_valid_def uri_text_def)
  have "unat (word_of_nat (length (up_scheme x)) :: u16) = length (up_scheme x)" using n(1) by (simp add: unat_of_nat)
  then have "lower_range (unat (fst (r_scheme (expected_result x)))) (unat (snd (r_scheme (expected_result x))))
      (uri_text (up_scheme x) x) = uri_text (lower (up_scheme x)) x"
    by (simp add: expected_result_def Let_def view_def lower_range_def uri_text_def)
  moreover have "(if or_empty (up_port x) \<noteq> [] then TryParse_unsigned 16 erange 10 (or_empty (up_port x)) else (Some 0, erange))
      = (Some (int (digits_val 10 (or_empty (up_port x)))), erange)"
    using v port_parses [of "or_empty (up_port x)" erange]
    by (auto simp: uri_valid_def digits_val_def split: option.splits)
  ultimately show ?thesis
    unfolding TryParse_Uri_def Parse_valid [OF v] prod.case Let_def port_piece [OF v] parsed_uri_def
    using n(2) by simp
qed

text \<open>The accessors on the parsed URI.\<close>

lemma parsed_components:
  assumes v: "uri_valid gdt x"
  shows "Uri_scheme (parsed_uri x) = Inr (lower (up_scheme x))"
    "Uri_userinfo (parsed_uri x) = Inr (or_empty (up_userinfo x))" "Uri_host (parsed_uri x) = Inr (up_host x)"
    "Uri_path (parsed_uri x) = Inr (up_path x)" "Uri_query (parsed_uri x) = Inr (or_empty (up_query x))"
    "Uri_fragment (parsed_uri x) = Inr (or_empty (up_fragment x))"
proof -
  let ?u = "parsed_uri x" and ?s = "lower (up_scheme x) @ ''://''"
  note defs = parsed_uri_def expected_result_def Let_def uri_text_def authority_text_def userinfo_text_def tail_text_def
    numeral_3_eq_3 add.assoc
  have n: "length (uri_str ?u) < 2 ^ 16"
    using v by (simp add: parsed_uri_def Let_def length_uri_text uri_valid_def)
  show "Uri_scheme ?u = Inr (lower (up_scheme x))"
    unfolding Uri_scheme_def by (rule GetComponent_piece [where l = "[]"]) (use n in \<open>simp_all add: defs\<close>)
  show "Uri_userinfo ?u = Inr (or_empty (up_userinfo x))"
    unfolding Uri_userinfo_def by (rule GetComponent_part [where l = ?s]) (use n in \<open>simp_all add: defs\<close>)
  show "Uri_host ?u = Inr (up_host x)"
    unfolding Uri_host_def by (rule GetComponent_piece [where l = "?s @ userinfo_text x"]) (use n in \<open>simp_all add: defs\<close>)
  show "Uri_path ?u = Inr (up_path x)"
    unfolding Uri_path_def by (rule GetComponent_piece [where l = "?s @ authority_text x"]) (use n in \<open>simp_all add: defs\<close>)
  show "Uri_query ?u = Inr (or_empty (up_query x))"
    unfolding Uri_query_def
    by (rule GetComponent_part [where l = "?s @ authority_text x @ up_path x @ ''?''"]) (use n in \<open>simp_all add: defs\<close>)
  show "Uri_fragment ?u = Inr (or_empty (up_fragment x))"
    unfolding Uri_fragment_def
    by (rule GetComponent_part [where l = "?s @ authority_text x @ up_path x @ opt CHR ''?'' (up_query x) @ ''#''"])
      (use n in \<open>simp_all add: defs\<close>)
qed

subsection \<open>References without an authority\<close>

lemma scheme_fails:
  assumes "at_text gdt p s" and "s = [] \<or> \<not> isalpha (code (hd s))"
  shows "match_URI p = (False, p)"
proof -
  have "match_alpha p = (False, p)"
    using assms by (cases s) (simp_all add: at_text_def match_alpha_def match_byteset_rest byte_sets_has)
  then show ?thesis
    using adv_back [of p 0] by (simp add: match_URI_def match_scheme_and_colon_def guarded_def and_m_def)
qed

lemma no_authority:
  assumes "at_text gdt p s" and "\<not> prefix ''//'' s \<or> prefix ''///'' s"
  shows "guarded match_net_path p = (False, p)"
proof (cases "prefix ''//'' s")
  case False
  then have "match_literal_string ''//'' p = (False, p)" using assms(1) by (simp add: at_text_def match_literal_string_rest)
  then show ?thesis using adv_back [of p 0] by (simp add: match_net_path_def guarded_def and_m_def)
next
  case True
  then obtain r where s: "s = ''//'' @ CHR ''/'' # r" using assms(2) by (auto simp: prefix_def)
  have l: "match_literal_string ''//'' p = (True, adv 2 p)"
    using assms(1) s by (simp add: at_text_def match_literal_string_rest)
  have p2: "at_text gdt (adv 2 p) ([] @ CHR ''/'' # r)"
    using at_text_adv [of gdt p "''//''" "CHR ''/'' # r"] assms(1) s by (simp add: numeral_2_eq_2)
  have "userinfo_stage (adv 2 p) = adv 2 p" by (rule userinfo_stage_None [OF p2]) (simp_all add: begins_def)
  moreover have "span_pct reg_name_char ([] @ CHR ''/'' # r) = length ([] :: string)"
    by (simp add: span_pct_stops stops_def delimiters)
  then have "match_reg_name (adv 2 p) = (False, adv 2 p)"
    using pct_at [OF p2, of bs_reg_name] adv_back [of "adv 2 p" 0]
    by (auto simp: match_reg_name_def guarded_def has_eta split: prod.split)
  moreover have "dotted 3 (CHR ''/'' # r) = None" by (simp add: numeral_3_eq_3 isdigit_def)
  then have "match_IPv4address (adv 2 p) = (False, adv 2 p)" using IPv4_at [OF p2] by simp
  ultimately have "match_authority (adv 2 p) = (False, adv 2 p)"
    by (simp add: match_authority_eq match_host_def or_m_def match_IP_literal_def)
  then show ?thesis using l by (simp add: match_net_path_def guarded_def and_m_def adv_back)
qed

lemma at_text_result [simp]: "at_text gdt (p\<lparr>m_result := r\<rparr>) s = at_text gdt p s"
  by (simp add: at_text_def inside_def rest_def)

text \<open>What follows a scheme and its colon without being an authority with a host: no two slashes, or two slashes and then, after the userinfo and its \<open>@\<close> if
  there is one, the end or a character that cannot begin a host.\<close>

definition after_userinfo :: "string \<Rightarrow> string" where
  "after_userinfo a = (let k = span_pct userinfo_char a in if k < length a \<and> a ! k = CHR ''@'' then drop (k + 1) a else a)"

definition hostless :: "string \<Rightarrow> bool" where
  "hostless s \<longleftrightarrow> \<not> prefix ''//'' s \<or> stops reg_name_char (after_userinfo (drop 2 s))"

lemma userinfo_stage_any:
  assumes p: "at_text gdt p a"
  shows "\<exists>k r. userinfo_stage p = (adv k p)\<lparr>m_result := r\<rparr> \<and> at_text gdt (adv k p) (after_userinfo a)"
proof -
  define k where "k = span_pct userinfo_char a"
  have pk: "at_text gdt (adv k p) (drop k a)"
    using p match_while_pct_rest(4) [where p = p and cs = bs_userinfo] by (simp add: at_text_def has_eta k_def)
  have u: "match_userinfo p = (True, adv k p)" unfolding k_def by (rule match_userinfo_rest [OF p])
  show ?thesis
  proof (cases "k < length a \<and> a ! k = CHR ''@''")
    case True
    then have d: "drop k a = CHR ''@'' # drop (k + 1) a" by (metis Cons_nth_drop_Suc Suc_eq_plus1)
    then have a: "a = take k a @ CHR ''@'' # drop (k + 1) a" by (metis append_take_drop_id)
    have "CHR ''/'' \<notin> set (take k a)" using userinfo_not_delim [of a] by (auto simp: k_def)
    then have "contains_userinfo a" using contains_userinfo_append [of "take k a" "drop (k + 1) a"] a by simp
    then have "maybe_contains_userinfo p" using p by (simp add: maybe_contains_userinfo_def at_text_def inside_def rest_def)
    moreover have l: "match_literal CHR ''@'' (adv k p) = (True, adv (k + 1) p)" using literal_at(1) pk unfolding d by fastforce
    ultimately have "userinfo_stage p = SetUserInfo (m_current p) k (adv (k + 1) p)"
      using u by (simp add: userinfo_stage_def guarded_def and_m_def)
    moreover have "at_text gdt (adv 1 (adv k p)) (drop (k + 1) a)" using pk unfolding d by (rule at_text_adv1)
    ultimately show ?thesis using True
      by (intro exI [of _ "k + 1"]) (auto simp: after_userinfo_def k_def Let_def SetUserInfo_def)
  next
    case False
    then have "drop k a = [] \<or> hd (drop k a) \<noteq> CHR ''@''" by (cases "k < length a") (simp_all add: hd_drop_conv_nth)
    then have "match_literal CHR ''@'' (adv k p) = (False, adv k p)"
      using literal_at pk by (cases "drop k a") auto
    then have "userinfo_stage p = p" using u by (simp add: userinfo_stage_def guarded_def and_m_def adv_back)
    then show ?thesis using p False
      by (intro exI [of _ 0] exI [of _ "m_result p"]) (auto simp: after_userinfo_def k_def Let_def)
  qed
qed

lemma no_host:
  assumes p: "at_text gdt p t" and t: "stops reg_name_char t"
  shows "match_host p = (False, p)"
proof -
  have p': "at_text gdt p ([] @ t)" using p by simp
  have "span_pct reg_name_char ([] @ t) = length ([] :: string)" using t by (simp add: span_pct_stops)
  then have "match_reg_name p = (False, p)"
    using pct_at [OF p', of bs_reg_name] adv_back [of p 0] by (auto simp: match_reg_name_def guarded_def has_eta split: prod.split)
  moreover have "takeWhile dig t = []"
    using t by (cases t) (auto simp: stops_def reg_name_char_def unreserved_def isalnum_def)
  then have "dotted 3 t = None" by (simp add: numeral_3_eq_3)
  then have "match_IPv4address p = (False, p)" using IPv4_at [OF p] by simp
  ultimately show ?thesis by (simp add: match_host_def or_m_def match_IP_literal_def)
qed

lemma hostless_net_path:
  assumes p: "at_text gdt p s" and s: "hostless s"
  shows "\<exists>r. guarded match_net_path p = (False, p\<lparr>m_result := r\<rparr>)"
proof (cases "prefix ''//'' s")
  case False
  then have "guarded match_net_path p = (False, p)" using no_authority [OF p] by blast
  then show ?thesis by (intro exI [of _ "m_result p"]) simp
next
  case True
  then obtain a where a: "s = ''//'' @ a" by (auto simp: prefix_def)
  have l: "match_literal_string ''//'' p = (True, adv 2 p)" using p a by (simp add: at_text_def match_literal_string_rest)
  have p2: "at_text gdt (adv 2 p) a" using at_text_adv [of gdt p "''//''" a] p a by (simp add: numeral_2_eq_2)
  obtain k r where k: "userinfo_stage (adv 2 p) = (adv k (adv 2 p))\<lparr>m_result := r\<rparr>" "at_text gdt (adv k (adv 2 p)) (after_userinfo a)"
    using userinfo_stage_any [OF p2] by blast
  have "stops reg_name_char (after_userinfo a)" using s True a by (simp add: hostless_def)
  then have "match_host (userinfo_stage (adv 2 p)) = (False, userinfo_stage (adv 2 p))"
    unfolding k(1) using k(2) by (intro no_host [where gdt = gdt and t = "after_userinfo a"]) simp_all
  then have "match_authority (adv 2 p) = (False, (adv k (adv 2 p))\<lparr>m_result := r\<rparr>)" by (simp add: match_authority_eq k(1))
  then show ?thesis using l by (intro exI [of _ r]) (simp add: match_net_path_def guarded_def and_m_def adv_def)
qed

text \<open>A path matcher changes the position and the receiver only.\<close>

lemma path_frame:
  assumes p: "at_text gdt p s"
  shows "\<exists>k r. snd (match_path_absolute p) = (adv k p)\<lparr>m_result := r\<rparr> \<and> (fst (match_path_absolute p) \<or> k = 0)"
    and "\<exists>k r. snd (match_path_rootless p) = (adv k p)\<lparr>m_result := r\<rparr> \<and> (fst (match_path_rootless p) \<or> k = 0)"
proof -
  have seg: "\<exists>k r. SetPath a b (match_segments q) = (adv k q)\<lparr>m_result := r\<rparr>" if "at_text gdt q s" for q s a b
    using segments_at [OF that] by (auto simp: SetPath_def)
  have nz: "\<exists>k. match_segment_nz q = (k > 0, adv k q) \<and> at_text gdt (adv k q) (drop k s)" if "at_text gdt q s" for q s
    using match_while_pct_rest(1-3) [where p = q and cs = bs_pchar and n = 0]
      match_while_pct_rest(4) [where p = q and cs = bs_pchar] that
    by (auto simp: match_segment_nz_def at_text_def split_beta intro!: exI [of _ "span_pct (has (bs_pchar (m_byte_sets q))) (rest q)"])
  obtain k where k: "match_segment_nz p = (k > 0, adv k p)" "at_text gdt (adv k p) (drop k s)" using nz [OF p] by blast
  show "\<exists>k r. snd (match_path_rootless p) = (adv k p)\<lparr>m_result := r\<rparr> \<and> (fst (match_path_rootless p) \<or> k = 0)"
  proof (cases "k = 0")
    case True
    then show ?thesis using k by (auto simp: match_path_rootless_def intro!: exI [of _ 0] exI [of _ "m_result p"])
  next
    case False
    then show ?thesis using k(1) seg [OF k(2)] by (force simp: match_path_rootless_def Let_def)
  qed
  show "\<exists>k r. snd (match_path_absolute p) = (adv k p)\<lparr>m_result := r\<rparr> \<and> (fst (match_path_absolute p) \<or> k = 0)"
  proof (cases "match_literal CHR ''/'' p = (False, p)")
    case True
    then show ?thesis by (auto simp: match_path_absolute_def intro!: exI [of _ 0] exI [of _ "m_result p"])
  next
    case False
    then obtain r where r: "s = CHR ''/'' # r" "match_literal CHR ''/'' p = (True, adv 1 p)"
      using p literal_at by (cases s) (auto split: if_splits)
    then have p1: "at_text gdt (adv 1 p) r" using p at_text_adv1 by blast
    obtain j where j: "match_segment_nz (adv 1 p) = (j > 0, adv j (adv 1 p))" "at_text gdt (adv j (adv 1 p)) (drop j r)"
      using nz [OF p1] by blast
    show ?thesis
      using r(2) j(1) seg [OF j(2)] by (cases "j = 0") (force simp: match_path_absolute_def Let_def SetPath_def)+
  qed
qed

lemma hier_part_rolls_back:
  assumes p0: "at_text gdt p0 s" and s: "hostless s"
  shows "\<exists>r. match_hier_part p0 = (True, p0\<lparr>m_result := r\<rparr>)"
proof -
  obtain r0 where g: "guarded match_net_path p0 = (False, p0\<lparr>m_result := r0\<rparr>)" using hostless_net_path [OF p0 s] by blast
  define p where "p = p0\<lparr>m_result := r0\<rparr>"
  have p: "at_text gdt p s" using p0 by (simp add: p_def)
  obtain b p1 where a: "match_path_absolute p = (b, p1)" by force
  obtain k r where k: "p1 = (adv k p)\<lparr>m_result := r\<rparr>" "b \<or> k = 0" using path_frame(1) [OF p] a by auto
  show ?thesis
  proof (cases b)
    case True
    then show ?thesis using g [folded p_def] a k(1) by (auto simp: match_hier_part_def or_m_def adv_def p_def intro!: exI [of _ r])
  next
    case False
    then have p1: "p1 = p\<lparr>m_result := r\<rparr>" "at_text gdt p1 s" using k p by simp_all
    obtain c p2 where ro: "match_path_rootless p1 = (c, p2)" by force
    obtain j r' where j: "p2 = (adv j p1)\<lparr>m_result := r'\<rparr>" "c \<or> j = 0" using path_frame(2) [OF p1(2)] ro by auto
    show ?thesis using g [folded p_def] a False ro j p1(1)
      by (cases c) (auto simp: match_hier_part_def or_m_def match_path_empty_def adv_def p_def)
  qed
qed

lemma literal_not:
  assumes "at_text gdt p s" and "s = [] \<or> hd s \<noteq> c"
  shows "match_literal c p = (False, p)"
  using assms literal_at by (cases s) auto

lemma rejected_after_colon:
  assumes p: "at_text gdt p (sch @ CHR '':'' # s)" and sch: "sch \<noteq> []" "isalpha (code (hd sch))" "list_all scheme_char sch"
    and s: "hostless s" "s \<noteq> []" "hd s \<noteq> CHR ''?''" "hd s \<noteq> CHR ''#''"
  shows "\<exists>q. match_URI p = (True, q) \<and> m_current q = m_current p + length sch + 1"
proof -
  define p1 where "p1 = SetScheme (m_current p) (length sch) (adv (length sch + 1) p)"
  have p1: "at_text gdt p1 s" using at_text_adv [of gdt p "sch @ '':''" s] p by (simp add: p1_def)
  obtain r where h: "match_hier_part p1 = (True, p1\<lparr>m_result := r\<rparr>)" using hier_part_rolls_back [OF p1 s(1)] by blast
  define p2 where "p2 = p1\<lparr>m_result := r\<rparr>"
  have p2: "at_text gdt p2 s" using p1 by (simp add: p2_def)
  have "match_literal CHR ''?'' p2 = (False, p2)" "match_literal CHR ''#'' p2 = (False, p2)"
    using literal_not [OF p2] s(2-4) by blast+
  then have "optional_fragment (optional_query p2) = p2"
    using adv_back [of p2 0] by (simp add: optional_query_def optional_fragment_def guarded_def and_m_def)
  then have "match_URI p = (True, p2)"
    using scheme_at [OF p sch] h by (simp add: match_URI_def guarded_def and_m_def p1_def p2_def)
  then show ?thesis by (simp add: p2_def p1_def)
qed

definition start_parser :: "bool \<Rightarrow> u16 \<Rightarrow> string \<Rightarrow> UriParser" where
  "start_parser gdt lit s =
     \<lparr>m_byte_sets = UriParserByteSets_ctor gdt, m_text = s, m_end = length s, m_current = 0,
      m_result = UriParseResultReceiver_ctor, m_empty = lit\<rparr>"

lemma start_parser_simps [simp]:
  "at_text gdt (start_parser gdt lit s) s" "m_current (start_parser gdt lit s) = 0"
  "m_result (start_parser gdt lit s) = UriParseResultReceiver_ctor" "m_empty (start_parser gdt lit s) = lit"
  by (auto simp: start_parser_def at_text_def inside_def rest_def)

lemma Parse_start:
  "match_URI_reference (start_parser gdt lit s) = (b, q) \<Longrightarrow> UriParser_Parse gdt lit s = (m_current q, m_result q)"
  by (simp add: UriParser_Parse_def start_parser_def)

lemma incomplete_rejected:
  "match_URI_reference (start_parser gdt lit s) = (b, q) \<Longrightarrow> m_current q \<noteq> length s \<Longrightarrow>
     TryParse_Uri gdt lit erange s = (None, erange)"
  using Parse_start [of gdt lit s b q] by (simp add: TryParse_Uri_def)

text \<open>A path that begins with one slash, then a query.\<close>

definition absolute_path :: "bool \<Rightarrow> string \<Rightarrow> bool" where
  "absolute_path gdt path \<longleftrightarrow> path \<noteq> [] \<and> path_ok gdt path \<and> \<not> prefix ''//'' path"

lemma path_absolute_at:
  assumes p: "at_text gdt p (path @ t)" and path: "absolute_path gdt path" and t: "begins ''?#'' t"
  shows "match_path_absolute p = (True, SetPath (m_current p) (length path) (adv (length path) p))"
proof -
  obtain r where r: "path = CHR ''/'' # r" using path by (cases path) (auto simp: absolute_path_def path_ok_def begins_def)
  have p1: "at_text gdt (adv 1 p) (r @ t)" using p r at_text_adv1 by simp
  define k where "k = span_pct (path_char gdt) (r @ t)"
  have nz: "match_segment_nz (adv 1 p) = (k > 0, adv k (adv 1 p))"
    using match_while_pct_rest(1-3) [where p = "adv 1 p" and cs = bs_pchar and n = 0] p1
    by (auto simp: match_segment_nz_def at_text_def split_beta has_eta k_def)
  have pk: "at_text gdt (adv k (adv 1 p)) (drop k (r @ t))"
    unfolding k_def by (rule at_text_drop [OF p1 span_pct_le])
  have "pct_text (slashed (path_char gdt)) r"
    using path r by (simp add: absolute_path_def path_ok_def pct_text_def span_pct.simps(2) slashed_def)
  moreover have "stops (slashed (path_char gdt)) t"
    by (rule begins_stops [OF t]) (auto simp: slashed_def delimiters)
  ultimately have "span_pct (slashed (path_char gdt)) (r @ t) = length r" by (simp add: pct_text_def span_pct_exact)
  define sg where "sg = span_seg (path_char gdt) (drop k (r @ t))"
  have sum: "k + sg = length r" using \<open>span_pct (slashed (path_char gdt)) (r @ t) = length r\<close>
    unfolding span_pct_slashed [of "path_char gdt" "r @ t", OF delimiters(12)] k_def sg_def .
  have "r = []" if "k = 0"
  proof -
    have "hd r \<noteq> CHR ''/'' \<or> r = []" using path r by (cases r) (auto simp: absolute_path_def)
    then have "span_seg (path_char gdt) (r @ t) = 0"
      using t by (cases r; cases t) (auto simp: span_seg.simps(2) begins_def)
    then show ?thesis using sum that by (simp add: sg_def)
  qed
  then have "(if k > 0 then match_segments (adv k (adv 1 p)) else adv k (adv 1 p)) = adv (length path) p"
    using segments_at [OF pk, folded sg_def] sum r by (cases "k = 0") (simp_all add: add.assoc)
  moreover have "match_literal CHR ''/'' p = (True, adv 1 p)" using p r literal_at(1) by simp
  ultimately show ?thesis using nz by (cases "k = 0") (simp_all add: match_path_absolute_def Let_def)
qed

lemma relative_at:
  assumes p: "at_text gdt p (path @ opt CHR ''?'' q @ t)" and path: "absolute_path gdt path"
    and q: "\<And>w. q = Some w \<Longrightarrow> pct_text (query_char gdt) w" and t: "begins ''#'' t"
  shows "match_URI_reference p =
           (True, (case q of None \<Rightarrow> id | Some w \<Rightarrow> SetQuery (m_current p + length path + 1) (length w))
              (SetPath (m_current p) (length path) (adv (length path + length (opt CHR ''?'' q)) p)))"
proof -
  obtain r where r: "path = CHR ''/'' # r" using path by (cases path) (auto simp: absolute_path_def path_ok_def begins_def)
  have b: "begins ''?#'' (opt CHR ''?'' q @ t)" using t by (cases q) (auto simp: begins_def)
  have "match_URI p = (False, p)" by (rule scheme_fails [OF p]) (simp add: r isalpha_def isupper_def islower_def)
  moreover have "guarded match_net_path p = (False, p)"
  proof (rule no_authority [OF p])
    have "\<not> prefix ''//'' (path @ opt CHR ''?'' q @ t)"
      using path r t by (cases r; cases q; cases t) (auto simp: absolute_path_def begins_def)
    then show "\<not> prefix ''//'' (path @ opt CHR ''?'' q @ t) \<or> prefix ''///'' (path @ opt CHR ''?'' q @ t)" by blast
  qed
  moreover define p1 where "p1 = SetPath (m_current p) (length path) (adv (length path) p)"
  have "match_path_absolute p = (True, p1)" using path_absolute_at [OF p path b] by (simp add: p1_def)
  ultimately have "match_URI_reference p = (True, optional_query p1)"
    by (simp add: match_URI_reference_def or_m_def match_relative_ref_def match_relative_part_def guarded_def)
  moreover have p1: "at_text gdt p1 (opt CHR ''?'' q @ t)" using at_text_adv [OF p] by (simp add: p1_def)
  ultimately show ?thesis using query_at [OF p1 q t] by (cases q) (simp_all add: p1_def)
qed

lemma nc_stops:
  assumes "at_text gdt p s" and "s = [] \<or> hd s = CHR ''?''"
  shows "match_path_noscheme p = (False, p)"
proof -
  have u: "\<not> unreserved CHR ''?''" "\<not> sub_delim CHR ''?''"
    by (simp_all add: unreserved_def sub_delim_def isalnum_def isalpha_def isupper_def islower_def isdigit_def)
  have "match_byteset bs_unreserved p = (False, p)" "match_byteset bs_sub_delims p = (False, p)"
    using assms u by (cases s; simp add: at_text_def match_byteset_rest byte_sets_has)+
  moreover have "match_pct_encoded p = (False, p)"
    using assms by (cases s) (simp_all add: at_text_def match_pct_rest pct_len_def)
  moreover have "match_literal CHR ''@'' p = (False, p)" by (rule literal_not [OF assms(1)]) (use assms(2) in auto)
  ultimately have "nc_step p = (False, p)"
    using adv_back [of p 0] by (simp add: nc_step_def guarded_def or_m_def match_unreserved_def)
  then show ?thesis by (simp add: match_path_noscheme_def match_segment_nz_nc_def match_nc_loop.simps [of 0 p])
qed

lemma only_query_at:
  assumes p: "at_text gdt p (opt CHR ''?'' q)" and q: "\<And>w. q = Some w \<Longrightarrow> pct_text (query_char gdt) w"
  shows "match_URI_reference p =
           (True, (case q of None \<Rightarrow> id | Some w \<Rightarrow> SetQuery (m_current p + 1) (length w))
              (adv (length (opt CHR ''?'' q)) (p\<lparr>m_result := (m_result p)\<lparr>r_path := (m_empty p, 0)\<rparr>\<rparr>)))"
proof -
  let ?s = "opt CHR ''?'' q"
  have s: "?s = [] \<or> hd ?s = CHR ''?''" by (cases q) auto
  have "\<not> isalpha (code CHR ''?'')" by (simp add: isalpha_def isupper_def islower_def)
  then have "match_URI p = (False, p)" using scheme_fails [OF p] s by metis
  moreover have "guarded match_net_path p = (False, p)"
    by (rule no_authority [OF p]) (use s in \<open>cases q; auto\<close>)
  moreover have "match_path_absolute p = (False, p)"
    using literal_not [OF p, of "CHR ''/''"] s by (cases q) (auto simp: match_path_absolute_def)
  moreover have "match_path_noscheme p = (False, p)" by (rule nc_stops [OF p s])
  moreover define p1 where "p1 = p\<lparr>m_result := (m_result p)\<lparr>r_path := (m_empty p, 0)\<rparr>\<rparr>"
  have "match_path_empty p = (True, p1)" by (simp add: match_path_empty_def p1_def)
  ultimately have "match_URI_reference p = (True, optional_query p1)"
    by (simp add: match_URI_reference_def or_m_def match_relative_ref_def match_relative_part_def guarded_def)
  moreover have p1: "at_text gdt p1 (?s @ [])" using p by (simp add: p1_def)
  ultimately show ?thesis
    using query_at [OF p1 q] by (cases q) (simp_all add: p1_def begins_def)
qed

definition relative_uri :: "string \<Rightarrow> string option \<Rightarrow> Uri" where
  "relative_uri path q =
     \<lparr>uri_str = path @ opt CHR ''?'' q,
      comps = [(0, 0), (0, 0), (0, 0), (0, 0), view 0 (length path), part_view (length path + 1) q, (0, 0)],
      port_num = 0\<rparr>"

lemma TryParse_relative:
  assumes "absolute_path gdt path" and q: "\<And>w. q = Some w \<Longrightarrow> pct_text (query_char gdt) w"
    and n: "length path + length (opt CHR ''?'' q) < 2 ^ 16"
  shows "TryParse_Uri gdt lit erange (path @ opt CHR ''?'' q) = (Some (relative_uri path q), erange)"
proof -
  let ?s = "path @ opt CHR ''?'' q"
  define r where "r = UriParseResultReceiver_ctor\<lparr>r_path := view 0 (length path), r_query := part_view (length path + 1) q\<rparr>"
  have "at_text gdt (start_parser gdt lit ?s) (path @ opt CHR ''?'' q @ [])" by simp
  from relative_at [OF this assms(1) q] have "UriParser_Parse gdt lit ?s = (length ?s, r)"
    by (cases q) (auto dest!: Parse_start simp: r_def result_simps part_view_def UriParseResultReceiver_ctor_def begins_def)
  then show ?thesis
    using n by (simp add: TryParse_Uri_def r_def UriParseResultReceiver_ctor_def lower_range_def lower_def relative_uri_def)
qed

lemma relative_components:
  assumes "length path + length (opt CHR ''?'' q) < 2 ^ 16"
  shows "Uri_path (relative_uri path q) = Inr path" "Uri_query (relative_uri path q) = Inr (or_empty q)"
    "Uri_scheme (relative_uri path q) = Inr []" "Uri_userinfo (relative_uri path q) = Inr []"
    "Uri_host (relative_uri path q) = Inr []" "Uri_fragment (relative_uri path q) = Inr []"
proof -
  show "Uri_path (relative_uri path q) = Inr path"
    unfolding Uri_path_def relative_uri_def by (rule GetComponent_piece [where l = "[]"]) (use assms in simp_all)
  show "Uri_query (relative_uri path q) = Inr (or_empty q)"
    unfolding Uri_query_def relative_uri_def by (rule GetComponent_part [where l = "path @ ''?''"]) (use assms in simp_all)
qed (simp_all add: Uri_scheme_def Uri_userinfo_def Uri_host_def Uri_fragment_def relative_uri_def GetComponent_def)

subsection \<open>Properties\<close>

text \<open>Claim C18. A URI put together from a scheme, an authority with optional user information and port, a path and
  an optional query and fragment, each made of the characters RFC 3986 allows there, is parsed into these components:
  every accessor returns the component that was put in, the scheme in lower case, the port as a number. The host must
  not begin with an IPv4 address it goes on after, and the text must fit in 65535 bytes.\<close>

theorem Uri_roundtrip:
  assumes "uri_valid gdt x"
  shows "\<exists>u. TryParse_Uri gdt lit erange (uri_text (up_scheme x) x) = (Some u, erange) \<and>
           Uri_ToString u = uri_text (lower (up_scheme x)) x \<and> Uri_scheme u = Inr (lower (up_scheme x)) \<and>
           Uri_userinfo u = Inr (or_empty (up_userinfo x)) \<and> Uri_host u = Inr (up_host x) \<and>
           Uri_port u = word_of_nat (digits_val 10 (or_empty (up_port x))) \<and> Uri_path u = Inr (up_path x) \<and>
           Uri_query u = Inr (or_empty (up_query x)) \<and> Uri_fragment u = Inr (or_empty (up_fragment x))"
  using TryParse_valid [OF assms] parsed_components [OF assms]
  by (intro exI [of _ "parsed_uri x"]) (simp add: Uri_ToString_def Uri_port_def parsed_uri_def Let_def)

definition sample_uri :: uri_parts where
  "sample_uri = \<lparr>up_scheme = ''HTTP'', up_userinfo = Some ''a:b'', up_host = ''127.0.0.1'', up_port = Some ''8080'',
     up_path = ''/s/%20t'', up_query = Some ''q=1'', up_fragment = Some ''f''\<rparr>"

lemmas char_class_defs = scheme_char_def userinfo_char_def unreserved_def reg_name_char_def sub_delim_def path_char_def
  query_char_def fragment_char_def slashed_def isalnum_def isalpha_def isupper_def islower_def isdigit_def isxdigit_def is_hex_def

lemma sample_uri_valid: "uri_valid False sample_uri"
  by (simp add: uri_valid_def sample_uri_def uri_text_def authority_text_def userinfo_text_def tail_text_def host_ok_def path_ok_def
      begins_def pct_text_def span_pct.simps(2) pct_len_def char_class_defs digits_val_def digit_val_def numeral_3_eq_3)

theorem Uri_roundtrip_witness:
  "\<exists>u. TryParse_Uri False 0 False ''HTTP://a:b@127.0.0.1:8080/s/%20t?q=1#f'' = (Some u, False) \<and>
       Uri_scheme u = Inr ''http'' \<and> Uri_userinfo u = Inr ''a:b'' \<and> Uri_host u = Inr ''127.0.0.1'' \<and>
       Uri_port u = 8080 \<and> Uri_path u = Inr ''/s/%20t'' \<and> Uri_query u = Inr ''q=1'' \<and> Uri_fragment u = Inr ''f''"
proof -
  have "uri_text (up_scheme sample_uri) sample_uri = ''HTTP://a:b@127.0.0.1:8080/s/%20t?q=1#f''"
    "digits_val 10 (or_empty (up_port sample_uri)) = 8080"
    by (simp_all add: sample_uri_def uri_text_def authority_text_def userinfo_text_def tail_text_def digits_val_def digit_val_def)
  moreover have "lower (up_scheme sample_uri) = ''http''" by code_simp
  ultimately show ?thesis using Uri_roundtrip [OF sample_uri_valid, where lit = 0 and erange = False] by (auto simp: sample_uri_def)
qed

text \<open>Claim C29. The parser refuses a URI whose scheme and colon are followed by text that is neither empty nor begins with a query or fragment (those it accepts) and that is not an
  authority with a host: by a path without two slashes before it (\<open>mailto:\<close>, \<open>urn:\<close>), or by two slashes, perhaps a userinfo and its \<open>@\<close>, and then
  the end of the text or a character no host begins with, as in \<open>file:///\<close> or before a port. The grammar the parser is written after allows all of
  these. The path after the colon is matched, and then the position is moved back before it.\<close>

theorem Uri_without_authority_rejected:
  assumes "sch \<noteq> []" and "isalpha (code (hd sch))" and "list_all scheme_char sch"
    and "hostless s" and "s \<noteq> []" and "hd s \<noteq> CHR ''?''" and "hd s \<noteq> CHR ''#''"
  shows "TryParse_Uri gdt lit erange (sch @ CHR '':'' # s) = (None, erange)"
proof -
  let ?p = "start_parser gdt lit (sch @ CHR '':'' # s)"
  obtain q where q: "match_URI ?p = (True, q)" "m_current q = length sch + 1"
    using rejected_after_colon [OF start_parser_simps(1) assms] by auto
  have "match_URI_reference ?p = (True, q)" using q(1) by (simp add: match_URI_reference_def or_m_def)
  then show ?thesis by (rule incomplete_rejected) (use q(2) assms(5) in simp)
qed

theorem Uri_without_authority_rejected_witness:
  "TryParse_Uri False 0 False ''mailto:joe@example.org'' = (None, False) \<and>
   TryParse_Uri False 0 False ''file:///etc/hosts'' = (None, False) \<and>
   TryParse_Uri False 0 False ''http://joe@:80/'' = (None, False)"
proof -
  have h: "hostless ''joe@example.org''" "hostless ''///etc/hosts''" "hostless ''//joe@:80/''"
    by (simp_all add: hostless_def after_userinfo_def stops_def span_pct.simps(2) pct_len_def char_class_defs)
  show ?thesis
    using Uri_without_authority_rejected [where sch = "''mailto''" and gdt = False and lit = 0 and erange = False, OF _ _ _ h(1)]
      Uri_without_authority_rejected [where sch = "''file''" and gdt = False and lit = 0 and erange = False, OF _ _ _ h(2)]
      Uri_without_authority_rejected [where sch = "''http''" and gdt = False and lit = 0 and erange = False, OF _ _ _ h(3)]
    by (simp add: char_class_defs)
qed

text \<open>Claim C28. A reference that is an absolute path (one that begins with one slash and not two) with or without a query, the origin form of the target of an HTTP request, and shorter than 65536
  bytes, parses into its path and query with every other component empty; with a fragment after it, which the grammar allows, it is refused.\<close>

theorem Uri_origin_form:
  assumes "absolute_path gdt path" and "pct_text (query_char gdt) (or_empty q)"
    and "length path + length (opt CHR ''?'' q) < 2 ^ 16"
  shows "(\<exists>u. TryParse_Uri gdt lit erange (path @ opt CHR ''?'' q) = (Some u, erange) \<and>
             Uri_path u = Inr path \<and> Uri_query u = Inr (or_empty q) \<and> Uri_port u = 0 \<and>
             Uri_scheme u = Inr [] \<and> Uri_userinfo u = Inr [] \<and> Uri_host u = Inr [] \<and> Uri_fragment u = Inr []) \<and>
         TryParse_Uri gdt lit erange (path @ opt CHR ''?'' q @ CHR ''#'' # f) = (None, erange)"
proof -
  have q: "q = Some w \<Longrightarrow> pct_text (query_char gdt) w" for w using assms(2) by simp
  have "match_URI_reference (start_parser gdt lit (path @ opt CHR ''?'' q @ CHR ''#'' # f)) =
      (True, (case q of None \<Rightarrow> id | Some w \<Rightarrow> SetQuery (length path + 1) (length w)) (SetPath 0 (length path)
         (adv (length path + length (opt CHR ''?'' q)) (start_parser gdt lit (path @ opt CHR ''?'' q @ CHR ''#'' # f)))))"
    using relative_at [OF start_parser_simps(1) assms(1) q, where t = "CHR ''#'' # f"] by (simp add: begins_def cong: option.case_cong)
  then have "TryParse_Uri gdt lit erange (path @ opt CHR ''?'' q @ CHR ''#'' # f) = (None, erange)"
    by (rule incomplete_rejected) (cases q, simp_all)
  then show ?thesis
    using TryParse_relative [OF assms(1) q assms(3)] relative_components [OF assms(3)]
    by (intro conjI exI [of _ "relative_uri path q"]) (simp_all add: relative_uri_def Uri_port_def)
qed

theorem Uri_origin_form_witness:
  "(\<exists>u. TryParse_Uri False 0 False ''/rpc/a?m=1'' = (Some u, False) \<and>
         Uri_path u = Inr ''/rpc/a'' \<and> Uri_query u = Inr ''m=1'' \<and> Uri_port u = 0 \<and>
         Uri_scheme u = Inr [] \<and> Uri_userinfo u = Inr [] \<and> Uri_host u = Inr [] \<and> Uri_fragment u = Inr []) \<and>
   TryParse_Uri False 0 False ''/rpc/a?m=1#top'' = (None, False)"
  using Uri_origin_form [where gdt = False and path = "''/rpc/a''" and q = "Some ''m=1''" and lit = 0
      and erange = False and f = "''top''"]
  by (simp add: absolute_path_def path_ok_def begins_def pct_text_def span_pct.simps(2) char_class_defs)

text \<open>Claim C30. A reference that is only a query, or is empty, is accepted with the 16 low bits of a distance between
  two unrelated objects as the offset of its path. Asking for the path gives the empty string when that number
  happens to be at most the length of the text; otherwise an exception leaves a \<open>noexcept\<close> function and the process is
  terminated.\<close>

theorem Uri_empty_path_terminates:
  assumes "pct_text (query_char gdt) (or_empty q)" and "length (opt CHR ''?'' q) < 2 ^ 16"
  shows "\<exists>u. TryParse_Uri gdt lit erange (opt CHR ''?'' q) = (Some u, erange) \<and> Uri_query u = Inr (or_empty q) \<and>
             Uri_path u = (if unat lit \<le> length (opt CHR ''?'' q) then Inr [] else Inl Thrown)"
proof -
  let ?s = "opt CHR ''?'' q"
  define r where "r = UriParseResultReceiver_ctor\<lparr>r_path := (lit, 0), r_query := part_view 1 q\<rparr>"
  define u where "u = \<lparr>uri_str = ?s, comps = [(0, 0), (0, 0), (0, 0), (0, 0), (lit, 0), part_view 1 q, (0, 0)], port_num = 0\<rparr>"
  have q: "q = Some w \<Longrightarrow> pct_text (query_char gdt) w" for w using assms(1) by simp
  have "UriParser_Parse gdt lit ?s = (length ?s, r)"
    using only_query_at [OF start_parser_simps(1) q, of q lit]
    by (cases q) (auto dest!: Parse_start simp: r_def result_simps part_view_def UriParseResultReceiver_ctor_def)
  then have "TryParse_Uri gdt lit erange ?s = (Some u, erange)"
    using assms(2) by (simp add: TryParse_Uri_def r_def u_def UriParseResultReceiver_ctor_def lower_range_def lower_def)
  moreover have "Uri_query u = Inr (or_empty q)"
    unfolding Uri_query_def by (rule GetComponent_part [where l = "''?''"]) (use assms(2) in \<open>simp_all add: u_def\<close>)
  ultimately show ?thesis
    by (intro exI [of _ u]) (simp add: Uri_path_def GetComponent_def u_def)
qed

theorem Uri_empty_path_terminates_witness:
  "\<exists>u. TryParse_Uri False 4096 False ''?a=1'' = (Some u, False) \<and> Uri_query u = Inr ''a=1'' \<and> Uri_path u = Inl Thrown"
  using Uri_empty_path_terminates [where gdt = False and q = "Some ''a=1''" and lit = 4096 and erange = False]
  by (simp add: pct_text_def span_pct.simps(2) char_class_defs)

end
