(* ===== verification/Query_String.thy ===== *)
theory Query_String
  imports Net_Uri_Correct Encoding Http_Types
begin

section \<open>Query strings (flare/net/http/query_string.h, query_string.cc)\<close>

text \<open>
  Parsing of \<open>k=v&...\<close> into a list of decoded pairs, the lookups in it, and the two functions that take the query from a
  URI and from an HTTP request. The properties compose the parser of URIs, the percent coding and the splitting of
  strings: pairs that a client encodes into the target of a request are read back by the server.
\<close>

record QueryString =
  qs_original :: string
  qs_pairs :: "(string \<times> string) list"

definition QueryString_default :: QueryString where
  "QueryString_default = \<lparr>qs_original = [], qs_pairs = []\<rparr>"

fun first_pair :: "(string \<times> string) list \<Rightarrow> string \<Rightarrow> string option" where
  "first_pair [] key = None"
| "first_pair ((k, v) # ps) key = (if k = key then Some v else first_pair ps key)"

definition QueryString_TryGet :: "QueryString \<Rightarrow> string \<Rightarrow> string option" where
  "QueryString_TryGet qs key = first_pair (qs_pairs qs) key"

text \<open>\<open>TryGet<T>\<close>, with the parser for \<open>T\<close>.\<close>

definition QueryString_TryGet_as :: "(string \<Rightarrow> 'a option) \<Rightarrow> QueryString \<Rightarrow> string \<Rightarrow> 'a option" where
  "QueryString_TryGet_as parse qs key = (case QueryString_TryGet qs key of Some v \<Rightarrow> parse v | None \<Rightarrow> None)"

fun pairs_with :: "(string \<times> string) list \<Rightarrow> string \<Rightarrow> string list \<Rightarrow> string list" where
  "pairs_with [] key result = result"
| "pairs_with ((k, v) # ps) key result = pairs_with ps key (if k = key then result @ [v] else result)"

definition QueryString_TryGetMultiple :: "QueryString \<Rightarrow> string \<Rightarrow> string list" where
  "QueryString_TryGetMultiple qs key = pairs_with (qs_pairs qs) key []"

text \<open>\<open>std::vector::at\<close> throws out of range, from a \<open>noexcept\<close> function.\<close>

definition QueryString_at :: "QueryString \<Rightarrow> nat \<Rightarrow> fault + string \<times> string" where
  "QueryString_at qs i = (if i < length (qs_pairs qs) then Inr (qs_pairs qs ! i) else Inl Thrown)"

definition QueryString_index :: "QueryString \<Rightarrow> nat \<Rightarrow> fault + string \<times> string" where
  "QueryString_index qs i = (if i < length (qs_pairs qs) then Inr (qs_pairs qs ! i) else Inl Undefined)"

definition QueryString_empty :: "QueryString \<Rightarrow> bool" where
  "QueryString_empty qs \<longleftrightarrow> qs_pairs qs = []"

definition QueryString_size :: "QueryString \<Rightarrow> nat" where
  "QueryString_size qs = length (qs_pairs qs)"

definition QueryString_ToString :: "QueryString \<Rightarrow> string" where
  "QueryString_ToString qs = qs_original qs"

fun parse_pairs :: "string list \<Rightarrow> (string \<times> string) list \<Rightarrow> (string \<times> string) list option" where
  "parse_pairs [] pairs = Some pairs"
| "parse_pairs (e # es) pairs =
     (case find_sub ''='' e of
        Some sep \<Rightarrow>
          (case (DecodePercent (take sep e) False, DecodePercent (drop (sep + 1) e) False) of
             (Some key, Some val) \<Rightarrow> parse_pairs es (pairs @ [(key, val)])
           | _ \<Rightarrow> None)
      | None \<Rightarrow>
          (case DecodePercent e True of
             Some decoded \<Rightarrow> parse_pairs es (pairs @ [(decoded, [])])
           | None \<Rightarrow> None))"

definition TryParse_QueryString :: "string \<Rightarrow> fault + QueryString option" where
  "TryParse_QueryString s =
     sthen (Split s ''&'' False) (\<lambda>parts.
       Inr (map_option (\<lambda>pairs. \<lparr>qs_original = s, qs_pairs = pairs\<rparr>) (parse_pairs parts [])))"

definition TryParseQueryStringFromUri :: "bool \<Rightarrow> u16 \<Rightarrow> bool \<Rightarrow> string \<Rightarrow> fault + QueryString option" where
  "TryParseQueryStringFromUri gdt lit erange uri =
     (case fst (TryParse_Uri gdt lit erange uri) of
        None \<Rightarrow> Inr None
      | Some u \<Rightarrow> sthen (Uri_query u) TryParse_QueryString)"

definition TryParseQueryStringFromHttpRequest ::
  "bool \<Rightarrow> u16 \<Rightarrow> bool \<Rightarrow> http_request \<Rightarrow> bool \<Rightarrow> fault + QueryString option" where
  "TryParseQueryStringFromHttpRequest gdt lit erange req force_parse_body =
     (case fst (TryParse_Uri gdt lit erange (rq_uri req)) of
        None \<Rightarrow> Inr None
      | Some u \<Rightarrow>
          sthen (Uri_query u) (\<lambda>query.
          sthen (if force_parse_body then Inr True
                 else sthen (HttpHeaders_TryGet (msg_headers req) ''Content-Type'') (\<lambda>v.
                        Inr (v = Some ''application/x-www-form-urlencoded''))) (\<lambda>parse_body.
            if \<not> parse_body then TryParse_QueryString query
            else
              (let prefix = (if query \<noteq> [] then query @ ''&'' else query)
               in TryParse_QueryString
                    (prefix @ (case noncontiguous_body req of Some nb \<Rightarrow> FlattenSlow nb (- 1) | None \<Rightarrow> body_text req))))))"

section \<open>What the parser reads\<close>

lemma first_pair_map_of: "first_pair ps k = map_of ps k"
  by (induction ps) auto

lemma pairs_with_filter: "pairs_with ps k result = result @ map snd (filter (\<lambda>p. fst p = k) ps)"
  by (induction ps arbitrary: result) auto

text \<open>Splitting without empty parts, on parts that are not empty.\<close>

lemma Split_loop_join_nonempty:
  "parts \<noteq> [] \<Longrightarrow> \<forall>p\<in>set parts. c \<notin> set p \<and> p \<noteq> [] \<Longrightarrow> Split_loop (join_parts parts [c]) [c] False = parts"
proof (induction parts "[c]" rule: join_parts.induct)
  case (2 p)
  then show ?case by (subst Split_loop.simps) (simp add: find_sub_char)
next
  case (3 p q ps)
  then have IH: "Split_loop (join_parts (q # ps) [c]) [c] False = q # ps" by simp
  have ne: "join_parts (q # ps) [c] \<noteq> []" using "3.prems" by (cases ps) auto
  have "find_sub [c] (p @ [c] @ join_parts (q # ps) [c]) = Some (length p)"
    using find_sub_char "3.prems" by simp
  then show ?case using IH ne "3.prems" by (subst Split_loop.simps) (simp add: find_sub_char)
qed simp

definition enc :: "string \<Rightarrow> string" where
  "enc s = EncodePercent s default_percent_options"

definition pair_text :: "string \<times> string \<Rightarrow> string" where
  "pair_text p = enc (fst p) @ ''='' @ enc (snd p)"

definition query_text :: "(string \<times> string) list \<Rightarrow> string" where
  "query_text kvs = join_parts (map pair_text kvs) ''&''"

text \<open>The default encoding leaves letters, digits and \<open>_-.~\<close> alone.\<close>

lemma pct_default: "pct default_percent_options c = (if unreserved c then [c] else escaped_char c)"
proof -
  have "c \<in> set ''_-.~'' \<longleftrightarrow> code c \<in> set (map code ''_-.~'')" by (auto simp flip: of_char_eq_iff [where 'a = nat])
  then have "kUnescapedChars Rfc3986 True (code c) \<longleftrightarrow> unreserved c"
    unfolding kUnescapedChars_def GenerateUnescapedCharBitmap_def unreserved_def
    by (auto simp: isalnum_def isalpha_def isupper_def islower_def isdigit_def)
  then show ?thesis by (simp add: pct_def default_percent_options_def)
qed

lemma enc_concat: "enc s = concat (map (pct default_percent_options) s)"
  by (simp add: enc_def EncodePercent_def EncodePercent_concat)

lemma hex_upper: "is_hex (fst (kHexCharsUppercase n)) \<and> is_hex (snd (kHexCharsUppercase n))"
proof -
  have h: "\<forall>i\<in>set [0..<16]. is_hex (''0123456789ABCDEF'' ! i)"
    by (simp add: upt_rec is_hex_def isxdigit_def isdigit_def)
  have "n div 16 mod 16 \<in> set [0..<16]" "n mod 16 \<in> set [0..<16]" by simp_all
  then show ?thesis using h unfolding kHexCharsUppercase_def fst_conv snd_conv by blast
qed

lemma pct_text_append: "pct_text P a \<Longrightarrow> pct_text P b \<Longrightarrow> pct_text P (a @ b)"
  by (simp add: pct_text_def span_pct_append)

lemma pct_text_escaped:
  assumes "\<not> P CHR 0x25"
  shows "pct_text P (escaped_char c)"
proof -
  have "pct_len (escaped_char c) = 3" using hex_upper by (simp add: pct_len_def escaped_char_def)
  then show ?thesis using assms by (simp add: pct_text_def escaped_char_def span_pct.simps(2))
qed

lemma pct_text_enc:
  assumes "\<And>c. unreserved c \<Longrightarrow> P c" and "\<not> P CHR 0x25"
  shows "pct_text P (enc s)"
proof (induction s)
  case (Cons c s)
  have "pct_text P (pct default_percent_options c)"
    using pct_text_escaped [of P c] assms by (simp add: pct_default pct_text_def span_pct.simps(2))
  then show ?case using Cons pct_text_append by (simp add: enc_concat)
qed (simp add: enc_concat pct_text_def)

lemma query_char_classes:
  "unreserved c \<Longrightarrow> query_char gdt c" "\<not> query_char gdt CHR 0x25" "query_char gdt CHR ''=''" "query_char gdt CHR ''&''"
  "\<not> unreserved CHR ''=''" "\<not> unreserved CHR ''&''" "\<not> unreserved CHR 0x25"
  by (simp_all add: query_char_def path_char_def unreserved_def sub_delim_def isalnum_def isalpha_def isupper_def islower_def isdigit_def)

lemma enc_no_delimiter: "CHR ''&'' \<notin> set (enc s)" "CHR ''='' \<notin> set (enc s)"
proof -
  have "pct_text unreserved (enc s)" by (rule pct_text_enc) (simp_all add: query_char_classes)
  then show "CHR ''&'' \<notin> set (enc s)" "CHR ''='' \<notin> set (enc s)"
    using pct_text_chars [of unreserved "enc s" "CHR ''&''"] pct_text_chars [of unreserved "enc s" "CHR ''=''"]
    by (auto simp: query_char_classes is_hex_def isxdigit_def isdigit_def)
qed

lemma pct_text_join:
  assumes "\<And>p. p \<in> set ps \<Longrightarrow> pct_text P p" and "P c"
  shows "pct_text P (join_parts ps [c])"
  using assms(1)
proof (induction ps "[c]" rule: join_parts.induct)
  case (3 p q ps)
  have "pct_text P [c]" using assms(2) by (simp add: pct_text_def span_pct.simps(2))
  then show ?case using 3 by (simp del: append.simps append_Cons add: pct_text_append)
qed (simp_all add: pct_text_def)

lemma pct_text_query: "pct_text (query_char gdt) (query_text kvs)"
proof -
  have "pct_text (query_char gdt) ''=''" by (simp add: pct_text_def span_pct.simps(2) query_char_classes)
  then have "pct_text (query_char gdt) (pair_text p)" for p
    unfolding pair_text_def by (intro pct_text_append pct_text_enc) (auto simp: query_char_classes)
  then show ?thesis unfolding query_text_def by (intro pct_text_join) (auto simp: query_char_classes)
qed

lemma DecodePercent_enc_default: "DecodePercent (enc s) False = Some s"
  unfolding enc_def by (rule percent.dec_enc) simp

lemma parse_pairs_text: "parse_pairs (map pair_text kvs) acc = Some (acc @ kvs)"
proof (induction kvs arbitrary: acc)
  case (Cons p kvs)
  have "find_sub ''='' (pair_text p) = Some (length (enc (fst p)))"
    by (simp add: pair_text_def find_sub_char enc_no_delimiter)
  moreover have "take (length (enc (fst p))) (pair_text p) = enc (fst p)"
    "drop (length (enc (fst p)) + 1) (pair_text p) = enc (snd p)"
    by (simp_all add: pair_text_def)
  ultimately show ?case using Cons by (simp add: DecodePercent_enc_default)
qed simp

lemma TryParse_query_text:
  "TryParse_QueryString (query_text kvs) = Inr (Some \<lparr>qs_original = query_text kvs, qs_pairs = kvs\<rparr>)"
proof (cases "kvs = []")
  case True
  then show ?thesis by (simp add: TryParse_QueryString_def query_text_def Split_def)
next
  case False
  have ne: "\<forall>p\<in>set (map pair_text kvs). CHR ''&'' \<notin> set p \<and> p \<noteq> []"
    by (auto simp: pair_text_def enc_no_delimiter)
  then have sp: "Split_loop (query_text kvs) ''&'' False = map pair_text kvs"
    unfolding query_text_def using False by (intro Split_loop_join_nonempty) simp_all
  have "query_text kvs \<noteq> []"
    using False ne by (cases kvs; cases "tl kvs") (auto simp: query_text_def)
  then show ?thesis using sp parse_pairs_text [of kvs "[]"] by (simp add: TryParse_QueryString_def Split_def)
qed

text \<open>Text without the characters that are special in a query, up to plus signs.\<close>

definition plain_part :: "string \<Rightarrow> bool" where
  "plain_part s \<longleftrightarrow> CHR ''&'' \<notin> set s \<and> CHR ''='' \<notin> set s \<and> CHR 0x25 \<notin> set s"

definition spaced :: "string \<Rightarrow> string" where
  "spaced = map (\<lambda>c. if c = CHR ''+'' then CHR '' '' else c)"

lemma DecodePercent_plain_text:
  assumes "CHR 0x25 \<notin> set s"
  shows "DecodePercent s False = Some s" "DecodePercent s True = Some (spaced s)"
proof -
  have "DecodePercent_to s to b = (True, to @ (if b then spaced s else s))" for to b
    using assms
  proof (induction s arbitrary: to)
    case (Cons c s)
    then have "c \<noteq> CHR 0x25" by auto
    then show ?case using Cons by (cases b) (auto simp: DecodePercent_plain spaced_def)
  qed (simp add: DecodePercent_to.simps spaced_def)
  then show "DecodePercent s False = Some s" "DecodePercent s True = Some (spaced s)"
    by (simp_all add: DecodePercent_def)
qed

lemma Split_single: "s \<noteq> [] \<Longrightarrow> CHR ''&'' \<notin> set s \<Longrightarrow> Split s ''&'' False = Inr [s]"
  using Split_loop_join_nonempty [of "[s]" "CHR ''&''"] by (simp add: Split_def)

subsection \<open>Properties\<close>

text \<open>Claim C19. Pairs of arbitrary strings that are percent-encoded with the default options and joined with
  \<open>=\<close> and \<open>&\<close> into the query of a request target are read back by the server in order, from the target as well as from
  the query alone; the lookups then return the first value of a name and all of its values.\<close>

theorem QueryString_roundtrip:
  assumes "absolute_path gdt path" and "length path + length (query_text kvs) < 2 ^ 16 - 1"
  shows "\<exists>qs. TryParseQueryStringFromUri gdt lit erange (path @ ''?'' @ query_text kvs) = Inr (Some qs) \<and>
              TryParse_QueryString (query_text kvs) = Inr (Some qs) \<and>
              qs_pairs qs = kvs \<and> QueryString_ToString qs = query_text kvs \<and>
              (\<forall>k. QueryString_TryGet qs k = map_of kvs k \<and>
                   QueryString_TryGetMultiple qs k = map snd (filter (\<lambda>p. fst p = k) kvs))"
proof -
  let ?q = "Some (query_text kvs)"
  have "TryParse_Uri gdt lit erange (path @ opt CHR ''?'' ?q) = (Some (relative_uri path ?q), erange)"
    using assms pct_text_query by (intro TryParse_relative) auto
  moreover have "Uri_query (relative_uri path ?q) = Inr (query_text kvs)"
    using relative_components(2) [of path ?q] assms(2) by simp
  ultimately have "TryParseQueryStringFromUri gdt lit erange (path @ ''?'' @ query_text kvs)
      = Inr (Some \<lparr>qs_original = query_text kvs, qs_pairs = kvs\<rparr>)"
    by (simp add: TryParseQueryStringFromUri_def TryParse_query_text)
  then show ?thesis
    by (simp add: TryParse_query_text QueryString_ToString_def QueryString_TryGet_def QueryString_TryGetMultiple_def
        first_pair_map_of pairs_with_filter)
qed

theorem QueryString_roundtrip_witness:
  "\<exists>qs. TryParseQueryStringFromUri False 0 False (''/get'' @ ''?'' @ query_text [(''a b'', ''1&2''), (''k'', '''')]) = Inr (Some qs) \<and>
        TryParse_QueryString (query_text [(''a b'', ''1&2''), (''k'', '''')]) = Inr (Some qs) \<and>
        qs_pairs qs = [(''a b'', ''1&2''), (''k'', '''')] \<and>
        QueryString_ToString qs = query_text [(''a b'', ''1&2''), (''k'', '''')] \<and>
        (\<forall>k. QueryString_TryGet qs k = map_of [(''a b'', ''1&2''), (''k'', '''')] k \<and>
             QueryString_TryGetMultiple qs k = map snd (filter (\<lambda>p. fst p = k) [(''a b'', ''1&2''), (''k'', '''')]))"
proof (rule QueryString_roundtrip)
  show "absolute_path False ''/get''"
    by (simp add: absolute_path_def path_ok_def begins_def pct_text_def span_pct.simps(2) char_class_defs)
  have "length (query_text [(''a b'', ''1&2''), (''k'', '''')]) = 14"
    by code_simp
  then show "length ''/get'' + length (query_text [(''a b'', ''1&2''), (''k'', '''')]) < 2 ^ 16 - 1" by simp
qed

text \<open>Claim C31. Of a query of one part, without percent-encoded characters, a plus sign stands for a space only if the part has no equals sign: in the name and
  the value of a pair it stays a plus sign.\<close>

theorem QueryString_plus_sign:
  assumes "plain_part k" and "plain_part v" and "v \<noteq> []"
  shows "TryParse_QueryString (k @ ''='' @ v) = Inr (Some \<lparr>qs_original = k @ ''='' @ v, qs_pairs = [(k, v)]\<rparr>) \<and>
         TryParse_QueryString v = Inr (Some \<lparr>qs_original = v, qs_pairs = [(spaced v, [])]\<rparr>)"
proof -
  have "find_sub ''='' (k @ ''='' @ v) = Some (length k)" "find_sub ''='' v = None"
    using assms by (simp_all add: plain_part_def find_sub_char)
  moreover have "Split (k @ ''='' @ v) ''&'' False = Inr [k @ ''='' @ v]" "Split v ''&'' False = Inr [v]"
    using assms by (auto intro!: Split_single simp: plain_part_def)
  ultimately show ?thesis
    using assms DecodePercent_plain_text [of k] DecodePercent_plain_text [of v]
    by (simp add: TryParse_QueryString_def plain_part_def)
qed

theorem QueryString_plus_sign_witness:
  "TryParse_QueryString ''q=a+b'' = Inr (Some \<lparr>qs_original = ''q=a+b'', qs_pairs = [(''q'', ''a+b'')]\<rparr>) \<and>
   TryParse_QueryString ''a+b'' = Inr (Some \<lparr>qs_original = ''a+b'', qs_pairs = [(''a b'', [])]\<rparr>)"
  using QueryString_plus_sign [of "''q''" "''a+b''"] by (simp add: plain_part_def spaced_def)

end
