(* ===== verification/Shared_Mutex.thy ===== *)
theory Shared_Mutex
  imports Prelude
begin

section \<open>The reader-writer lock of the fibers (flare/fiber/shared_mutex.h, shared_mutex.cc)\<close>

text \<open>
  \<open>SharedMutex\<close> guards each partition of the cache's hash table. Any number of fibers run its functions at once; a
  state holds the members of the lock and, for every fiber, the place it has reached. Each step is one access to shared
  memory: an operation on the atomic \<open>reader_quota_\<close>, or what a fiber does between taking and giving up one of the two
  inner mutexes. All accesses to the atomic are to that one variable, so the order in which its changes
  take effect is total whatever memory order they name; a relaxed load is taken to read the latest value.

  \<open>fiber::Mutex\<close> and \<open>fiber::ConditionVariable\<close> are used by their documented behaviour, that of their namesakes in the
  standard library: taking a mutex blocks while another fiber holds it, \<open>wait\<close> gives up the mutex and sleeps
  until it is notified, then takes the mutex and tests the predicate again.

  The main results: the lock excludes, none of its checks can fail, and it cannot get stuck: fibers left
  to run inside the lock's functions stop after finitely many steps, and then either one of them holds the lock or none of them waits.
\<close>

definition kMaxReaders :: int where
  "kMaxReaders = 0x3fffffff"

text \<open>A 32-bit integer after an addition or subtraction.\<close>

definition wrap32 :: "int \<Rightarrow> int" where
  "wrap32 n = (n + 2 ^ 31) mod 2 ^ 32 - 2 ^ 31"

text \<open>
  Where a fiber is. \<open>R_\<close> is \<open>lock_shared\<close> with \<open>WaitForRead\<close> and \<open>unlock_shared\<close> with \<open>WakeupWriter\<close>, \<open>W_\<close> is \<open>lock\<close>,
  \<open>U_\<close> is \<open>unlock\<close>, \<open>TR_\<close> and \<open>TW_\<close> are the two \<open>try\<close> functions; local variables are arguments. \<open>_blocked\<close>
  places are before taking \<open>wakeup_lock_\<close>, \<open>_check\<close> places hold it and are about to test the predicate.
\<close>

datatype pc =
    Outside
  | R_blocked | R_check | R_sleep | R_in | R_waking | R_counting
  | TR_loop int
  | W_enter | W_sub | W_blocked int | W_check int | W_sleep int | W_in
  | TW_load | TW_loop int
  | U_begin | U_add | U_grant int | U_writer | U_leave

record shared_mutex =
  fibers :: "pc list"
  reader_quota :: int
  wakeup_lock :: "nat option"
  writer_lock :: "nat option"
  exited_readers :: int
  newly_granted_readers :: int
  aborted :: bool

definition SharedMutex :: "nat \<Rightarrow> shared_mutex" where
  "SharedMutex n = \<lparr>fibers = replicate n Outside, reader_quota = kMaxReaders, wakeup_lock = None, writer_lock = None,
     exited_readers = 0, newly_granted_readers = 0, aborted = False\<rparr>"

definition goto :: "nat \<Rightarrow> pc \<Rightarrow> shared_mutex \<Rightarrow> shared_mutex" where
  "goto i q s = s\<lparr>fibers := (fibers s)[i := q]\<rparr>"

definition FLARE_CHECK :: "bool \<Rightarrow> shared_mutex \<Rightarrow> shared_mutex \<Rightarrow> shared_mutex option" where
  "FLARE_CHECK ok s s' = Some (if ok then s' else s\<lparr>aborted := True\<rparr>)"

text \<open>\<open>wakeup_cv_.notify_all()\<close>: every sleeper goes back to taking \<open>wakeup_lock_\<close>.\<close>

fun wake :: "pc \<Rightarrow> pc" where
  "wake R_sleep = R_blocked"
| "wake (W_sleep n) = W_blocked n"
| "wake q = q"

definition notify_all :: "shared_mutex \<Rightarrow> shared_mutex" where
  "notify_all s = s\<lparr>fibers := map wake (fibers s)\<rparr>"

text \<open>Taking \<open>wakeup_lock_\<close>, which blocks while it is held.\<close>

definition take_wakeup :: "nat \<Rightarrow> pc \<Rightarrow> shared_mutex \<Rightarrow> shared_mutex option" where
  "take_wakeup i q s = (if wakeup_lock s = None then Some (goto i q (s\<lparr>wakeup_lock := Some i\<rparr>)) else None)"

definition WaitForRead :: "nat \<Rightarrow> shared_mutex \<Rightarrow> shared_mutex option" where
  "WaitForRead i s =
     (case fibers s ! i of
        R_blocked \<Rightarrow> take_wakeup i R_check s
      | R_check \<Rightarrow>
          if newly_granted_readers s \<noteq> 0
          then Some (goto i R_in (s\<lparr>newly_granted_readers := wrap32 (newly_granted_readers s - 1), wakeup_lock := None\<rparr>))
          else Some (goto i R_sleep (s\<lparr>wakeup_lock := None\<rparr>))
      | _ \<Rightarrow> None)"

definition lock_shared :: "nat \<Rightarrow> shared_mutex \<Rightarrow> shared_mutex option" where
  "lock_shared i s =
     (case fibers s ! i of
        Outside \<Rightarrow>
          (let was = reader_quota s; s1 = s\<lparr>reader_quota := wrap32 (was - 1)\<rparr>
           in if was > 1 then FLARE_CHECK (was \<le> kMaxReaders) s1 (goto i R_in s1)
              else FLARE_CHECK (was \<noteq> 1) s1 (goto i R_blocked s1))
      | _ \<Rightarrow> WaitForRead i s)"

text \<open>\<open>compare_exchange_weak\<close> may fail although the value is the expected one; \<open>fail\<close> says whether it does so now.\<close>

definition try_lock_shared :: "bool \<Rightarrow> nat \<Rightarrow> shared_mutex \<Rightarrow> shared_mutex option" where
  "try_lock_shared fail i s =
     (case fibers s ! i of
        Outside \<Rightarrow> Some (goto i (TR_loop (reader_quota s)) s)
      | TR_loop was \<Rightarrow>
          FLARE_CHECK (was \<le> kMaxReaders \<and> was \<noteq> 1) s
            (if was \<le> 0 then goto i Outside s
             else if reader_quota s = was \<and> \<not> fail then goto i R_in (s\<lparr>reader_quota := wrap32 (was - 1)\<rparr>)
             else goto i (TR_loop (reader_quota s)) s)
      | _ \<Rightarrow> None)"

definition WakeupWriter :: "nat \<Rightarrow> shared_mutex \<Rightarrow> shared_mutex option" where
  "WakeupWriter i s =
     (case fibers s ! i of
        R_waking \<Rightarrow> take_wakeup i R_counting s
      | R_counting \<Rightarrow>
          FLARE_CHECK (exited_readers s \<ge> 0) s
            (goto i Outside (notify_all (s\<lparr>exited_readers := wrap32 (exited_readers s + 1), wakeup_lock := None\<rparr>)))
      | _ \<Rightarrow> None)"

definition unlock_shared :: "nat \<Rightarrow> shared_mutex \<Rightarrow> shared_mutex option" where
  "unlock_shared i s =
     (case fibers s ! i of
        R_in \<Rightarrow>
          (let was = reader_quota s; s1 = s\<lparr>reader_quota := wrap32 (was + 1)\<rparr>
           in if was > 0 then FLARE_CHECK (was < kMaxReaders) s1 (goto i Outside s1) else Some (goto i R_waking s1))
      | _ \<Rightarrow> WakeupWriter i s)"

definition lock :: "nat \<Rightarrow> shared_mutex \<Rightarrow> shared_mutex option" where
  "lock i s =
     (case fibers s ! i of
        Outside \<Rightarrow> Some (goto i W_enter s)
      | W_enter \<Rightarrow> if writer_lock s = None then Some (goto i W_sub (s\<lparr>writer_lock := Some i\<rparr>)) else None
      | W_sub \<Rightarrow>
          (let was = reader_quota s; s1 = s\<lparr>reader_quota := wrap32 (was - kMaxReaders)\<rparr>
           in if was = kMaxReaders then Some (goto i W_in s1)
              else FLARE_CHECK (was < kMaxReaders \<and> was > 0) s1 (goto i (W_blocked (wrap32 (kMaxReaders - was))) s1))
      | W_blocked pending_readers \<Rightarrow> take_wakeup i (W_check pending_readers) s
      | W_check pending_readers \<Rightarrow>
          if exited_readers s = pending_readers
          then Some (goto i W_in (s\<lparr>exited_readers := 0, wakeup_lock := None\<rparr>))
          else Some (goto i (W_sleep pending_readers) (s\<lparr>wakeup_lock := None\<rparr>))
      | _ \<Rightarrow> None)"

definition try_lock :: "bool \<Rightarrow> nat \<Rightarrow> shared_mutex \<Rightarrow> shared_mutex option" where
  "try_lock fail i s =
     (case fibers s ! i of
        Outside \<Rightarrow> if writer_lock s \<noteq> None then Some s else Some (goto i TW_load (s\<lparr>writer_lock := Some i\<rparr>))
      | TW_load \<Rightarrow> Some (goto i (TW_loop (reader_quota s)) s)
      | TW_loop was \<Rightarrow>
          if was \<noteq> kMaxReaders then Some (goto i Outside (s\<lparr>writer_lock := None\<rparr>))
          else if reader_quota s = was \<and> \<not> fail then Some (goto i W_in (s\<lparr>reader_quota := 0\<rparr>))
          else Some (goto i (TW_loop (reader_quota s)) s)
      | _ \<Rightarrow> None)"

definition unlock :: "nat \<Rightarrow> shared_mutex \<Rightarrow> shared_mutex option" where
  "unlock i s =
     (case fibers s ! i of
        W_in \<Rightarrow> Some (goto i U_begin s)
      | U_begin \<Rightarrow> take_wakeup i U_add s
      | U_add \<Rightarrow>
          (let was = reader_quota s; s1 = s\<lparr>reader_quota := wrap32 (was + kMaxReaders)\<rparr>
           in FLARE_CHECK (wrap32 (was + kMaxReaders) > 0 \<and> was \<le> 0) s1
                (goto i (if was \<noteq> 0 then U_grant was else U_writer) s1))
      | U_grant was \<Rightarrow> Some (goto i U_writer (notify_all (s\<lparr>newly_granted_readers := wrap32 (- was)\<rparr>)))
      | U_writer \<Rightarrow> Some (goto i U_leave (s\<lparr>writer_lock := None\<rparr>))
      | U_leave \<Rightarrow> Some (goto i Outside (s\<lparr>wakeup_lock := None\<rparr>))
      | _ \<Rightarrow> None)"

subsection \<open>Steps\<close>

text \<open>A fiber that is inside a function goes on with it; a sleeping fiber cannot.\<close>

definition resume :: "bool \<Rightarrow> nat \<Rightarrow> shared_mutex \<Rightarrow> shared_mutex option" where
  "resume fail i s =
     (case fibers s ! i of
        R_blocked \<Rightarrow> lock_shared i s | R_check \<Rightarrow> lock_shared i s
      | R_waking \<Rightarrow> unlock_shared i s | R_counting \<Rightarrow> unlock_shared i s
      | TR_loop _ \<Rightarrow> try_lock_shared fail i s
      | W_enter \<Rightarrow> lock i s | W_sub \<Rightarrow> lock i s | W_blocked _ \<Rightarrow> lock i s | W_check _ \<Rightarrow> lock i s
      | TW_load \<Rightarrow> try_lock fail i s | TW_loop _ \<Rightarrow> try_lock fail i s
      | U_begin \<Rightarrow> unlock i s | U_add \<Rightarrow> unlock i s | U_grant _ \<Rightarrow> unlock i s | U_writer \<Rightarrow> unlock i s | U_leave \<Rightarrow> unlock i s
      | _ \<Rightarrow> None)"

text \<open>A fiber that is not inside a function calls one: an acquiring one when it holds nothing, the matching
  releasing one when it holds the lock.\<close>

definition calls :: "nat \<Rightarrow> shared_mutex \<Rightarrow> shared_mutex option list" where
  "calls i s =
     (case fibers s ! i of
        Outside \<Rightarrow> [lock_shared i s, try_lock_shared False i s, lock i s, try_lock False i s]
      | R_in \<Rightarrow> [unlock_shared i s]
      | W_in \<Rightarrow> [unlock i s]
      | _ \<Rightarrow> [])"

inductive sm_step :: "shared_mutex \<Rightarrow> shared_mutex \<Rightarrow> bool" where
  resume: "\<not> aborted s \<Longrightarrow> i < length (fibers s) \<Longrightarrow> resume fail i s = Some s' \<Longrightarrow> sm_step s s'"
| call: "\<not> aborted s \<Longrightarrow> i < length (fibers s) \<Longrightarrow> Some s' \<in> set (calls i s) \<Longrightarrow> sm_step s s'"
| spurious: "\<not> aborted s \<Longrightarrow> i < length (fibers s) \<Longrightarrow> sm_step s (goto i (wake (fibers s ! i)) s)"

inductive reachable :: "nat \<Rightarrow> shared_mutex \<Rightarrow> bool" for n where
  start: "reachable n (SharedMutex n)"
| step: "reachable n s \<Longrightarrow> sm_step s s' \<Longrightarrow> reachable n s'"

section \<open>The invariant\<close>

subsection \<open>Counting fibers\<close>

definition cnt :: "(pc \<Rightarrow> bool) \<Rightarrow> shared_mutex \<Rightarrow> int" where
  "cnt P s = int (length (filter P (fibers s)))"

lemma length_filter_update:
  "i < length xs \<Longrightarrow> int (length (filter P (xs[i := q]))) = int (length (filter P xs)) - of_bool (P (xs ! i)) + of_bool (P q)"
proof (induction xs arbitrary: i)
  case (Cons x xs)
  then show ?case by (cases i) auto
qed simp

lemma cnt_goto: "i < length (fibers s) \<Longrightarrow> cnt P (goto i q s) = cnt P s - of_bool (P (fibers s ! i)) + of_bool (P q)"
  by (simp add: cnt_def goto_def length_filter_update)

lemma cnt_fields [simp]:
  "cnt P (s\<lparr>reader_quota := a\<rparr>) = cnt P s" "cnt P (s\<lparr>wakeup_lock := b\<rparr>) = cnt P s" "cnt P (s\<lparr>writer_lock := b\<rparr>) = cnt P s"
  "cnt P (s\<lparr>exited_readers := a\<rparr>) = cnt P s" "cnt P (s\<lparr>newly_granted_readers := a\<rparr>) = cnt P s"
  by (simp_all add: cnt_def)

lemma cnt_notify: "cnt P (notify_all s) = cnt (\<lambda>q. P (wake q)) s"
  by (simp add: cnt_def notify_all_def filter_map o_def)

lemma cnt_nonneg: "0 \<le> cnt P s"
  by (simp add: cnt_def)

lemma cnt_pos: "i < length (fibers s) \<Longrightarrow> P (fibers s ! i) \<Longrightarrow> 1 \<le> cnt P s"
  by (simp add: cnt_def) (metis Suc_leI length_greater_0_conv length_pos_if_in_set mem_Collect_eq nth_mem of_nat_1 of_nat_le_iff One_nat_def set_filter)

lemma cnt_zero: "cnt P s = 0 \<longleftrightarrow> (\<forall>q\<in>set (fibers s). \<not> P q)"
  by (simp add: cnt_def filter_empty_conv)

lemma goto_simps [simp]:
  "fibers (goto i q s) = (fibers s)[i := q]" "reader_quota (goto i q s) = reader_quota s"
  "wakeup_lock (goto i q s) = wakeup_lock s" "writer_lock (goto i q s) = writer_lock s"
  "exited_readers (goto i q s) = exited_readers s" "newly_granted_readers (goto i q s) = newly_granted_readers s"
  "aborted (goto i q s) = aborted s"
  by (simp_all add: goto_def)

lemma notify_simps [simp]:
  "fibers (notify_all s) = map wake (fibers s)" "reader_quota (notify_all s) = reader_quota s"
  "wakeup_lock (notify_all s) = wakeup_lock s" "writer_lock (notify_all s) = writer_lock s"
  "exited_readers (notify_all s) = exited_readers s" "newly_granted_readers (notify_all s) = newly_granted_readers s"
  "aborted (notify_all s) = aborted s"
  by (simp_all add: notify_all_def)

subsection \<open>Groups of places\<close>

text \<open>Readers that hold the lock, that wait, that report their exit; writers that wait for readers to exit, that have
  the lock for themselves, that hand it to waiting readers, and others that hold \<open>writer_lock_\<close>; holders of \<open>wakeup_lock_\<close>.\<close>

definition reading :: "pc \<Rightarrow> bool" where
  "reading q \<longleftrightarrow> (case q of R_in \<Rightarrow> True | _ \<Rightarrow> False)"

definition read_waiting :: "pc \<Rightarrow> bool" where
  "read_waiting q \<longleftrightarrow> (case q of R_blocked \<Rightarrow> True | R_check \<Rightarrow> True | R_sleep \<Rightarrow> True | _ \<Rightarrow> False)"

definition read_sleeping :: "pc \<Rightarrow> bool" where
  "read_sleeping q \<longleftrightarrow> (case q of R_sleep \<Rightarrow> True | _ \<Rightarrow> False)"

definition exiting :: "pc \<Rightarrow> bool" where
  "exiting q \<longleftrightarrow> (case q of R_waking \<Rightarrow> True | R_counting \<Rightarrow> True | _ \<Rightarrow> False)"

definition pending :: "pc \<Rightarrow> int option" where
  "pending q = (case q of W_blocked m \<Rightarrow> Some m | W_check m \<Rightarrow> Some m | W_sleep m \<Rightarrow> Some m | _ \<Rightarrow> None)"

definition write_waiting :: "pc \<Rightarrow> bool" where
  "write_waiting q \<longleftrightarrow> pending q \<noteq> None"

definition writing :: "pc \<Rightarrow> bool" where
  "writing q \<longleftrightarrow> (case q of W_in \<Rightarrow> True | U_begin \<Rightarrow> True | U_add \<Rightarrow> True | _ \<Rightarrow> False)"

definition granting :: "pc \<Rightarrow> bool" where
  "granting q \<longleftrightarrow> (case q of U_grant _ \<Rightarrow> True | _ \<Rightarrow> False)"

definition has_writer_lock :: "pc \<Rightarrow> bool" where
  "has_writer_lock q \<longleftrightarrow> (case q of W_sub \<Rightarrow> True | TW_load \<Rightarrow> True | TW_loop _ \<Rightarrow> True | U_writer \<Rightarrow> True | _ \<Rightarrow> False)"

definition has_wakeup_lock :: "pc \<Rightarrow> bool" where
  "has_wakeup_lock q \<longleftrightarrow>
     (case q of R_check \<Rightarrow> True | R_counting \<Rightarrow> True | W_check _ \<Rightarrow> True | U_add \<Rightarrow> True | U_grant _ \<Rightarrow> True
      | U_writer \<Rightarrow> True | U_leave \<Rightarrow> True | _ \<Rightarrow> False)"

lemmas group_defs = reading_def read_waiting_def read_sleeping_def exiting_def pending_def write_waiting_def writing_def
  granting_def has_writer_lock_def has_wakeup_lock_def

lemma group_wake [simp]:
  "reading (wake q) = reading q" "read_waiting (wake q) = read_waiting q" "exiting (wake q) = exiting q"
  "write_waiting (wake q) = write_waiting q" "writing (wake q) = writing q" "granting (wake q) = granting q"
  "has_writer_lock (wake q) = has_writer_lock q" "has_wakeup_lock (wake q) = has_wakeup_lock q"
  "\<not> read_sleeping (wake q)" "pending (wake q) = pending q"
  by (cases q; simp add: group_defs)+

subsection \<open>Statement\<close>

text \<open>What a fiber's local variable says about the members.\<close>

definition local_ok :: "shared_mutex \<Rightarrow> pc \<Rightarrow> bool" where
  "local_ok s q \<longleftrightarrow>
     (case pending q of None \<Rightarrow> True
      | Some m \<Rightarrow> m = exited_readers s + cnt exiting s + cnt reading s + newly_granted_readers s \<and> m < kMaxReaders) \<and>
     (case q of
        U_grant was \<Rightarrow> newly_granted_readers s = 0 \<and> cnt read_waiting s = - was
      | W_sleep m \<Rightarrow> exited_readers s \<noteq> m
      | TR_loop was \<Rightarrow> was \<le> kMaxReaders \<and> was \<noteq> 1
      | _ \<Rightarrow> True)"

definition counts_ok :: "shared_mutex \<Rightarrow> bool" where
  "counts_ok s \<longleftrightarrow>
     reader_quota s = kMaxReaders - cnt reading s - cnt read_waiting s - kMaxReaders * (cnt write_waiting s + cnt writing s) \<and>
     cnt write_waiting s + cnt writing s + cnt granting s + cnt has_writer_lock s = of_bool (writer_lock s \<noteq> None) \<and>
     cnt has_wakeup_lock s = of_bool (wakeup_lock s \<noteq> None) \<and>
     0 \<le> newly_granted_readers s \<and> newly_granted_readers s \<le> cnt read_waiting s \<and> 0 \<le> exited_readers s \<and>
     (cnt write_waiting s = 0 \<longrightarrow> exited_readers s = 0 \<and> cnt exiting s = 0) \<and>
     (cnt writing s \<noteq> 0 \<longrightarrow> cnt reading s = 0 \<and> newly_granted_readers s = 0) \<and>
     (cnt write_waiting s + cnt writing s + cnt granting s = 0 \<longrightarrow> newly_granted_readers s = cnt read_waiting s) \<and>
     (newly_granted_readers s \<noteq> 0 \<longrightarrow> cnt read_sleeping s = 0)"

definition sm_inv :: "nat \<Rightarrow> shared_mutex \<Rightarrow> bool" where
  "sm_inv n s \<longleftrightarrow> length (fibers s) = n \<and> \<not> aborted s \<and> counts_ok s \<and> (\<forall>j<n. local_ok s (fibers s ! j))"

lemma cnt_zero_nth: "cnt P s = 0 \<Longrightarrow> j < length (fibers s) \<Longrightarrow> \<not> P (fibers s ! j)"
  using cnt_zero nth_mem by blast

text \<open>A step of one fiber, with or without a notification, keeps the invariant if it keeps the counts and the
  sums the local variables of the other fibers refer to.\<close>

lemma inv_step:
  assumes inv: "sm_inv n s" and i: "i < n"
    and f: "fibers s' = (map w (fibers s))[i := q]" and w: "w = id \<or> w = wake"
    and c: "counts_ok s'" "\<not> aborted s'" and q: "local_ok s' q"
    and pend: "cnt write_waiting s' = 0 \<or>
      exited_readers s' + cnt exiting s' + cnt reading s' + newly_granted_readers s' =
      exited_readers s + cnt exiting s + cnt reading s + newly_granted_readers s"
    and grant: "cnt granting s' = 0 \<or> newly_granted_readers s' = newly_granted_readers s \<and> cnt read_waiting s' = cnt read_waiting s"
    and sleep: "w = wake \<or> exited_readers s' = exited_readers s \<or> cnt write_waiting s' = 0"
  shows "sm_inv n s'"
proof -
  have len: "length (fibers s) = n" "length (fibers s') = n" using inv f by (simp_all add: sm_inv_def)
  have "local_ok s' (fibers s' ! j)" if "j < n" for j
  proof (cases "j = i")
    case True
    then show ?thesis using f q len i by simp
  next
    case False
    define r where "r = fibers s ! j"
    have r: "fibers s' ! j = w r" using f False that len by (simp add: r_def)
    have ok: "local_ok s r" using inv that by (simp add: sm_inv_def r_def)
    have nw: "cnt write_waiting s' = 0 \<Longrightarrow> pending (w r) = None"
      using cnt_zero_nth [of write_waiting s' j] that len r by (simp add: write_waiting_def)
    have ng: "cnt granting s' = 0 \<Longrightarrow> \<not> granting (w r)"
      using cnt_zero_nth [of granting s' j] that len r by simp
    have pw: "pending (w r) = pending r" using w by auto
    have "(case pending (w r) of None \<Rightarrow> True
        | Some m \<Rightarrow> m = exited_readers s' + cnt exiting s' + cnt reading s' + newly_granted_readers s' \<and> m < kMaxReaders)"
      using pend nw ok unfolding local_ok_def pw by (cases "pending r") auto
    moreover have "(case w r of
        U_grant was \<Rightarrow> newly_granted_readers s' = 0 \<and> cnt read_waiting s' = - was
      | W_sleep m \<Rightarrow> exited_readers s' \<noteq> m
      | TR_loop was \<Rightarrow> was \<le> kMaxReaders \<and> was \<noteq> 1
      | _ \<Rightarrow> True)"
      using w
    proof
      assume w: "w = id"
      have "id R_sleep \<noteq> wake R_sleep" by simp
      then have "exited_readers s' = exited_readers s \<or> cnt write_waiting s' = 0" using sleep w by metis
      then show ?thesis using ok grant w ng nw by (cases r) (auto simp: local_ok_def granting_def pending_def dest: sym)
    next
      assume w: "w = wake"
      then show ?thesis using ok grant ng by (cases r) (auto simp: local_ok_def granting_def)
    qed
    ultimately show ?thesis unfolding local_ok_def r ..
  qed
  then show ?thesis using c len by (simp add: sm_inv_def)
qed

lemma counts_less:
  assumes "sm_inv n s" and "i < n" and "\<not> reading (fibers s ! i)" and "\<not> read_waiting (fibers s ! i)"
  shows "cnt reading s + cnt read_waiting s < int n"
proof -
  let ?R = "\<lambda>q. \<not> reading q \<and> \<not> read_waiting q"
  have "cnt reading s + cnt read_waiting s + cnt ?R s = int (length (fibers s))"
  proof -
    have "length (filter reading xs) + length (filter read_waiting xs) + length (filter ?R xs) = length xs" for xs
      by (induction xs) (auto simp: reading_def read_waiting_def split: pc.splits)
    then show ?thesis unfolding cnt_def by (metis of_nat_add)
  qed
  moreover have "1 \<le> cnt ?R s" using cnt_pos [of i s ?R] assms by (simp add: sm_inv_def)
  ultimately show ?thesis using assms(1) by (simp add: sm_inv_def)
qed

lemma wrap32_id: "- (2 ^ 31) \<le> k \<Longrightarrow> k < 2 ^ 31 \<Longrightarrow> wrap32 k = k"
  by (simp add: wrap32_def)

lemma invD:
  assumes "sm_inv n s"
  shows "length (fibers s) = n" "\<not> aborted s" "counts_ok s" "j < n \<Longrightarrow> local_ok s (fibers s ! j)"
  using assms by (simp_all add: sm_inv_def)

lemma counts_okD:
  assumes "counts_ok s"
  shows "reader_quota s = kMaxReaders - cnt reading s - cnt read_waiting s - kMaxReaders * (cnt write_waiting s + cnt writing s)"
    "cnt write_waiting s + cnt writing s + cnt granting s + cnt has_writer_lock s = of_bool (writer_lock s \<noteq> None)"
    "cnt has_wakeup_lock s = of_bool (wakeup_lock s \<noteq> None)"
    "0 \<le> newly_granted_readers s" "newly_granted_readers s \<le> cnt read_waiting s" "0 \<le> exited_readers s"
    "cnt write_waiting s = 0 \<Longrightarrow> exited_readers s = 0" "cnt write_waiting s = 0 \<Longrightarrow> cnt exiting s = 0"
    "cnt writing s \<noteq> 0 \<Longrightarrow> cnt reading s = 0" "cnt writing s \<noteq> 0 \<Longrightarrow> newly_granted_readers s = 0"
    "cnt write_waiting s + cnt writing s + cnt granting s = 0 \<Longrightarrow> newly_granted_readers s = cnt read_waiting s"
    "newly_granted_readers s \<noteq> 0 \<Longrightarrow> cnt read_sleeping s = 0"
  using assms unfolding counts_ok_def by blast+

text \<open>At most one fiber is in a place of a writer, and the quota stays far from the bounds of its type.\<close>

lemma writers_le_1:
  assumes "counts_ok s"
  shows "cnt write_waiting s + cnt writing s + cnt granting s + cnt has_writer_lock s \<le> 1"
  using counts_okD(2) [OF assms] by simp

lemma quota_range:
  assumes inv: "sm_inv n s" and n: "int n < kMaxReaders"
  shows "- kMaxReaders < reader_quota s" "reader_quota s \<le> kMaxReaders"
    "cnt write_waiting s + cnt writing s \<in> {0, 1}" "cnt reading s + cnt read_waiting s \<le> int n"
proof -
  have "cnt reading s + cnt read_waiting s \<le> int n"
  proof -
    have "length (filter reading xs) + length (filter read_waiting xs) \<le> length xs" for xs
      by (induction xs) (auto simp: reading_def read_waiting_def split: pc.splits)
    then show ?thesis using invD(1) [OF inv] unfolding cnt_def by (metis of_nat_add of_nat_le_iff)
  qed
  moreover have w: "0 \<le> cnt write_waiting s + cnt writing s" "cnt write_waiting s + cnt writing s \<le> 1"
    using writers_le_1 [OF invD(3) [OF inv]] cnt_nonneg [of granting s] cnt_nonneg [of has_writer_lock s]
      cnt_nonneg [of write_waiting s] cnt_nonneg [of writing s] by linarith+
  then have w01: "cnt write_waiting s + cnt writing s = 0 \<or> cnt write_waiting s + cnt writing s = 1" by linarith
  ultimately show "- kMaxReaders < reader_quota s" "reader_quota s \<le> kMaxReaders"
    using counts_okD(1) [OF invD(3) [OF inv]] n cnt_nonneg [of reading s] cnt_nonneg [of read_waiting s] by auto
  show "cnt write_waiting s + cnt writing s \<in> {0, 1}" using w01 by simp
  show "cnt reading s + cnt read_waiting s \<le> int n" by fact
qed

lemma counts_okI:
  assumes "reader_quota s = kMaxReaders - cnt reading s - cnt read_waiting s - kMaxReaders * (cnt write_waiting s + cnt writing s)"
    "cnt write_waiting s + cnt writing s + cnt granting s + cnt has_writer_lock s = of_bool (writer_lock s \<noteq> None)"
    "cnt has_wakeup_lock s = of_bool (wakeup_lock s \<noteq> None)"
    "0 \<le> newly_granted_readers s" "newly_granted_readers s \<le> cnt read_waiting s" "0 \<le> exited_readers s"
    "cnt write_waiting s = 0 \<Longrightarrow> exited_readers s = 0" "cnt write_waiting s = 0 \<Longrightarrow> cnt exiting s = 0"
    "cnt writing s \<noteq> 0 \<Longrightarrow> cnt reading s = 0" "cnt writing s \<noteq> 0 \<Longrightarrow> newly_granted_readers s = 0"
    "cnt write_waiting s + cnt writing s + cnt granting s = 0 \<Longrightarrow> newly_granted_readers s = cnt read_waiting s"
    "newly_granted_readers s \<noteq> 0 \<Longrightarrow> cnt read_sleeping s = 0"
  shows "counts_ok s"
  using assms unfolding counts_ok_def by blast

lemma cnt_notify_groups:
  "cnt reading (notify_all s) = cnt reading s" "cnt read_waiting (notify_all s) = cnt read_waiting s"
  "cnt exiting (notify_all s) = cnt exiting s" "cnt write_waiting (notify_all s) = cnt write_waiting s"
  "cnt writing (notify_all s) = cnt writing s" "cnt granting (notify_all s) = cnt granting s"
  "cnt has_writer_lock (notify_all s) = cnt has_writer_lock s" "cnt has_wakeup_lock (notify_all s) = cnt has_wakeup_lock s"
  "cnt read_sleeping (notify_all s) = 0"
  by (simp_all add: cnt_notify cnt_zero)

text \<open>What the place of one fiber says about the two mutexes.\<close>

lemma wakeup_held:
  assumes "sm_inv n s" "i < n" "has_wakeup_lock (fibers s ! i)"
  shows "cnt has_wakeup_lock s = 1" "wakeup_lock s \<noteq> None"
  using counts_okD(3) [OF invD(3) [OF assms(1)]] cnt_pos [of i s has_wakeup_lock] invD(1) [OF assms(1)] assms(2,3)
  by (cases "wakeup_lock s = None"; simp)+

lemma wakeup_free: "sm_inv n s \<Longrightarrow> wakeup_lock s = None \<Longrightarrow> cnt has_wakeup_lock s = 0"
  using counts_okD(3) [OF invD(3)] by simp

lemma writer_held:
  assumes inv: "sm_inv n s" and i: "i < n"
    and q: "write_waiting (fibers s ! i) \<or> writing (fibers s ! i) \<or> granting (fibers s ! i) \<or> has_writer_lock (fibers s ! i)"
  shows "cnt write_waiting s + cnt writing s + cnt granting s + cnt has_writer_lock s = 1" "writer_lock s \<noteq> None"
    "cnt write_waiting s = of_bool (write_waiting (fibers s ! i))" "cnt writing s = of_bool (writing (fibers s ! i))"
    "cnt granting s = of_bool (granting (fibers s ! i))" "cnt has_writer_lock s = of_bool (has_writer_lock (fibers s ! i))"
proof -
  have p: "of_bool (P (fibers s ! i)) \<le> cnt P s" for P
    using cnt_pos [of i s P] cnt_nonneg [of P s] i invD(1) [OF inv] by (cases "P (fibers s ! i)") auto
  have one: "1 \<le> of_bool (write_waiting (fibers s ! i)) + of_bool (writing (fibers s ! i)) + of_bool (granting (fibers s ! i)) +
      (of_bool (has_writer_lock (fibers s ! i)) :: int)"
    using q by auto
  have le: "cnt write_waiting s + cnt writing s + cnt granting s + cnt has_writer_lock s \<le> 1"
    by (rule writers_le_1 [OF invD(3) [OF inv]])
  note p4 = p [of write_waiting] p [of writing] p [of granting] p [of has_writer_lock]
  show sum: "cnt write_waiting s + cnt writing s + cnt granting s + cnt has_writer_lock s = 1" using p4 one le by linarith
  then show "writer_lock s \<noteq> None" using counts_okD(2) [OF invD(3) [OF inv]] by (cases "writer_lock s = None") simp_all
  show "cnt write_waiting s = of_bool (write_waiting (fibers s ! i))" "cnt writing s = of_bool (writing (fibers s ! i))"
    "cnt granting s = of_bool (granting (fibers s ! i))" "cnt has_writer_lock s = of_bool (has_writer_lock (fibers s ! i))"
    using p4 one le by linarith+
qed

lemma writer_free:
  assumes "sm_inv n s" "writer_lock s = None"
  shows "cnt write_waiting s = 0" "cnt writing s = 0" "cnt granting s = 0" "cnt has_writer_lock s = 0"
  using counts_okD(2) [OF invD(3) [OF assms(1)]] assms(2) cnt_nonneg [of write_waiting s] cnt_nonneg [of writing s]
    cnt_nonneg [of granting s] cnt_nonneg [of has_writer_lock s]
  by simp_all

lemma granting_none:
  assumes "sm_inv n s" "newly_granted_readers s \<noteq> 0"
  shows "cnt granting s = 0"
  unfolding cnt_zero
proof
  fix q assume "q \<in> set (fibers s)"
  then have "local_ok s q" using assms(1) by (metis in_set_conv_nth sm_inv_def)
  then show "\<not> granting q" using assms(2) by (cases q) (simp_all add: local_ok_def granting_def)
qed

lemmas sm_simps = cnt_goto cnt_notify_groups group_defs

subsection \<open>Every step keeps it\<close>

lemma WaitForRead_inv:
  assumes inv: "sm_inv n s" and n: "int n < kMaxReaders" and i: "i < n" and s': "WaitForRead i s = Some s'"
  shows "sm_inv n s'"
proof -
  note c = counts_okD [OF invD(3) [OF inv]] and l = invD(1) [OF inv]
  consider (b) "fibers s ! i = R_blocked" | (c) "fibers s ! i = R_check"
    using s' by (auto simp: WaitForRead_def split: pc.splits)
  then show ?thesis
  proof cases
    case b
    then have k: "wakeup_lock s = None" and e: "s' = goto i R_check (s\<lparr>wakeup_lock := Some i\<rparr>)"
      using s' by (auto simp: WaitForRead_def take_wakeup_def split: if_splits)
    show ?thesis
    proof (rule inv_step [OF inv i, where q = R_check and w = id])
      show "counts_ok s'"
        by (rule counts_okI) (use c(1,2,4-) wakeup_free [OF inv k] in \<open>auto simp: e l i b sm_simps\<close>)
    qed (use invD(2) [OF inv] in \<open>simp_all add: e l i b local_ok_def sm_simps\<close>)
  next
    case c
    have w: "cnt has_wakeup_lock s = 1" using wakeup_held [OF inv i] c by (simp add: group_defs)
    have b: "1 \<le> cnt read_waiting s" using cnt_pos [of i s read_waiting] i l c by (simp add: group_defs)
    show ?thesis
    proof (cases "newly_granted_readers s = 0")
      case True
      then have e: "s' = goto i R_sleep (s\<lparr>wakeup_lock := None\<rparr>)" using s' c by (simp add: WaitForRead_def)
      show ?thesis
      proof (rule inv_step [OF inv i, where q = R_sleep and w = id])
        show "counts_ok s'"
          by (rule counts_okI) (use counts_okD(1,2,4-) [OF invD(3) [OF inv]] w b True in \<open>auto simp: e l i c sm_simps\<close>)
      qed (use invD(2) [OF inv] in \<open>simp_all add: e l i c local_ok_def sm_simps\<close>)
    next
      case False
      have "newly_granted_readers s \<le> int n"
        using counts_okD(5) [OF invD(3) [OF inv]] quota_range(4) [OF inv n] cnt_nonneg [of reading s] by linarith
      then have r: "wrap32 (newly_granted_readers s - 1) = newly_granted_readers s - 1"
        using counts_okD(4) [OF invD(3) [OF inv]] n by (intro wrap32_id) (simp_all add: kMaxReaders_def)
      have e: "s' = goto i R_in (s\<lparr>newly_granted_readers := newly_granted_readers s - 1, wakeup_lock := None\<rparr>)"
        using s' c False r by (simp add: WaitForRead_def)
      show ?thesis
      proof (rule inv_step [OF inv i, where q = R_in and w = id])
        show "counts_ok s'"
          by (rule counts_okI) (use counts_okD(1,2,4-) [OF invD(3) [OF inv]] w b False in \<open>auto simp: e l i c sm_simps\<close>)
      qed (use granting_none [OF inv False] invD(2) [OF inv] in \<open>auto simp: e l i c local_ok_def sm_simps\<close>)
    qed
  qed
qed

lemma lock_shared_inv:
  assumes inv: "sm_inv n s" and n: "int n < kMaxReaders" and i: "i < n" and s': "lock_shared i s = Some s'"
  shows "sm_inv n s'"
proof (cases "fibers s ! i = Outside")
  case False
  then have "WaitForRead i s = Some s'" using s' by (auto simp: lock_shared_def WaitForRead_def split: pc.splits)
  then show ?thesis by (rule WaitForRead_inv [OF inv n i])
next
  case q: True
  note c = counts_okD [OF invD(3) [OF inv]] and l = invD(1) [OF inv]
  have lt: "cnt reading s + cnt read_waiting s < int n" using counts_less [OF inv i] q by (simp add: group_defs)
  have nn: "0 \<le> cnt reading s" "0 \<le> cnt read_waiting s" "0 \<le> cnt granting s" by (rule cnt_nonneg)+
  have r: "wrap32 (reader_quota s - 1) = reader_quota s - 1"
    using quota_range(1,2) [OF inv n] by (intro wrap32_id) (simp_all add: kMaxReaders_def)
  have w: "cnt write_waiting s + cnt writing s = 0 \<or> cnt write_waiting s + cnt writing s = 1"
    using quota_range(3) [OF inv n] by simp
  show ?thesis
  proof (cases "reader_quota s > 1")
    case True
    then have "cnt write_waiting s + cnt writing s = 0" using w c(1) nn by auto
    then have z: "cnt write_waiting s = 0" "cnt writing s = 0"
      using cnt_nonneg [of write_waiting s] cnt_nonneg [of writing s] by linarith+
    have e: "s' = goto i R_in (s\<lparr>reader_quota := reader_quota s - 1\<rparr>)"
      using s' q True r quota_range(2) [OF inv n] by (simp add: lock_shared_def Let_def FLARE_CHECK_def)
    show ?thesis
    proof (rule inv_step [OF inv i, where q = R_in and w = id])
      show "counts_ok s'" by (rule counts_okI) (use c z in \<open>auto simp: e l i q sm_simps\<close>)
    qed (use z invD(2) [OF inv] in \<open>auto simp: e l i q local_ok_def sm_simps\<close>)
  next
    case False
    then have z: "cnt write_waiting s + cnt writing s = 1" using w c(1) lt n by auto
    then have g: "cnt granting s = 0"
      using writers_le_1 [OF invD(3) [OF inv]] nn cnt_nonneg [of has_writer_lock s] by linarith
    have "reader_quota s \<le> 0" using c(1) z nn by simp
    then have e: "s' = goto i R_blocked (s\<lparr>reader_quota := reader_quota s - 1\<rparr>)"
      using s' q False r by (simp add: lock_shared_def Let_def FLARE_CHECK_def)
    show ?thesis
    proof (rule inv_step [OF inv i, where q = R_blocked and w = id])
      show "counts_ok s'" by (rule counts_okI) (use c z g in \<open>auto simp: e l i q sm_simps\<close>)
    qed (use g invD(2) [OF inv] in \<open>auto simp: e l i q local_ok_def sm_simps\<close>)
  qed
qed

lemma try_lock_shared_inv:
  assumes inv: "sm_inv n s" and n: "int n < kMaxReaders" and i: "i < n" and s': "try_lock_shared fail i s = Some s'"
  shows "sm_inv n s'"
proof -
  note c = counts_okD [OF invD(3) [OF inv]] and l = invD(1) [OF inv] and a = invD(2) [OF inv]
  have d: "fibers s ! i = Outside \<or> (\<exists>was. fibers s ! i = TR_loop was)"
    using s' by (auto simp: try_lock_shared_def split: pc.splits)
  then have ot: "\<not> reading (fibers s ! i)" "\<not> read_waiting (fibers s ! i)" by (auto simp: group_defs)
  have lt: "cnt reading s + cnt read_waiting s < int n" by (rule counts_less [OF inv i ot])
  have nn: "0 \<le> cnt reading s" "0 \<le> cnt read_waiting s" by (rule cnt_nonneg)+
  have w: "cnt write_waiting s + cnt writing s = 0 \<or> cnt write_waiting s + cnt writing s = 1"
    using quota_range(3) [OF inv n] by simp
  have quota: "reader_quota s \<le> kMaxReaders \<and> reader_quota s \<noteq> 1" using c(1) w lt n nn by auto
  have loop: "sm_inv n (goto i (TR_loop (reader_quota s)) s)"
  proof (rule inv_step [OF inv i, where q = "TR_loop (reader_quota s)" and w = id])
    show "counts_ok (goto i (TR_loop (reader_quota s)) s)"
      by (rule counts_okI) (use c d in \<open>auto simp: l i sm_simps\<close>)
  qed (use d quota a in \<open>auto simp: l i local_ok_def sm_simps\<close>)
  from d consider (o) "fibers s ! i = Outside" | (t) was where "fibers s ! i = TR_loop was" by blast
  then show ?thesis
  proof cases
    case o
    then show ?thesis using s' loop by (simp add: try_lock_shared_def)
  next
    case q: (t was)
    have was: "was \<le> kMaxReaders" "was \<noteq> 1" using invD(4) [OF inv i] q by (simp_all add: local_ok_def)
    show ?thesis
    proof (cases "0 < was \<and> reader_quota s = was \<and> \<not> fail")
      case True
      then have "cnt write_waiting s + cnt writing s = 0" using w c(1) nn by auto
      then have z: "cnt write_waiting s = 0" "cnt writing s = 0"
        using cnt_nonneg [of write_waiting s] cnt_nonneg [of writing s] by linarith+
      have "wrap32 (reader_quota s - 1) = reader_quota s - 1"
        using quota_range(1,2) [OF inv n] by (intro wrap32_id) (simp_all add: kMaxReaders_def)
      then have e: "s' = goto i R_in (s\<lparr>reader_quota := reader_quota s - 1\<rparr>)"
        using s' q was True by (simp add: try_lock_shared_def FLARE_CHECK_def)
      show ?thesis
      proof (rule inv_step [OF inv i, where q = R_in and w = id])
        show "counts_ok s'" by (rule counts_okI) (use c z in \<open>auto simp: e l i q sm_simps\<close>)
      qed (use z a in \<open>auto simp: e l i q local_ok_def sm_simps\<close>)
    next
      case False
      then consider "s' = goto i Outside s" | "s' = goto i (TR_loop (reader_quota s)) s"
        using s' q was by (auto simp: try_lock_shared_def FLARE_CHECK_def split: if_splits)
      then show ?thesis
      proof cases
        case 1
        show ?thesis
        proof (rule inv_step [OF inv i, where q = Outside and w = id])
          show "counts_ok s'" by (rule counts_okI) (use c in \<open>auto simp: 1 l i q sm_simps\<close>)
        qed (use a in \<open>auto simp: 1 l i q local_ok_def sm_simps\<close>)
      qed (use loop in simp)
    qed
  qed
qed

lemma waiting_writer:
  assumes "sm_inv n s" "cnt write_waiting s \<noteq> 0"
  shows "exited_readers s + cnt exiting s + cnt reading s + newly_granted_readers s < kMaxReaders"
proof -
  obtain q where q: "q \<in> set (fibers s)" "write_waiting q" using assms(2) by (auto simp: cnt_zero)
  then have "local_ok s q" using assms(1) by (metis in_set_conv_nth sm_inv_def)
  then show ?thesis using q(2) by (auto simp: local_ok_def write_waiting_def)
qed

lemma WakeupWriter_inv:
  assumes inv: "sm_inv n s" and i: "i < n" and s': "WakeupWriter i s = Some s'"
  shows "sm_inv n s'"
proof -
  note c = counts_okD [OF invD(3) [OF inv]] and l = invD(1) [OF inv] and a = invD(2) [OF inv]
  consider (b) "fibers s ! i = R_waking" | (c) "fibers s ! i = R_counting"
    using s' by (auto simp: WakeupWriter_def split: pc.splits)
  then show ?thesis
  proof cases
    case q: b
    then have k: "wakeup_lock s = None" and e: "s' = goto i R_counting (s\<lparr>wakeup_lock := Some i\<rparr>)"
      using s' by (auto simp: WakeupWriter_def take_wakeup_def split: if_splits)
    show ?thesis
    proof (rule inv_step [OF inv i, where q = R_counting and w = id])
      show "counts_ok s'" by (rule counts_okI) (use c(1,2,4-) wakeup_free [OF inv k] in \<open>auto simp: e l i q sm_simps\<close>)
    qed (use a in \<open>simp_all add: e l i q local_ok_def sm_simps\<close>)
  next
    case q: c
    have w: "cnt has_wakeup_lock s = 1" using wakeup_held [OF inv i] q by (simp add: group_defs)
    have x: "1 \<le> cnt exiting s" using cnt_pos [of i s exiting] i l q by (simp add: group_defs)
    then have p: "cnt write_waiting s \<noteq> 0" using c(8) by auto
    have "exited_readers s + 1 < 2 ^ 31"
      using waiting_writer [OF inv p] x c(4) cnt_nonneg [of reading s] by (simp add: kMaxReaders_def)
    then have r: "wrap32 (exited_readers s + 1) = exited_readers s + 1" using c(6) by (intro wrap32_id) simp_all
    have e: "s' = goto i Outside (notify_all (s\<lparr>exited_readers := exited_readers s + 1, wakeup_lock := None\<rparr>))"
      using s' q r c(6) by (simp add: WakeupWriter_def FLARE_CHECK_def)
    show ?thesis
    proof (rule inv_step [OF inv i, where q = Outside and w = wake])
      show "counts_ok s'" by (rule counts_okI) (use c(1,2,4-) w x p in \<open>auto simp: e l i q sm_simps\<close>)
    qed (use a in \<open>simp_all add: e l i q local_ok_def sm_simps\<close>)
  qed
qed

lemma unlock_shared_inv:
  assumes inv: "sm_inv n s" and n: "int n < kMaxReaders" and i: "i < n" and s': "unlock_shared i s = Some s'"
  shows "sm_inv n s'"
proof (cases "fibers s ! i = R_in")
  case False
  then have "WakeupWriter i s = Some s'" using s' by (auto simp: unlock_shared_def WakeupWriter_def split: pc.splits)
  then show ?thesis by (rule WakeupWriter_inv [OF inv i])
next
  case q: True
  note c = counts_okD [OF invD(3) [OF inv]] and l = invD(1) [OF inv] and a = invD(2) [OF inv]
  have x: "1 \<le> cnt reading s" using cnt_pos [of i s reading] i l q by (simp add: group_defs)
  then have wr: "cnt writing s = 0" using c(9) by auto
  have nn: "0 \<le> cnt read_waiting s" by (rule cnt_nonneg)
  have r: "wrap32 (reader_quota s + 1) = reader_quota s + 1"
    using quota_range(1,2) [OF inv n] by (intro wrap32_id) (simp_all add: kMaxReaders_def)
  have w: "cnt write_waiting s = 0 \<or> cnt write_waiting s = 1" using quota_range(3) [OF inv n] wr by simp
  show ?thesis
  proof (cases "reader_quota s > 0")
    case True
    then have z: "cnt write_waiting s = 0" using w wr c(1) nn x by auto
    have "reader_quota s < kMaxReaders" using c(1) z wr nn x by simp
    then have e: "s' = goto i Outside (s\<lparr>reader_quota := reader_quota s + 1\<rparr>)"
      using s' q True r by (simp add: unlock_shared_def Let_def FLARE_CHECK_def)
    show ?thesis
    proof (rule inv_step [OF inv i, where q = Outside and w = id])
      show "counts_ok s'" by (rule counts_okI) (use c z wr in \<open>auto simp: e l i q sm_simps\<close>)
    qed (use z a in \<open>auto simp: e l i q local_ok_def sm_simps\<close>)
  next
    case False
    then have z: "cnt write_waiting s = 1" using w wr c(1) quota_range(4) [OF inv n] n by auto
    have e: "s' = goto i R_waking (s\<lparr>reader_quota := reader_quota s + 1\<rparr>)"
      using s' q False r by (simp add: unlock_shared_def Let_def)
    show ?thesis
    proof (rule inv_step [OF inv i, where q = R_waking and w = id])
      show "counts_ok s'" by (rule counts_okI) (use c z wr in \<open>auto simp: e l i q sm_simps\<close>)
    qed (use a in \<open>auto simp: e l i q local_ok_def sm_simps\<close>)
  qed
qed

lemma lock_inv:
  assumes inv: "sm_inv n s" and n: "int n < kMaxReaders" and i: "i < n" and s': "lock i s = Some s'"
  shows "sm_inv n s'"
proof -
  note c = counts_okD [OF invD(3) [OF inv]] and l = invD(1) [OF inv] and a = invD(2) [OF inv]
  consider (o) "fibers s ! i = Outside" | (e) "fibers s ! i = W_enter" | (s) "fibers s ! i = W_sub"
    | (b) m where "fibers s ! i = W_blocked m" | (c) m where "fibers s ! i = W_check m"
    using s' by (auto simp: lock_def split: pc.splits)
  then show ?thesis
  proof cases
    case q: o
    then have e: "s' = goto i W_enter s" using s' by (simp add: lock_def)
    show ?thesis
    proof (rule inv_step [OF inv i, where q = W_enter and w = id])
      show "counts_ok s'" by (rule counts_okI) (use c in \<open>auto simp: e l i q sm_simps\<close>)
    qed (use a in \<open>simp_all add: e l i q local_ok_def sm_simps\<close>)
  next
    case q: e
    then have k: "writer_lock s = None" and e: "s' = goto i W_sub (s\<lparr>writer_lock := Some i\<rparr>)"
      using s' by (auto simp: lock_def split: if_splits)
    show ?thesis
    proof (rule inv_step [OF inv i, where q = W_sub and w = id])
      show "counts_ok s'" by (rule counts_okI) (use c(1,3-) writer_free [OF inv k] in \<open>auto simp: e l i q sm_simps\<close>)
    qed (use a in \<open>simp_all add: e l i q local_ok_def sm_simps\<close>)
  next
    case q: s
    have z: "cnt write_waiting s = 0" "cnt writing s = 0" "cnt granting s = 0" "cnt has_writer_lock s = 1" "writer_lock s \<noteq> None"
      using writer_held [OF inv i] q by (simp_all add: group_defs)
    have nn: "0 \<le> cnt reading s" "0 \<le> cnt read_waiting s" by (rule cnt_nonneg)+
    have lt: "cnt reading s + cnt read_waiting s < int n" using counts_less [OF inv i] q by (simp add: group_defs)
    have quota: "reader_quota s = kMaxReaders - cnt reading s - cnt read_waiting s" using c(1) z by simp
    have r: "wrap32 (reader_quota s - kMaxReaders) = reader_quota s - kMaxReaders"
      "wrap32 (kMaxReaders - reader_quota s) = kMaxReaders - reader_quota s"
      using quota_range(1,2) [OF inv n] by (intro wrap32_id; simp add: kMaxReaders_def)+
    show ?thesis
    proof (cases "reader_quota s = kMaxReaders")
      case True
      then have ab: "cnt reading s = 0" "cnt read_waiting s = 0" using quota nn by linarith+
      have e: "s' = goto i W_in (s\<lparr>reader_quota := reader_quota s - kMaxReaders\<rparr>)"
        using s' q True r by (simp add: lock_def Let_def)
      show ?thesis
      proof (rule inv_step [OF inv i, where q = W_in and w = id])
        show "counts_ok s'" by (rule counts_okI) (use c(3-) z ab quota in \<open>auto simp: e l i q sm_simps\<close>)
      qed (use a in \<open>simp_all add: e l i q local_ok_def sm_simps\<close>)
    next
      case False
      have e: "s' = goto i (W_blocked (kMaxReaders - reader_quota s)) (s\<lparr>reader_quota := reader_quota s - kMaxReaders\<rparr>)"
        using s' q False r quota lt n nn by (simp add: lock_def Let_def FLARE_CHECK_def)
      have g: "newly_granted_readers s = cnt read_waiting s" "exited_readers s = 0" "cnt exiting s = 0" using c(7,8,11) z by simp_all
      show ?thesis
      proof (rule inv_step [OF inv i, where q = "W_blocked (kMaxReaders - reader_quota s)" and w = id])
        show "counts_ok s'" by (rule counts_okI) (use c(3-) z quota in \<open>auto simp: e l i q sm_simps\<close>)
      qed (use a g quota lt n in \<open>simp_all add: e l i q local_ok_def sm_simps\<close>)
    qed
  next
    case q: (b m)
    then have k: "wakeup_lock s = None" and e: "s' = goto i (W_check m) (s\<lparr>wakeup_lock := Some i\<rparr>)"
      using s' by (auto simp: lock_def take_wakeup_def split: if_splits)
    show ?thesis
    proof (rule inv_step [OF inv i, where q = "W_check m" and w = id])
      show "counts_ok s'" by (rule counts_okI) (use c(1,2,4-) wakeup_free [OF inv k] in \<open>auto simp: e l i q sm_simps\<close>)
    qed (use a invD(4) [OF inv i] in \<open>simp_all add: e l i q local_ok_def sm_simps\<close>)
  next
    case q: (c m)
    have w: "cnt has_wakeup_lock s = 1" using wakeup_held [OF inv i] q by (simp add: group_defs)
    have z: "cnt write_waiting s = 1" "cnt writing s = 0" "cnt granting s = 0" "cnt has_writer_lock s = 0" "writer_lock s \<noteq> None"
      using writer_held [OF inv i] q by (simp_all add: group_defs)
    have m: "m = exited_readers s + cnt exiting s + cnt reading s + newly_granted_readers s" "m < kMaxReaders"
      using invD(4) [OF inv i] q by (simp_all add: local_ok_def pending_def)
    show ?thesis
    proof (cases "exited_readers s = m")
      case True
      then have ab: "cnt reading s = 0" "cnt exiting s = 0" "newly_granted_readers s = 0"
        using m counts_okD(4) [OF invD(3) [OF inv]] cnt_nonneg [of reading s] cnt_nonneg [of exiting s] by linarith+
      have e: "s' = goto i W_in (s\<lparr>exited_readers := 0, wakeup_lock := None\<rparr>)" using s' q True by (simp add: lock_def)
      show ?thesis
      proof (rule inv_step [OF inv i, where q = W_in and w = id])
        show "counts_ok s'"
          by (rule counts_okI) (use counts_okD(1,4-) [OF invD(3) [OF inv]] z ab w in \<open>auto simp: e l i q sm_simps\<close>)
      qed (use a z in \<open>simp_all add: e l i q local_ok_def sm_simps\<close>)
    next
      case False
      have e: "s' = goto i (W_sleep m) (s\<lparr>wakeup_lock := None\<rparr>)" using s' q False by (simp add: lock_def)
      show ?thesis
      proof (rule inv_step [OF inv i, where q = "W_sleep m" and w = id])
        show "counts_ok s'"
          by (rule counts_okI) (use counts_okD(1,2,4-) [OF invD(3) [OF inv]] z w in \<open>auto simp: e l i q sm_simps\<close>)
      qed (use a m False in \<open>simp_all add: e l i q local_ok_def sm_simps\<close>)
    qed
  qed
qed

lemma try_lock_inv:
  assumes inv: "sm_inv n s" and n: "int n < kMaxReaders" and i: "i < n" and s': "try_lock fail i s = Some s'"
  shows "sm_inv n s'"
proof -
  note c = counts_okD [OF invD(3) [OF inv]] and l = invD(1) [OF inv] and a = invD(2) [OF inv]
  consider (o) "fibers s ! i = Outside" | (t) "fibers s ! i = TW_load \<or> (\<exists>was. fibers s ! i = TW_loop was)"
    using s' by (auto simp: try_lock_def split: pc.splits)
  then show ?thesis
  proof cases
    case q: o
    show ?thesis
    proof (cases "writer_lock s = None")
      case False
      then show ?thesis using s' q inv by (simp add: try_lock_def)
    next
      case k: True
      then have e: "s' = goto i TW_load (s\<lparr>writer_lock := Some i\<rparr>)" using s' q by (simp add: try_lock_def)
      show ?thesis
      proof (rule inv_step [OF inv i, where q = TW_load and w = id])
        show "counts_ok s'" by (rule counts_okI) (use c(1,3-) writer_free [OF inv k] in \<open>auto simp: e l i q sm_simps\<close>)
      qed (use a in \<open>simp_all add: e l i q local_ok_def sm_simps\<close>)
    qed
  next
    case t
    then have g: "\<not> reading (fibers s ! i)" "\<not> read_waiting (fibers s ! i)" "\<not> read_sleeping (fibers s ! i)" "\<not> exiting (fibers s ! i)"
      "\<not> write_waiting (fibers s ! i)" "\<not> writing (fibers s ! i)" "\<not> granting (fibers s ! i)"
      "has_writer_lock (fibers s ! i)" "\<not> has_wakeup_lock (fibers s ! i)"
      by (auto simp: group_defs)
    have z: "cnt write_waiting s = 0" "cnt writing s = 0" "cnt granting s = 0" "cnt has_writer_lock s = 1" "writer_lock s \<noteq> None"
      using writer_held [OF inv i] g by simp_all
    have nn: "0 \<le> cnt reading s" "0 \<le> cnt read_waiting s" by (rule cnt_nonneg)+
    from t s' consider (loop) "s' = goto i (TW_loop (reader_quota s)) s" | (no) "s' = goto i Outside (s\<lparr>writer_lock := None\<rparr>)"
      | (yes) "reader_quota s = kMaxReaders" "s' = goto i W_in (s\<lparr>reader_quota := 0\<rparr>)"
      by (auto simp: try_lock_def split: if_splits)
    then show ?thesis
    proof cases
      case e: loop
      show ?thesis
      proof (rule inv_step [OF inv i, where q = "TW_loop (reader_quota s)" and w = id])
        show "counts_ok s'" by (rule counts_okI) (use c z in \<open>simp_all add: e l i g cnt_goto, simp_all add: group_defs\<close>)
      qed (use a z in \<open>simp_all add: e l i g local_ok_def cnt_goto, simp_all add: group_defs\<close>)
    next
      case e: no
      show ?thesis
      proof (rule inv_step [OF inv i, where q = Outside and w = id])
        show "counts_ok s'" by (rule counts_okI) (use c z in \<open>simp_all add: e l i g cnt_goto, simp_all add: group_defs\<close>)
      qed (use a z in \<open>simp_all add: e l i g local_ok_def cnt_goto, simp_all add: group_defs\<close>)
    next
      case e: yes
      have ab: "cnt reading s = 0" "cnt read_waiting s = 0" using e(1) c(1) z nn by simp_all
      show ?thesis
      proof (rule inv_step [OF inv i, where q = W_in and w = id])
        show "counts_ok s'" by (rule counts_okI) (use c z ab in \<open>simp_all add: e(2) l i g cnt_goto, simp_all add: group_defs\<close>)
      qed (use a z in \<open>simp_all add: e(2) l i g local_ok_def cnt_goto, simp_all add: group_defs\<close>)
    qed
  qed
qed

lemma unlock_inv:
  assumes inv: "sm_inv n s" and n: "int n < kMaxReaders" and i: "i < n" and s': "unlock i s = Some s'"
  shows "sm_inv n s'"
proof -
  note c = counts_okD [OF invD(3) [OF inv]] and l = invD(1) [OF inv] and a = invD(2) [OF inv]
  consider (i) "fibers s ! i = W_in" | (b) "fibers s ! i = U_begin" | (a) "fibers s ! i = U_add"
    | (g) was where "fibers s ! i = U_grant was" | (w) "fibers s ! i = U_writer" | (l) "fibers s ! i = U_leave"
    using s' by (auto simp: unlock_def split: pc.splits)
  then show ?thesis
  proof cases
    case q: i
    then have e: "s' = goto i U_begin s" using s' by (simp add: unlock_def)
    show ?thesis
    proof (rule inv_step [OF inv i, where q = U_begin and w = id])
      show "counts_ok s'" by (rule counts_okI) (use c in \<open>auto simp: e l i q sm_simps\<close>)
    qed (use a in \<open>simp_all add: e l i q local_ok_def sm_simps\<close>)
  next
    case q: b
    then have k: "wakeup_lock s = None" and e: "s' = goto i U_add (s\<lparr>wakeup_lock := Some i\<rparr>)"
      using s' by (auto simp: unlock_def take_wakeup_def split: if_splits)
    show ?thesis
    proof (rule inv_step [OF inv i, where q = U_add and w = id])
      show "counts_ok s'" by (rule counts_okI) (use c(1,2,4-) wakeup_free [OF inv k] in \<open>auto simp: e l i q sm_simps\<close>)
    qed (use a in \<open>simp_all add: e l i q local_ok_def sm_simps\<close>)
  next
    case q: a
    have z: "cnt write_waiting s = 0" "cnt writing s = 1" "cnt granting s = 0" "cnt has_writer_lock s = 0" "writer_lock s \<noteq> None"
      using writer_held [OF inv i] q by (simp_all add: group_defs)
    have ab: "cnt reading s = 0" "newly_granted_readers s = 0" using c(9,10) z by simp_all
    have nn: "0 \<le> cnt read_waiting s" by (rule cnt_nonneg)
    have lt: "cnt read_waiting s < int n" using counts_less [OF inv i] q ab by (simp add: group_defs)
    have quota: "reader_quota s = - cnt read_waiting s" using c(1) z ab by simp
    have r: "wrap32 (reader_quota s + kMaxReaders) = reader_quota s + kMaxReaders"
      using quota nn lt n by (intro wrap32_id) (simp_all add: kMaxReaders_def)
    let ?q = "if reader_quota s \<noteq> 0 then U_grant (reader_quota s) else U_writer"
    have e: "s' = goto i ?q (s\<lparr>reader_quota := reader_quota s + kMaxReaders\<rparr>)"
      using s' q r quota nn lt n by (auto simp: unlock_def Let_def FLARE_CHECK_def)
    show ?thesis
    proof (cases "cnt read_waiting s = 0")
      case True
      then have e: "s' = goto i U_writer (s\<lparr>reader_quota := reader_quota s + kMaxReaders\<rparr>)" using e quota by simp
      show ?thesis
      proof (rule inv_step [OF inv i, where q = U_writer and w = id])
        show "counts_ok s'" by (rule counts_okI) (use c(3-) z ab quota True in \<open>auto simp: e l i q sm_simps\<close>)
      qed (use a z in \<open>simp_all add: e l i q local_ok_def sm_simps\<close>)
    next
      case False
      then have e: "s' = goto i (U_grant (reader_quota s)) (s\<lparr>reader_quota := reader_quota s + kMaxReaders\<rparr>)" using e quota by simp
      show ?thesis
      proof (rule inv_step [OF inv i, where q = "U_grant (reader_quota s)" and w = id])
        show "counts_ok s'" by (rule counts_okI) (use c(3-) z ab quota in \<open>auto simp: e l i q sm_simps\<close>)
      qed (use a z ab quota in \<open>simp_all add: e l i q local_ok_def sm_simps\<close>)
    qed
  next
    case q: (g was)
    have z: "cnt write_waiting s = 0" "cnt writing s = 0" "cnt granting s = 1" "cnt has_writer_lock s = 0" "writer_lock s \<noteq> None"
      using writer_held [OF inv i] q by (simp_all add: group_defs)
    have w: "newly_granted_readers s = 0" "- was = cnt read_waiting s" using invD(4) [OF inv i] q by (simp_all add: local_ok_def group_defs)
    have "cnt read_waiting s \<le> int n" using quota_range(4) [OF inv n] cnt_nonneg [of reading s] by linarith
    then have "wrap32 (- was) = - was" using w(2) n cnt_nonneg [of read_waiting s] by (intro wrap32_id) (simp_all add: kMaxReaders_def)
    then have e: "s' = goto i U_writer (notify_all (s\<lparr>newly_granted_readers := cnt read_waiting s\<rparr>))"
      using s' q w by (simp add: unlock_def)
    show ?thesis
    proof (rule inv_step [OF inv i, where q = U_writer and w = wake])
      show "counts_ok s'" by (rule counts_okI) (use c z w cnt_nonneg [of read_waiting s] in \<open>auto simp: e l i q sm_simps\<close>)
    qed (use a z in \<open>simp_all add: e l i q local_ok_def sm_simps\<close>)
  next
    case q: w
    have z: "cnt write_waiting s = 0" "cnt writing s = 0" "cnt granting s = 0" "cnt has_writer_lock s = 1" "writer_lock s \<noteq> None"
      using writer_held [OF inv i] q by (simp_all add: group_defs)
    have e: "s' = goto i U_leave (s\<lparr>writer_lock := None\<rparr>)" using s' q by (simp add: unlock_def)
    show ?thesis
    proof (rule inv_step [OF inv i, where q = U_leave and w = id])
      show "counts_ok s'" by (rule counts_okI) (use c z in \<open>auto simp: e l i q sm_simps\<close>)
    qed (use a z in \<open>simp_all add: e l i q local_ok_def sm_simps\<close>)
  next
    case q: l
    have w: "cnt has_wakeup_lock s = 1" using wakeup_held [OF inv i] q by (simp add: group_defs)
    have e: "s' = goto i Outside (s\<lparr>wakeup_lock := None\<rparr>)" using s' q by (simp add: unlock_def)
    show ?thesis
    proof (rule inv_step [OF inv i, where q = Outside and w = id])
      show "counts_ok s'" by (rule counts_okI) (use c(1,2,4-) w in \<open>auto simp: e l i q sm_simps\<close>)
    qed (use a in \<open>simp_all add: e l i q local_ok_def sm_simps\<close>)
  qed
qed

lemma spurious_inv:
  assumes inv: "sm_inv n s" and i: "i < n"
  shows "sm_inv n (goto i (wake (fibers s ! i)) s)"
proof -
  note c = counts_okD [OF invD(3) [OF inv]] and l = invD(1) [OF inv]
  have sl: "of_bool (read_sleeping (fibers s ! i)) \<le> cnt read_sleeping s"
    using cnt_pos [of i s read_sleeping] cnt_nonneg [of read_sleeping s] i l by (cases "read_sleeping (fibers s ! i)") auto
  show ?thesis
  proof (rule inv_step [OF inv i, where q = "wake (fibers s ! i)" and w = id])
    show "counts_ok (goto i (wake (fibers s ! i)) s)"
      by (rule counts_okI) (use c sl in \<open>auto simp: l i cnt_goto\<close>)
    show "local_ok (goto i (wake (fibers s ! i)) s) (wake (fibers s ! i))"
      using invD(4) [OF inv i] by (cases "fibers s ! i") (simp_all add: l i local_ok_def cnt_goto pending_def, simp_all add: group_defs)
  qed (use invD(2) [OF inv] in \<open>simp_all add: l i cnt_goto\<close>)
qed

lemma SharedMutex_inv: "sm_inv n (SharedMutex n)"
proof -
  have z: "cnt P (SharedMutex n) = (if P Outside then int n else 0)" for P
    by (simp add: cnt_def SharedMutex_def filter_replicate)
  show ?thesis by (simp add: sm_inv_def counts_ok_def z) (simp add: SharedMutex_def local_ok_def group_defs)
qed

lemma resume_inv: "sm_inv n s \<Longrightarrow> int n < kMaxReaders \<Longrightarrow> i < n \<Longrightarrow> resume fail i s = Some s' \<Longrightarrow> sm_inv n s'"
  by (auto simp: resume_def intro: lock_shared_inv unlock_shared_inv try_lock_shared_inv lock_inv try_lock_inv unlock_inv
      split: pc.splits)

lemma calls_inv: "sm_inv n s \<Longrightarrow> int n < kMaxReaders \<Longrightarrow> i < n \<Longrightarrow> Some s' \<in> set (calls i s) \<Longrightarrow> sm_inv n s'"
  by (auto simp: calls_def dest!: sym [of "Some s'"]
      intro: lock_shared_inv unlock_shared_inv try_lock_shared_inv lock_inv try_lock_inv unlock_inv split: pc.splits)

lemma reachable_inv:
  assumes "reachable n s" "int n < kMaxReaders"
  shows "sm_inv n s"
  using assms
proof (induction rule: reachable.induct)
  case (step s s')
  note inv = step.IH [OF step.prems]
  show ?case using step.hyps(2)
  proof cases
    case (resume i fail)
    then show ?thesis using resume_inv [OF inv step.prems] invD(1) [OF inv] by simp
  next
    case (call i)
    then show ?thesis using calls_inv [OF inv step.prems] invD(1) [OF inv] by simp
  next
    case (spurious i)
    then show ?thesis using spurious_inv [OF inv] invD(1) [OF inv] by simp
  qed
qed (rule SharedMutex_inv)

section \<open>Exclusion\<close>

lemma cnt_two:
  assumes "i < length (fibers s)" "j < length (fibers s)" "i \<noteq> j" "P (fibers s ! i)" "P (fibers s ! j)"
  shows "2 \<le> cnt P s"
proof (cases "P Outside")
  case False
  then have "cnt P (goto i Outside s) = cnt P s - 1" using assms by (simp add: cnt_goto)
  moreover have "1 \<le> cnt P (goto i Outside s)" using assms by (intro cnt_pos [of j]) simp_all
  ultimately show ?thesis by simp
next
  case True
  have "card {i, j} \<le> card {k. k < length (fibers s) \<and> P (fibers s ! k)}" using assms by (intro card_mono) auto
  then show ?thesis using assms(3) by (simp add: cnt_def length_filter_conv_card)
qed

lemma writer_alone:
  assumes inv: "sm_inv n s" and "i < n" "j < n" "i \<noteq> j" and w: "fibers s ! i = W_in"
  shows "fibers s ! j \<noteq> W_in \<and> fibers s ! j \<noteq> R_in"
proof -
  have one: "cnt writing s = 1" using writer_held(4) [OF inv assms(2)] w by (simp add: group_defs)
  have "cnt reading s = 0" using counts_okD(9) [OF invD(3) [OF inv]] one by simp
  then have "\<not> reading (fibers s ! j)" using cnt_zero_nth invD(1) [OF inv] assms(3) by blast
  moreover have "\<not> writing (fibers s ! j)"
    using cnt_two [of i s j writing] one w invD(1) [OF inv] assms(2-4) by (auto simp: writing_def)
  ultimately show ?thesis by (auto simp: group_defs)
qed

section \<open>Progress\<close>

text \<open>Steps that will notify sleepers, the steps left in a function if nothing wakes the fiber again, and the copies of the
  quota that are out of date.\<close>

definition notifier :: "pc \<Rightarrow> nat" where
  "notifier q = (case q of R_waking \<Rightarrow> 1 | R_counting \<Rightarrow> 1 | U_begin \<Rightarrow> 1 | U_add \<Rightarrow> 1 | U_grant _ \<Rightarrow> 1 | _ \<Rightarrow> 0)"

definition steps_left :: "pc \<Rightarrow> nat" where
  "steps_left q =
     (case q of R_blocked \<Rightarrow> 2 | R_check \<Rightarrow> 1 | R_waking \<Rightarrow> 2 | R_counting \<Rightarrow> 1 | TR_loop _ \<Rightarrow> 1
      | W_enter \<Rightarrow> 4 | W_sub \<Rightarrow> 3 | W_blocked _ \<Rightarrow> 2 | W_check _ \<Rightarrow> 1 | TW_load \<Rightarrow> 2 | TW_loop _ \<Rightarrow> 1
      | U_begin \<Rightarrow> 5 | U_add \<Rightarrow> 4 | U_grant _ \<Rightarrow> 3 | U_writer \<Rightarrow> 2 | U_leave \<Rightarrow> 1 | _ \<Rightarrow> 0)"

definition stale :: "int \<Rightarrow> pc \<Rightarrow> nat" where
  "stale quota q = (case q of TR_loop was \<Rightarrow> of_bool (was \<noteq> quota) | TW_loop was \<Rightarrow> of_bool (was \<noteq> quota) | _ \<Rightarrow> 0)"

definition sum_of :: "(pc \<Rightarrow> nat) \<Rightarrow> pc list \<Rightarrow> nat" where
  "sum_of w qs = sum_list (map w qs)"

definition work :: "shared_mutex \<Rightarrow> nat \<times> nat \<times> nat" where
  "work s = (sum_of notifier (fibers s), sum_of steps_left (fibers s), sum_of (stale (reader_quota s)) (fibers s))"

definition closer :: "shared_mutex \<Rightarrow> shared_mutex \<Rightarrow> bool" where
  "closer s' s \<longleftrightarrow> (work s', work s) \<in> less_than <*lex*> less_than <*lex*> less_than"

lemma sum_of_update: "i < length qs \<Longrightarrow> sum_of w (qs[i := q]) + w (qs ! i) = sum_of w qs + w q"
proof (induction qs arbitrary: i)
  case (Cons x qs)
  then show ?case by (cases i) (auto simp: sum_of_def)
qed simp

lemma sum_of_wake: "sum_of notifier (map wake qs) = sum_of notifier qs"
proof -
  have "notifier \<circ> wake = notifier" by (rule ext) (case_tac x; simp add: notifier_def)
  then show ?thesis by (simp add: sum_of_def)
qed

text \<open>The three ways in which a step comes closer to the end.\<close>

lemma closer_notify:
  assumes "i < length (fibers s)" "fibers s' = (map wake (fibers s))[i := q]" "notifier q < notifier (fibers s ! i)"
  shows "closer s' s"
proof -
  have "notifier (wake (fibers s ! i)) = notifier (fibers s ! i)" by (cases "fibers s ! i") (simp_all add: notifier_def)
  then have "sum_of notifier (fibers s') < sum_of notifier (fibers s)"
    using sum_of_update [of i "map wake (fibers s)" notifier q] assms by (simp add: sum_of_wake)
  then show ?thesis by (simp add: closer_def work_def)
qed

lemma closer_advance:
  assumes "i < length (fibers s)" "fibers s' = (fibers s)[i := q]"
    "notifier q \<le> notifier (fibers s ! i)" "steps_left q < steps_left (fibers s ! i)"
  shows "closer s' s"
proof -
  have "sum_of notifier (fibers s') \<le> sum_of notifier (fibers s)" "sum_of steps_left (fibers s') < sum_of steps_left (fibers s)"
    using sum_of_update [OF assms(1), of notifier q] sum_of_update [OF assms(1), of steps_left q] assms(2-4) by simp_all
  then show ?thesis by (auto simp: closer_def work_def)
qed

lemma closer_retry:
  assumes "i < length (fibers s)" "fibers s' = (fibers s)[i := q]" "reader_quota s' = reader_quota s"
    "notifier q = notifier (fibers s ! i)" "steps_left q = steps_left (fibers s ! i)"
    "stale (reader_quota s) q < stale (reader_quota s) (fibers s ! i)"
  shows "closer s' s"
  using sum_of_update [OF assms(1), of notifier q] sum_of_update [OF assms(1), of steps_left q]
    sum_of_update [OF assms(1), of "stale (reader_quota s)" q] assms(2-6)
  by (simp add: closer_def work_def)

lemmas place_defs = notifier_def steps_left_def stale_def

lemma closer_check: "FLARE_CHECK b t t' = Some s' \<Longrightarrow> \<not> aborted s' \<Longrightarrow> s' = t'"
  by (auto simp: FLARE_CHECK_def split: if_splits)

lemma reader_closer:
  assumes i: "i < length (fibers s)" and a: "\<not> aborted s'" and q: "fibers s ! i \<noteq> Outside"
    and s': "lock_shared i s = Some s' \<or> try_lock_shared False i s = Some s'"
  shows "closer s' s"
proof -
  consider (w) "WaitForRead i s = Some s'" | (t) was where "fibers s ! i = TR_loop was" "try_lock_shared False i s = Some s'"
    using s' q by (cases "fibers s ! i") (auto simp: lock_shared_def try_lock_shared_def)
  then show ?thesis
  proof cases
    case w
    then obtain q where "fibers s' = (fibers s)[i := q]" "steps_left q < steps_left (fibers s ! i)" "notifier q = 0"
      by (cases "fibers s ! i") (auto simp: WaitForRead_def take_wakeup_def place_defs split: if_splits)
    then show ?thesis by (intro closer_advance [OF i]) simp_all
  next
    case (t was)
    then have e: "s' = (if was \<le> 0 then goto i Outside s
             else if reader_quota s = was then goto i R_in (s\<lparr>reader_quota := wrap32 (was - 1)\<rparr>)
             else goto i (TR_loop (reader_quota s)) s)"
      using a by (auto simp: try_lock_shared_def dest!: closer_check)
    show ?thesis
    proof (cases "was \<le> 0 \<or> reader_quota s = was")
      case True
      then show ?thesis using e t(1) by (intro closer_advance [OF i, of _ "if was \<le> 0 then Outside else R_in"]) (auto simp: place_defs)
    next
      case False
      then show ?thesis using e t(1) by (intro closer_retry [OF i, of _ "TR_loop (reader_quota s)"]) (auto simp: place_defs)
    qed
  qed
qed

lemma exit_closer:
  assumes i: "i < length (fibers s)" and a: "\<not> aborted s'" and s': "WakeupWriter i s = Some s'"
  shows "closer s' s"
proof -
  consider (w) "fibers s ! i = R_waking" | (c) "fibers s ! i = R_counting"
    using s' by (auto simp: WakeupWriter_def split: pc.splits)
  then show ?thesis
  proof cases
    case w
    then show ?thesis using s'
      by (intro closer_advance [OF i, of _ R_counting]) (auto simp: WakeupWriter_def take_wakeup_def place_defs split: if_splits)
  next
    case c
    then show ?thesis using s' a
      by (intro closer_notify [OF i, of _ Outside]) (auto simp: WakeupWriter_def place_defs dest!: closer_check)
  qed
qed

lemma writer_closer:
  assumes i: "i < length (fibers s)" and a: "\<not> aborted s'" and q: "fibers s ! i \<noteq> Outside"
    and s': "lock i s = Some s' \<or> try_lock False i s = Some s'"
  shows "closer s' s"
proof (cases "\<exists>was. fibers s ! i = TW_loop was \<and> was = kMaxReaders \<and> reader_quota s \<noteq> was")
  case True
  then show ?thesis using s'
    by (intro closer_retry [OF i, of _ "TW_loop (reader_quota s)"]) (auto simp: lock_def try_lock_def place_defs)
next
  case False
  then have "\<exists>q. fibers s' = (fibers s)[i := q] \<and> steps_left q < steps_left (fibers s ! i) \<and> notifier q = 0"
    using s' q a
    by (cases "fibers s ! i")
      (auto simp: lock_def try_lock_def Let_def take_wakeup_def place_defs dest!: closer_check split: if_splits)
  then show ?thesis using closer_advance [OF i] by (metis le0)
qed

lemma unlock_closer:
  assumes i: "i < length (fibers s)" and a: "\<not> aborted s'" and q: "fibers s ! i \<noteq> W_in" and s': "unlock i s = Some s'"
  shows "closer s' s"
proof (cases "\<exists>was. fibers s ! i = U_grant was")
  case True
  then show ?thesis using s' by (intro closer_notify [OF i, of _ U_writer]) (auto simp: unlock_def place_defs)
next
  case False
  then have "\<exists>q. fibers s' = (fibers s)[i := q] \<and> steps_left q < steps_left (fibers s ! i) \<and> notifier q \<le> notifier (fibers s ! i)"
    using s' q a
    by (cases "fibers s ! i") (auto simp: unlock_def Let_def take_wakeup_def place_defs dest!: closer_check split: if_splits)
  then show ?thesis using closer_advance [OF i] by blast
qed

lemma resume_closer:
  assumes i: "i < length (fibers s)" and a: "\<not> aborted s'" and s': "resume False i s = Some s'"
  shows "closer s' s"
proof (cases "fibers s ! i = R_waking \<or> fibers s ! i = R_counting")
  case True
  then show ?thesis using s' exit_closer [OF i a] by (auto simp: resume_def unlock_shared_def)
next
  case False
  then consider "lock_shared i s = Some s' \<or> try_lock_shared False i s = Some s'"
    | "lock i s = Some s' \<or> try_lock False i s = Some s'" | "unlock i s = Some s'" "fibers s ! i \<noteq> W_in"
    using s' by (cases "fibers s ! i") (simp_all add: resume_def)
  moreover have "fibers s ! i \<noteq> Outside" using s' by (auto simp: resume_def)
  ultimately show ?thesis using reader_closer [OF i a] writer_closer [OF i a] unlock_closer [OF i a] by blast
qed

lemma closer_wf: "wf {(s', s). closer s' s}"
proof -
  have "wf (inv_image (less_than <*lex*> less_than <*lex*> less_than) work)" by auto
  then show ?thesis by (rule wf_subset) (auto simp: closer_def)
qed

text \<open>A lock nobody can take a step in is held by some fiber, or no fiber is inside any of its functions.\<close>

lemma stuck_places:
  assumes inv: "sm_inv n s" and stuck: "\<And>i. i < n \<Longrightarrow> resume False i s = None" and i: "i < n"
  shows "wakeup_lock s = None" and "fibers s ! i \<in> {Outside, R_in, W_in, R_sleep, W_enter} \<or> (\<exists>m. fibers s ! i = W_sleep m)"
    and "fibers s ! i = W_enter \<Longrightarrow> writer_lock s \<noteq> None"
proof -
  have run: "resume False j s \<noteq> None" if "has_wakeup_lock (fibers s ! j)" for j
    using that by (cases "fibers s ! j")
      (auto simp: has_wakeup_lock_def resume_def lock_shared_def WaitForRead_def unlock_shared_def WakeupWriter_def lock_def
        unlock_def FLARE_CHECK_def Let_def)
  have "\<not> has_wakeup_lock q" if "q \<in> set (fibers s)" for q
    using that run stuck invD(1) [OF inv] by (metis in_set_conv_nth)
  then show w: "wakeup_lock s = None" using counts_okD(3) [OF invD(3) [OF inv]] cnt_zero [of has_wakeup_lock s] by (cases "wakeup_lock s") auto
  show "fibers s ! i \<in> {Outside, R_in, W_in, R_sleep, W_enter} \<or> (\<exists>m. fibers s ! i = W_sleep m)"
    using stuck [OF i] w run [of i]
    by (cases "fibers s ! i")
      (auto simp: has_wakeup_lock_def resume_def lock_shared_def WaitForRead_def unlock_shared_def WakeupWriter_def lock_def
        unlock_def try_lock_def try_lock_shared_def take_wakeup_def FLARE_CHECK_def Let_def split: if_splits)
  show "fibers s ! i = W_enter \<Longrightarrow> writer_lock s \<noteq> None"
    using stuck [OF i] by (auto simp: resume_def lock_def split: if_splits)
qed

lemma stuck_settled:
  assumes inv: "sm_inv n s" and stuck: "\<And>i. i < n \<Longrightarrow> resume False i s = None"
    and free: "\<And>i. i < n \<Longrightarrow> fibers s ! i \<noteq> R_in \<and> fibers s ! i \<noteq> W_in" and i: "i < n"
  shows "fibers s ! i = Outside"
proof -
  note c = counts_okD [OF invD(3) [OF inv]] and l = invD(1) [OF inv]
  have places: "q \<in> {Outside, R_sleep, W_enter} \<or> (\<exists>m. q = W_sleep m)" if "q \<in> set (fibers s)" for q
    using stuck_places(2) [OF inv stuck] free that l by (metis in_set_conv_nth insert_iff)
  have none: "cnt P s = 0" if "\<And>q. q \<in> {Outside, R_sleep, W_enter} \<or> (\<exists>m. q = W_sleep m) \<Longrightarrow> \<not> P q" for P
    using that places unfolding cnt_zero by blast
  have z: "cnt reading s = 0" "cnt exiting s = 0" "cnt writing s = 0" "cnt granting s = 0" "cnt has_writer_lock s = 0"
    by (rule none, auto simp: group_defs)+
  have sleepers: "cnt read_waiting s = cnt read_sleeping s"
  proof -
    have "filter read_waiting (fibers s) = filter read_sleeping (fibers s)"
      by (intro filter_cong refl) (use places in \<open>force simp: group_defs\<close>)
    then show ?thesis by (simp add: cnt_def)
  qed
  then have g: "newly_granted_readers s = 0" using c(4,5,12) by linarith
  have ws: "cnt write_waiting s = 0"
    unfolding cnt_zero
  proof
    fix q assume q: "q \<in> set (fibers s)"
    then have "local_ok s q" using inv by (metis in_set_conv_nth sm_inv_def)
    then show "\<not> write_waiting q" using places [OF q] z g by (auto simp: local_ok_def group_defs)
  qed
  then have "cnt read_waiting s = 0" using c(11) z g by simp
  then have "\<not> read_waiting (fibers s ! i)" "\<not> write_waiting (fibers s ! i)" using ws cnt_zero_nth l i by blast+
  moreover have "writer_lock s = None" using c(2) z ws by (cases "writer_lock s") simp_all
  ultimately show ?thesis
    using stuck_places(2,3) [OF inv stuck i] free [OF i] by (auto simp: group_defs)
qed

lemma resume_closer_reachable:
  assumes "reachable n s" "int n < kMaxReaders" "i < n" "resume False i s = Some s'"
  shows "closer s' s" "reachable n s'"
proof -
  note inv = reachable_inv [OF assms(1,2)]
  have "sm_inv n s'" by (rule resume_inv [OF inv assms(2-4)])
  then show "closer s' s" using resume_closer [of i s s'] assms(3,4) invD(1,2) [OF inv] invD(2) [of n s'] by simp
  show "reachable n s'"
    using reachable.step [OF assms(1)] sm_step.resume [of s i False s'] assms(3,4) invD(1,2) [OF inv] by simp
qed

text \<open>A run in which fibers inside a function keep going has a last step.\<close>

lemma run_stops:
  assumes "reachable n (run 0)" "int n < kMaxReaders"
    and step: "\<And>k. (\<exists>i<n. resume False i (run k) = Some (run (Suc k))) \<or>
      (\<forall>i<n. resume False i (run k) = None) \<and> run (Suc k) = run k"
  shows "\<exists>k. reachable n (run k) \<and> (\<forall>i<n. resume False i (run k) = None)"
proof (rule ccontr)
  assume no: "\<nexists>k. reachable n (run k) \<and> (\<forall>i<n. resume False i (run k) = None)"
  have r: "reachable n (run k)" for k
  proof (induction k)
    case (Suc k)
    then show ?case using step [of k] resume_closer_reachable(2) [OF Suc assms(2)] by metis
  qed (rule assms(1))
  have "closer (run (Suc k)) (run k)" for k
    using step [of k] no r [of k] resume_closer_reachable(1) [OF r assms(2)] by blast
  then show False using closer_wf unfolding wf_iff_no_infinite_down_chain by blast
qed

text \<open>A run with contention: fiber 0 reads, fiber 1 asks for the lock to write and goes to sleep, fiber 0 leaves and wakes it.\<close>

definition contended :: "pc list \<Rightarrow> int \<Rightarrow> nat option \<Rightarrow> nat option \<Rightarrow> int \<Rightarrow> shared_mutex" where
  "contended qs quota wakeup writer exited = \<lparr>fibers = qs, reader_quota = quota, wakeup_lock = wakeup, writer_lock = writer,
     exited_readers = exited, newly_granted_readers = 0, aborted = False\<rparr>"

definition handover :: "nat \<Rightarrow> shared_mutex" where
  "handover k =
     (if k = 0 then contended [R_waking, W_sleep 1] 0 None (Some 1) 0
      else if k = 1 then contended [R_counting, W_sleep 1] 0 (Some 0) (Some 1) 0
      else if k = 2 then contended [Outside, W_blocked 1] 0 None (Some 1) 1
      else if k = 3 then contended [Outside, W_check 1] 0 (Some 1) (Some 1) 1
      else contended [Outside, W_in] 0 None (Some 1) 0)"

lemmas demo_defs = contended_def kMaxReaders_def wrap32_def goto_def notify_all_def take_wakeup_def FLARE_CHECK_def Let_def
  resume_def calls_def lock_shared_def WaitForRead_def unlock_shared_def WakeupWriter_def lock_def

lemma reachable_resume:
  "reachable n s \<Longrightarrow> \<not> aborted s \<Longrightarrow> i < length (fibers s) \<Longrightarrow> resume False i s = Some s' \<Longrightarrow> reachable n s'"
  using reachable.step sm_step.resume by blast

lemma reachable_call:
  "reachable n s \<Longrightarrow> \<not> aborted s \<Longrightarrow> i < length (fibers s) \<Longrightarrow> Some s' \<in> set (calls i s) \<Longrightarrow> reachable n s'"
  using reachable.step sm_step.call by blast

lemma handover_start: "reachable 2 (handover 0)"
proof -
  have "reachable 2 (contended [Outside, Outside] 1073741823 None None 0)"
    using reachable.start [of 2] by (simp add: SharedMutex_def contended_def kMaxReaders_def numeral_2_eq_2)
  then have "reachable 2 (contended [R_in, Outside] 1073741822 None None 0)"
    by (rule reachable_call [where i = 0]) (simp_all add: demo_defs)
  then have "reachable 2 (contended [R_in, W_enter] 1073741822 None None 0)"
    by (rule reachable_call [where i = 1]) (simp_all add: demo_defs)
  then have "reachable 2 (contended [R_in, W_sub] 1073741822 None (Some 1) 0)"
    by (rule reachable_resume [where i = 1]) (simp_all add: demo_defs)
  then have "reachable 2 (contended [R_in, W_blocked 1] (- 1) None (Some 1) 0)"
    by (rule reachable_resume [where i = 1]) (simp_all add: demo_defs)
  then have "reachable 2 (contended [R_in, W_check 1] (- 1) (Some 1) (Some 1) 0)"
    by (rule reachable_resume [where i = 1]) (simp_all add: demo_defs)
  then have "reachable 2 (contended [R_in, W_sleep 1] (- 1) None (Some 1) 0)"
    by (rule reachable_resume [where i = 1]) (simp_all add: demo_defs)
  then have "reachable 2 (contended [R_waking, W_sleep 1] 0 None (Some 1) 0)"
    by (rule reachable_call [where i = 0]) (simp_all add: demo_defs)
  then show ?thesis by (simp add: handover_def)
qed

lemma two_fibers: "(\<exists>i<2::nat. P i) \<longleftrightarrow> P 0 \<or> P 1" "(\<forall>i<2::nat. P i) \<longleftrightarrow> P 0 \<and> P 1"
  by (auto simp: less_2_cases_iff)

lemma handover_step:
  "(\<exists>i<2. resume False i (handover k) = Some (handover (Suc k))) \<or>
   (\<forall>i<2. resume False i (handover k) = None) \<and> handover (Suc k) = handover k"
proof -
  consider "k = 0" | "k = 1" | "k = 2" | "k = 3" | "4 \<le> k" by linarith
  then show ?thesis by cases (simp_all add: two_fibers handover_def demo_defs)
qed

lemma handover_end: "reachable 2 (handover 4)"
proof -
  have "reachable 2 (handover k)" for k
  proof (induction k)
    case (Suc k)
    have n: "int 2 < kMaxReaders" by (simp add: kMaxReaders_def)
    show ?case using handover_step [of k] resume_closer_reachable(2) [OF Suc n] Suc by metis
  qed (rule handover_start)
  then show ?thesis .
qed

text \<open>
  Claim C6. Any number of fibers below \<open>kMaxReaders\<close> may call the functions of the lock in any order and be interleaved
  in any way, with spurious wakeups and spuriously failing exchanges: none of the checks in its code fails, and while a fiber
  holds the lock for writing no other fiber holds it in either mode.
\<close>

theorem SharedMutex_excludes:
  assumes "reachable n s" and "int n < kMaxReaders"
  shows "\<not> aborted s \<and>
    (\<forall>i j. i < n \<and> j < n \<and> i \<noteq> j \<and> fibers s ! i = W_in \<longrightarrow> fibers s ! j \<noteq> W_in \<and> fibers s ! j \<noteq> R_in)"
  using writer_alone [OF reachable_inv [OF assms]] invD(2) [OF reachable_inv [OF assms]] by blast

theorem SharedMutex_excludes_witness:
  "reachable 2 (handover 4) \<and> int 2 < kMaxReaders \<and> fibers (handover 4) ! 1 = W_in \<and>
   \<not> aborted (handover 4) \<and> fibers (handover 4) ! 0 \<noteq> R_in"
proof -
  have n: "int 2 < kMaxReaders" by (simp add: kMaxReaders_def)
  have w: "fibers (handover 4) ! 1 = W_in" by (simp add: handover_def contended_def)
  show ?thesis using SharedMutex_excludes [OF handover_end n] handover_end n w by (metis one_less_numeral_iff semiring_norm(76) zero_less_numeral zero_neq_one)
qed

text \<open>
  Claim C8. The functions of the lock end: from a reachable state, fibers that only go on with the call they are in, under
  any scheduling and with exchanges that fail only on a changed value, take finitely many steps.
\<close>

theorem SharedMutex_terminates:
  assumes "int n < kMaxReaders"
  shows "wf {(s', s). reachable n s \<and> (\<exists>i<n. resume False i s = Some s')}"
  by (rule wf_subset [OF closer_wf]) (auto intro: resume_closer_reachable(1) [OF _ assms])

theorem SharedMutex_terminates_witness:
  "int 2 < kMaxReaders \<and> reachable 2 (handover 0) \<and> resume False 0 (handover 0) = Some (handover 1) \<and>
   wf {(s', s). reachable 2 s \<and> (\<exists>i<2. resume False i s = Some s')}"
proof -
  have n: "int 2 < kMaxReaders" by (simp add: kMaxReaders_def)
  have "resume False 0 (handover 0) = Some (handover 1)" by (simp add: handover_def demo_defs)
  then show ?thesis using SharedMutex_terminates [OF n] handover_start n by blast
qed

text \<open>
  Claim C7. The lock cannot get stuck and loses no wakeup. Take any run from a reachable state in which the fibers inside a
  function go on, in any order, as long as one of them can. It comes to a state in which none can, and there some fiber
  holds the lock, or no fiber is left waiting: all have returned.
\<close>

theorem SharedMutex_settles:
  assumes "reachable n (run 0)" and "int n < kMaxReaders"
    and "\<And>k. (\<exists>i<n. resume False i (run k) = Some (run (Suc k))) \<or>
      (\<forall>i<n. resume False i (run k) = None) \<and> run (Suc k) = run k"
  shows "\<exists>k. (\<forall>i<n. resume False i (run k) = None) \<and>
    ((\<exists>i<n. fibers (run k) ! i = R_in \<or> fibers (run k) ! i = W_in) \<or> (\<forall>i<n. fibers (run k) ! i = Outside))"
proof -
  obtain k where k: "reachable n (run k)" "\<forall>i<n. resume False i (run k) = None" using run_stops [OF assms] by blast
  show ?thesis using k(2) stuck_settled [OF reachable_inv [OF k(1) assms(2)]] by (metis (no_types))
qed

theorem SharedMutex_settles_witness:
  "reachable 2 (handover 0) \<and> int 2 < kMaxReaders \<and>
   (\<exists>k. (\<forall>i<2. resume False i (handover k) = None) \<and>
     ((\<exists>i<2. fibers (handover k) ! i = R_in \<or> fibers (handover k) ! i = W_in) \<or> (\<forall>i<2. fibers (handover k) ! i = Outside)))"
proof -
  have n: "int 2 < kMaxReaders" by (simp add: kMaxReaders_def)
  show ?thesis using SharedMutex_settles [OF handover_start n handover_step] handover_start n by blast
qed

end
