(* ===== verification/Partition_Lock.thy ===== *)
theory Partition_Lock
  imports Shared_Mutex Hash_Kv
begin

section \<open>Concurrent calls on one partition (cache/storage/memory/concurrent_hash_map.h)\<close>

text \<open>
  The functions of \<open>HashKv\<close> take the lock of a partition, work on its map and release the lock when they return. Here any number of
  fibers do so at once on one \<open>ConcurrentMap\<close>. The work on the map is not atomic: a fiber reads the map in one step and
  stores what it made of it in a later one, with steps of the lock and of other fibers between them, so that two
  writers inside together would lose an update. The theory shows that the lock makes the calls atomic, which is how the theory
  \<open>Hash_Kv\<close> treats them.

  The locale \<open>rw_lock\<close> is what the partition relies on: holders keep the lock until they give it up, and a writer is alone.
\<close>

subsection \<open>The contract of a reader-writer lock\<close>

locale rw_lock =
  fixes ok :: "'s \<Rightarrow> bool" and acts :: "nat \<Rightarrow> 's \<Rightarrow> 's \<Rightarrow> bool" and owns :: "bool \<Rightarrow> nat \<Rightarrow> 's \<Rightarrow> bool"
  assumes ok_acts: "ok s \<Longrightarrow> acts i s s' \<Longrightarrow> ok s'"
    and writer_excludes: "ok s \<Longrightarrow> owns True i s \<Longrightarrow> owns e j s \<Longrightarrow> j = i"
    and keeps: "ok s \<Longrightarrow> acts i s s' \<Longrightarrow> j \<noteq> i \<Longrightarrow> owns e j s \<Longrightarrow> owns e j s'"
begin

text \<open>A client notes in \<open>owner\<close> which of its fibers are inside and in which mode. The note stays true while other fibers use the lock, and
  a writer inside is the only fiber inside.\<close>

lemma owners_kept:
  assumes "ok s" "acts i s s'" "owner i = None" and "\<And>j e. owner j = Some e \<Longrightarrow> owns e j s"
  shows "owner j = Some e \<Longrightarrow> owns e j s'"
  using keeps [OF assms(1,2)] assms(3,4) by (cases "j = i") auto

lemma sole_writer:
  assumes "ok s" "owner i = Some True" and "\<And>j e. owner j = Some e \<Longrightarrow> owns e j s"
  shows "j \<noteq> i \<Longrightarrow> owner j = None"
  using writer_excludes [OF assms(1)] assms(2,3) by (cases "owner j") blast+

end

subsection \<open>The lock of the fibers keeps the contract\<close>

definition sm_ok :: "shared_mutex \<Rightarrow> bool" where
  "sm_ok s \<longleftrightarrow> reachable (length (fibers s)) s \<and> int (length (fibers s)) < kMaxReaders"

definition sm_acts :: "nat \<Rightarrow> shared_mutex \<Rightarrow> shared_mutex \<Rightarrow> bool" where
  "sm_acts i s s' \<longleftrightarrow> i < length (fibers s) \<and>
     (resume False i s = Some s' \<or> resume True i s = Some s' \<or> Some s' \<in> set (calls i s) \<or> s' = goto i (wake (fibers s ! i)) s)"

definition sm_owns :: "bool \<Rightarrow> nat \<Rightarrow> shared_mutex \<Rightarrow> bool" where
  "sm_owns exclusive i s \<longleftrightarrow> i < length (fibers s) \<and> fibers s ! i = (if exclusive then W_in else R_in)"

lemma sm_acts_step:
  assumes "sm_ok s" "sm_acts i s s'"
  shows "sm_step s s'"
proof -
  have "\<not> aborted s" using invD(2) [OF reachable_inv] assms(1) unfolding sm_ok_def by blast
  then show ?thesis using assms(2) sm_step.intros unfolding sm_acts_def by metis
qed

lemma sm_acts_ok:
  assumes "sm_ok s" "sm_acts i s s'"
  shows "sm_ok s'" "length (fibers s') = length (fibers s)"
proof -
  have r: "reachable (length (fibers s)) s'" using reachable.step sm_acts_step [OF assms] assms(1) unfolding sm_ok_def by blast
  then show "length (fibers s') = length (fibers s)" using invD(1) [OF reachable_inv] assms(1) unfolding sm_ok_def by blast
  then show "sm_ok s'" using r assms(1) by (simp add: sm_ok_def)
qed

text \<open>A fiber changes its own place; it can move another one only by waking it.\<close>

lemma lock_functions_local:
  assumes "j \<noteq> i" "j < length (fibers s)"
    and "lock_shared i s = Some s' \<or> unlock_shared i s = Some s' \<or> try_lock_shared fail i s = Some s' \<or> lock i s = Some s' \<or>
      try_lock fail i s = Some s' \<or> unlock i s = Some s'"
  shows "fibers s' ! j = fibers s ! j \<or> fibers s' ! j = wake (fibers s ! j)"
  using assms
  by (elim disjE)
    (auto simp: lock_shared_def unlock_shared_def try_lock_shared_def lock_def try_lock_def unlock_def WaitForRead_def
      WakeupWriter_def take_wakeup_def FLARE_CHECK_def Let_def split: pc.splits if_splits)

lemma sm_acts_local:
  assumes "sm_acts i s s'" "j \<noteq> i" "j < length (fibers s)"
  shows "fibers s' ! j = fibers s ! j \<or> fibers s' ! j = wake (fibers s ! j)"
proof (cases "s' = goto i (wake (fibers s ! i)) s")
  case False
  then obtain fail where "lock_shared i s = Some s' \<or> unlock_shared i s = Some s' \<or> try_lock_shared fail i s = Some s' \<or> lock i s = Some s' \<or>
      try_lock fail i s = Some s' \<or> unlock i s = Some s'"
    using assms(1) by (auto simp: sm_acts_def resume_def calls_def dest!: sym [of "Some s'"] split: pc.splits)
  then show ?thesis using lock_functions_local assms by blast
qed (use assms in simp)

interpretation sm: rw_lock sm_ok sm_acts sm_owns
proof
  fix s s' i j e
  assume ok: "sm_ok s"
  show "sm_ok s'" if "sm_acts i s s'" using sm_acts_ok ok that by blast
  show "j = i" if "sm_owns True i s" "sm_owns e j s"
    using writer_alone [OF reachable_inv, of "length (fibers s)" s i j] ok that by (auto simp: sm_ok_def sm_owns_def split: if_splits)
  show "sm_owns e j s'" if "sm_acts i s s'" "j \<noteq> i" "sm_owns e j s"
    using sm_acts_local [OF that(1,2)] sm_acts_ok(2) [OF ok that(1)] that(3) by (auto simp: sm_owns_def)
qed

subsection \<open>The partition\<close>

text \<open>The calls, the mode in which each takes the lock, and its body: the node it returns and the map it leaves.\<close>

datatype 'v kv_call = Get_call string | GetOrCreate_call string 'v | Add_call string 'v | Del_call string

fun exclusive :: "'v kv_call \<Rightarrow> bool" where
  "exclusive (Get_call _) = False"
| "exclusive (GetOrCreate_call _ _) = True"
| "exclusive (Add_call _ _) = True"
| "exclusive (Del_call _) = True"

fun kv_body :: "'v kv_call \<Rightarrow> 'v unordered_map \<Rightarrow> nat option \<times> 'v unordered_map" where
  "kv_body (Get_call key) m = (map_option fst (um_node m key), m)"
| "kv_body (GetOrCreate_call key v) m = (let (i, m') = try_emplace key v m in (Some i, m'))"
| "kv_body (Add_call key v) m = (None, insert_or_assign key v m)"
| "kv_body (Del_call key) m = (None, um_erase key m)"

text \<open>The functions of the theory \<open>Hash_Kv\<close> are these bodies, run on the partition of the key.\<close>

lemma HashKv_bodies:
  fixes h :: "string \<Rightarrow> u64"
  assumes "kv_ok kv"
  defines "part \<equiv> \<lambda>k. map_vec kv ! part_of h kv k" and "idx \<equiv> \<lambda>k. h k mod partition_num kv"
  shows "HashKv_Get h kv k = Inr (map_option (Value_ptr (idx k) k) (fst (kv_body (Get_call k) (part k))))"
    "HashKv_GetOrCreate h kv k v =
      (let (r, a) = kv_body (GetOrCreate_call k v) (part k) in Inr (Value_ptr (idx k) k (the r), set_sub_map kv (idx k) a))"
    "HashKv_Add h kv k v = Inr (True, set_sub_map kv (idx k) (snd (kv_body (Add_call k v) (part k))))"
    "HashKv_Del h kv k = Inr (True, set_sub_map kv (idx k) (snd (kv_body (Del_call k) (part k))))"
  using Hash_ok [OF assms(1)] sub_map_ok [OF assms(1)]
  by (auto simp: HashKv_Get_def HashKv_GetOrCreate_def HashKv_Add_def HashKv_Del_def part_def idx_def Let_def
      split: option.splits prod.splits)

text \<open>What a fiber does with the partition: nothing (or it is on its way out of the lock), taking the lock, working on the map it
  has read, done with it.\<close>

datatype 'v task = Idle | Taking "'v kv_call" | Working "'v kv_call" "'v unordered_map" | Done "'v kv_call"

text \<open>\<open>ConcurrentMap\<close>; \<open>finished\<close> lists the calls in the order in which they stored their map, with their results.\<close>

record 'v concurrent_map =
  m :: shared_mutex
  cm_map :: "'v unordered_map"
  tasks :: "'v task list"
  finished :: "('v kv_call \<times> nat option) list"

definition ConcurrentMap :: "nat \<Rightarrow> 'v concurrent_map" where
  "ConcurrentMap n = \<lparr>m = SharedMutex n, cm_map = um_empty, tasks = replicate n Idle, finished = []\<rparr>"

text \<open>The constructors and destructors of \<open>std::shared_lock\<close> and \<open>std::unique_lock\<close>.\<close>

definition acquire :: "'v kv_call \<Rightarrow> nat \<Rightarrow> shared_mutex \<Rightarrow> shared_mutex option" where
  "acquire c i s = (if exclusive c then lock i s else lock_shared i s)"

definition release :: "'v kv_call \<Rightarrow> nat \<Rightarrow> shared_mutex \<Rightarrow> shared_mutex option" where
  "release c i s = (if exclusive c then unlock i s else unlock_shared i s)"

definition store :: "nat \<Rightarrow> 'v kv_call \<Rightarrow> 'v unordered_map \<Rightarrow> 'v concurrent_map \<Rightarrow> 'v concurrent_map" where
  "store i c seen p =
     (let (r, after) = kv_body c seen
      in p\<lparr>cm_map := (if exclusive c then after else cm_map p), tasks := (tasks p)[i := Done c], finished := finished p @ [(c, r)]\<rparr>)"

inductive cm_step :: "'v concurrent_map \<Rightarrow> 'v concurrent_map \<Rightarrow> bool" where
  start: "i < length (tasks p) \<Longrightarrow> tasks p ! i = Idle \<Longrightarrow> fibers (m p) ! i = Outside \<Longrightarrow> acquire c i (m p) = Some s \<Longrightarrow>
    cm_step p (p\<lparr>m := s, tasks := (tasks p)[i := Taking c]\<rparr>)"
| go_on: "i < length (tasks p) \<Longrightarrow> resume fail i (m p) = Some s \<Longrightarrow> cm_step p (p\<lparr>m := s\<rparr>)"
| wakeup: "i < length (tasks p) \<Longrightarrow> cm_step p (p\<lparr>m := goto i (wake (fibers (m p) ! i)) (m p)\<rparr>)"
| enter: "i < length (tasks p) \<Longrightarrow> tasks p ! i = Taking c \<Longrightarrow> sm_owns (exclusive c) i (m p) \<Longrightarrow>
    cm_step p (p\<lparr>tasks := (tasks p)[i := Working c (cm_map p)]\<rparr>)"
| store: "i < length (tasks p) \<Longrightarrow> tasks p ! i = Working c seen \<Longrightarrow> cm_step p (store i c seen p)"
| leave: "i < length (tasks p) \<Longrightarrow> tasks p ! i = Done c \<Longrightarrow> release c i (m p) = Some s \<Longrightarrow>
    cm_step p (p\<lparr>m := s, tasks := (tasks p)[i := Idle]\<rparr>)"

inductive cm_reachable :: "nat \<Rightarrow> 'v concurrent_map \<Rightarrow> bool" for n where
  start: "cm_reachable n (ConcurrentMap n)"
| step: "cm_reachable n p \<Longrightarrow> cm_step p p' \<Longrightarrow> cm_reachable n p'"

text \<open>The same calls one after the other, each with the result it gives.\<close>

fun in_sequence :: "'v unordered_map \<Rightarrow> ('v kv_call \<times> nat option) list \<Rightarrow> 'v unordered_map \<Rightarrow> bool" where
  "in_sequence a [] b \<longleftrightarrow> a = b"
| "in_sequence a ((c, r) # h) b \<longleftrightarrow> r = fst (kv_body c a) \<and> in_sequence (snd (kv_body c a)) h b"

subsection \<open>The calls are atomic\<close>

definition inside :: "'v concurrent_map \<Rightarrow> nat \<Rightarrow> bool option" where
  "inside p i =
     (if i < length (tasks p) then (case tasks p ! i of Working c _ \<Rightarrow> Some (exclusive c) | Done c \<Rightarrow> Some (exclusive c) | _ \<Rightarrow> None) else None)"

definition cm_inv :: "nat \<Rightarrow> 'v concurrent_map \<Rightarrow> bool" where
  "cm_inv n p \<longleftrightarrow> length (tasks p) = n \<and> length (fibers (m p)) = n \<and> sm_ok (m p) \<and>
     (\<forall>j e. inside p j = Some e \<longrightarrow> sm_owns e j (m p)) \<and>
     (\<forall>j<n. \<forall>c seen. tasks p ! j = Working c seen \<longrightarrow> seen = cm_map p) \<and>
     in_sequence um_empty (finished p) (cm_map p)"

lemma in_sequence_append: "in_sequence a (h @ [(c, r)]) b \<longleftrightarrow> (\<exists>d. in_sequence a h d \<and> r = fst (kv_body c d) \<and> b = snd (kv_body c d))"
  by (induction h arbitrary: a) auto

lemma shared_body: "\<not> exclusive c \<Longrightarrow> snd (kv_body c a) = a"
  by (cases c) simp_all

lemma inside_task:
  "i < length (tasks p) \<Longrightarrow> inside (p\<lparr>m := s, tasks := (tasks p)[i := t]\<rparr>) = (inside p)(i := (case t of Working c _ \<Rightarrow> Some (exclusive c) | Done c \<Rightarrow> Some (exclusive c) | _ \<Rightarrow> None))"
  by (rule ext) (simp add: inside_def)

lemma owner_cannot_act:
  assumes "sm_owns e i s"
  shows "resume fail i s = None" "goto i (wake (fibers s ! i)) s = s" "fibers s ! i \<noteq> Outside"
  using assms by (cases e; simp add: sm_owns_def resume_def goto_def; metis list_update_id shared_mutex.surjective shared_mutex.update_convs(1))+

text \<open>A step of the lock by a fiber that is not inside, or that leaves.\<close>

lemma cm_inv_acts:
  assumes inv: "cm_inv n p" and act: "sm_acts i (m p) s" and i: "i < n"
    and t: "t = Idle \<or> (\<exists>c. t = Taking c)"
  shows "cm_inv n (p\<lparr>m := s, tasks := (tasks p)[i := t]\<rparr>)"
proof -
  have ok: "sm_ok (m p)" and len: "length (tasks p) = n" "length (fibers (m p)) = n" using inv by (simp_all add: cm_inv_def)
  have none: "(case t of Working c _ \<Rightarrow> Some (exclusive c) | Done c \<Rightarrow> Some (exclusive c) | _ \<Rightarrow> None) = None" using t by auto
  have "sm_owns e j s" if "((inside p)(i := None)) j = Some e" for j e
    by (rule sm.owners_kept [OF ok act, of "(inside p)(i := None)"]) (use inv that in \<open>auto simp: cm_inv_def split: if_splits\<close>)
  moreover have "\<forall>j<n. \<forall>c seen. (tasks p)[i := t] ! j = Working c seen \<longrightarrow> seen = cm_map p"
    using inv t len i by (auto simp: cm_inv_def nth_list_update split: if_splits)
  ultimately show ?thesis
    using inv sm_acts_ok [OF ok act] inside_task [of i p t s] none i len by (simp add: cm_inv_def)
qed

text \<open>A fiber inside stores its map: if it writes, it is alone, so nobody has read the map it replaces.\<close>

lemma cm_inv_store:
  assumes inv: "cm_inv n p" and i: "i < n" and t: "tasks p ! i = Working c seen"
  shows "cm_inv n (store i c seen p)"
proof -
  have ok: "sm_ok (m p)" and len: "length (tasks p) = n" and h: "in_sequence um_empty (finished p) (cm_map p)"
    and own: "\<And>j e. inside p j = Some e \<Longrightarrow> sm_owns e j (m p)" using inv by (simp_all add: cm_inv_def)
  have seen: "seen = cm_map p" using inv i t unfolding cm_inv_def by blast
  define after where "after = (if exclusive c then snd (kv_body c seen) else cm_map p)"
  have after: "after = snd (kv_body c seen)" by (simp add: after_def shared_body seen)
  have e: "store i c seen p = p\<lparr>cm_map := after, tasks := (tasks p)[i := Done c], finished := finished p @ [(c, fst (kv_body c seen))]\<rparr>"
    by (simp add: store_def after_def split: prod.split)
  have me: "inside p i = Some (exclusive c)" using i len t by (simp add: inside_def)
  have in_eq: "inside (store i c seen p) = inside p"
    using i t len by (intro ext) (auto simp: e inside_def nth_list_update)
  have "s = after" if "j < n" "(tasks p)[i := Done c] ! j = Working d s" for j d s
  proof -
    have j: "j \<noteq> i" "tasks p ! j = Working d s" using that len i by (auto simp: nth_list_update split: if_splits)
    then have "inside p j = Some (exclusive d)" using that len by (simp add: inside_def)
    then have "\<not> exclusive c" using sm.sole_writer [OF ok, of "inside p" i j] me own j(1) by auto
    then show ?thesis using inv j that(1) by (simp add: after_def cm_inv_def)
  qed
  moreover have "in_sequence um_empty (finished p @ [(c, fst (kv_body c seen))]) after"
    using h seen after by (auto simp: in_sequence_append)
  ultimately show ?thesis using inv in_eq by (simp add: cm_inv_def e)
qed

lemma cm_inv_enter:
  assumes inv: "cm_inv n p" and i: "i < n" and own: "sm_owns (exclusive c) i (m p)"
  shows "cm_inv n (p\<lparr>tasks := (tasks p)[i := Working c (cm_map p)]\<rparr>)"
proof -
  have "inside (p\<lparr>tasks := (tasks p)[i := Working c (cm_map p)]\<rparr>) = (inside p)(i := Some (exclusive c))"
    using inside_task [of i p "Working c (cm_map p)" "m p"] inv i by (simp add: cm_inv_def)
  then show ?thesis using inv own i by (auto simp: cm_inv_def nth_list_update split: if_splits)
qed

lemma cm_inv_same:
  assumes inv: "cm_inv n p" and i: "i < n" and s: "resume fail i (m p) = Some s \<or> s = goto i (wake (fibers (m p) ! i)) (m p)"
  shows "cm_inv n (p\<lparr>m := s\<rparr>)"
proof (cases "inside p i")
  case None
  then have "tasks p ! i = Idle \<or> (\<exists>c. tasks p ! i = Taking c)"
    using inv i by (cases "tasks p ! i") (simp_all add: inside_def cm_inv_def)
  moreover have "sm_acts i (m p) s" using s inv i by (cases fail) (auto simp: sm_acts_def cm_inv_def)
  ultimately have "cm_inv n (p\<lparr>m := s, tasks := (tasks p)[i := tasks p ! i]\<rparr>)" by (intro cm_inv_acts [OF inv _ i])
  then show ?thesis by simp
next
  case (Some e)
  then have "sm_owns e i (m p)" using inv by (simp add: cm_inv_def)
  then have "s = m p" using s owner_cannot_act by auto
  then show ?thesis using inv by simp
qed

lemma acquire_acts:
  "i < length (fibers s) \<Longrightarrow> fibers s ! i = Outside \<Longrightarrow> acquire c i s = Some s' \<Longrightarrow> sm_acts i s s'"
  by (auto simp: sm_acts_def calls_def acquire_def split: if_splits)

lemma release_acts: "sm_owns (exclusive c) i s \<Longrightarrow> release c i s = Some s' \<Longrightarrow> sm_acts i s s'"
  by (auto simp: sm_acts_def calls_def release_def sm_owns_def split: if_splits)

lemma ConcurrentMap_inv: "int n < kMaxReaders \<Longrightarrow> cm_inv n (ConcurrentMap n)"
  using reachable.start [of n] by (auto simp: cm_inv_def ConcurrentMap_def sm_ok_def inside_def SharedMutex_def)

lemma cm_step_inv:
  assumes "cm_step p p'" and inv: "cm_inv n p"
  shows "cm_inv n p'"
proof -
  have len: "length (tasks p) = n" "length (fibers (m p)) = n" using inv by (simp_all add: cm_inv_def)
  show ?thesis using assms(1)
  proof cases
    case (start i c s)
    then show ?thesis using cm_inv_acts [OF inv acquire_acts [of i "m p" c s]] len by simp
  next
    case (go_on i fail s)
    then show ?thesis using cm_inv_same [OF inv] len by auto
  next
    case (wakeup i)
    then show ?thesis using cm_inv_same [OF inv] len by auto
  next
    case (enter i c)
    then show ?thesis using cm_inv_enter [OF inv] len by auto
  next
    case (store i c seen)
    then show ?thesis using cm_inv_store [OF inv] len by auto
  next
    case (leave i c s)
    then have "sm_owns (exclusive c) i (m p)" using inv by (simp add: cm_inv_def inside_def)
    then show ?thesis using cm_inv_acts [OF inv release_acts [of c i "m p" s]] leave len by simp
  qed
qed

lemma cm_reachable_inv: "cm_reachable n p \<Longrightarrow> int n < kMaxReaders \<Longrightarrow> cm_inv n p"
  by (induction rule: cm_reachable.induct) (auto intro: ConcurrentMap_inv cm_step_inv)

subsection \<open>A run\<close>

lemma reach_start: "cm_reachable n p \<Longrightarrow> i < length (tasks p) \<Longrightarrow> tasks p ! i = Idle \<Longrightarrow> fibers (m p) ! i = Outside \<Longrightarrow>
  acquire c i (m p) \<noteq> None \<Longrightarrow> p' = p\<lparr>m := the (acquire c i (m p)), tasks := (tasks p)[i := Taking c]\<rparr> \<Longrightarrow> cm_reachable n p'"
  by (auto intro!: cm_reachable.step [of n p] intro: cm_step.start)

lemma reach_go_on: "cm_reachable n p \<Longrightarrow> i < length (tasks p) \<Longrightarrow> resume fail i (m p) \<noteq> None \<Longrightarrow>
  p' = p\<lparr>m := the (resume fail i (m p))\<rparr> \<Longrightarrow> cm_reachable n p'"
  by (auto intro!: cm_reachable.step [of n p] intro: cm_step.go_on)

lemma reach_enter: "cm_reachable n p \<Longrightarrow> i < length (tasks p) \<Longrightarrow> tasks p ! i = Taking c \<Longrightarrow> sm_owns (exclusive c) i (m p) \<Longrightarrow>
  p' = p\<lparr>tasks := (tasks p)[i := Working c (cm_map p)]\<rparr> \<Longrightarrow> cm_reachable n p'"
  using cm_reachable.step cm_step.enter by blast

lemma reach_store: "cm_reachable n p \<Longrightarrow> i < length (tasks p) \<Longrightarrow> tasks p ! i = Working c seen \<Longrightarrow> p' = store i c seen p \<Longrightarrow> cm_reachable n p'"
  using cm_reachable.step cm_step.store by blast

lemma reach_leave: "cm_reachable n p \<Longrightarrow> i < length (tasks p) \<Longrightarrow> tasks p ! i = Done c \<Longrightarrow> release c i (m p) \<noteq> None \<Longrightarrow>
  p' = p\<lparr>m := the (release c i (m p)), tasks := (tasks p)[i := Idle]\<rparr> \<Longrightarrow> cm_reachable n p'"
  by (auto intro!: cm_reachable.step [of n p] intro: cm_step.leave)

definition demo :: "pc list \<Rightarrow> int \<Rightarrow> nat option \<Rightarrow> nat option \<Rightarrow> int \<Rightarrow> int unordered_map \<Rightarrow> int task list \<Rightarrow>
    (int kv_call \<times> nat option) list \<Rightarrow> int concurrent_map" where
  cm_demo_def: "demo qs quota wakeup writer granted um ts hist =
     \<lparr>m = \<lparr>fibers = qs, reader_quota = quota, wakeup_lock = wakeup, writer_lock = writer,
       exited_readers = 0, newly_granted_readers = granted, aborted = False\<rparr>, cm_map = um, tasks = ts, finished = hist\<rparr>"

lemmas cm_demo_defs = cm_demo_def demo_defs unlock_def acquire_def release_def store_def sm_owns_def insert_or_assign_def um_empty_def

text \<open>Fiber 0 adds a key; while it holds the lock, fiber 1 asks for the key and waits, then finds it.\<close>

lemma demo_run:
  "cm_reachable 2 (demo [Outside, R_in] 1073741822 None None 0 (insert_or_assign ''a'' 7 um_empty) [Idle, Done (Get_call ''a'')] [(Add_call ''a'' (7::int), None), (Get_call ''a'', Some 0)])"
proof -
  have "cm_reachable 2 (demo [Outside, Outside] 1073741823 None None 0 um_empty [Idle, Idle] [])"
    using cm_reachable.start [of 2] by (simp add: ConcurrentMap_def demo_defs cm_demo_def numeral_2_eq_2 SharedMutex_def)
  then have "cm_reachable 2 (demo [W_enter, Outside] 1073741823 None None 0 um_empty [Taking (Add_call ''a'' (7::int)), Idle] [])"
    by (rule reach_start [where i = 0 and c = "Add_call ''a'' (7::int)"]) (simp_all add: cm_demo_defs)
  then have "cm_reachable 2 (demo [W_sub, Outside] 1073741823 None (Some 0) 0 um_empty [Taking (Add_call ''a'' (7::int)), Idle] [])"
    by (rule reach_go_on [where i = 0 and fail = False]) (simp_all add: cm_demo_defs)
  then have "cm_reachable 2 (demo [W_in, Outside] 0 None (Some 0) 0 um_empty [Taking (Add_call ''a'' (7::int)), Idle] [])"
    by (rule reach_go_on [where i = 0 and fail = False]) (simp_all add: cm_demo_defs)
  then have "cm_reachable 2 (demo [W_in, Outside] 0 None (Some 0) 0 um_empty [Working (Add_call ''a'' (7::int)) um_empty, Idle] [])"
    by (rule reach_enter [where i = 0 and c = "Add_call ''a'' (7::int)"]) (simp_all add: cm_demo_defs)
  then have "cm_reachable 2 (demo [W_in, R_blocked] (- 1) None (Some 0) 0 um_empty [Working (Add_call ''a'' (7::int)) um_empty, Taking (Get_call ''a'')] [])"
    by (rule reach_start [where i = 1 and c = "Get_call ''a''"]) (simp_all add: cm_demo_defs)
  then have "cm_reachable 2 (demo [W_in, R_blocked] (- 1) None (Some 0) 0 (insert_or_assign ''a'' 7 um_empty) [Done (Add_call ''a'' (7::int)), Taking (Get_call ''a'')] [(Add_call ''a'' (7::int), None)])"
    by (rule reach_store [where i = 0 and c = "Add_call ''a'' (7::int)" and seen = um_empty]) (simp_all add: cm_demo_defs)
  then have "cm_reachable 2 (demo [U_begin, R_blocked] (- 1) None (Some 0) 0 (insert_or_assign ''a'' 7 um_empty) [Idle, Taking (Get_call ''a'')] [(Add_call ''a'' (7::int), None)])"
    by (rule reach_leave [where i = 0 and c = "Add_call ''a'' (7::int)"]) (simp_all add: cm_demo_defs)
  then have "cm_reachable 2 (demo [U_add, R_blocked] (- 1) (Some 0) (Some 0) 0 (insert_or_assign ''a'' 7 um_empty) [Idle, Taking (Get_call ''a'')] [(Add_call ''a'' (7::int), None)])"
    by (rule reach_go_on [where i = 0 and fail = False]) (simp_all add: cm_demo_defs)
  then have "cm_reachable 2 (demo [U_grant (- 1), R_blocked] 1073741822 (Some 0) (Some 0) 0 (insert_or_assign ''a'' 7 um_empty) [Idle, Taking (Get_call ''a'')] [(Add_call ''a'' (7::int), None)])"
    by (rule reach_go_on [where i = 0 and fail = False]) (simp_all add: cm_demo_defs)
  then have "cm_reachable 2 (demo [U_writer, R_blocked] 1073741822 (Some 0) (Some 0) 1 (insert_or_assign ''a'' 7 um_empty) [Idle, Taking (Get_call ''a'')] [(Add_call ''a'' (7::int), None)])"
    by (rule reach_go_on [where i = 0 and fail = False]) (simp_all add: cm_demo_defs)
  then have "cm_reachable 2 (demo [U_leave, R_blocked] 1073741822 (Some 0) None 1 (insert_or_assign ''a'' 7 um_empty) [Idle, Taking (Get_call ''a'')] [(Add_call ''a'' (7::int), None)])"
    by (rule reach_go_on [where i = 0 and fail = False]) (simp_all add: cm_demo_defs)
  then have "cm_reachable 2 (demo [Outside, R_blocked] 1073741822 None None 1 (insert_or_assign ''a'' 7 um_empty) [Idle, Taking (Get_call ''a'')] [(Add_call ''a'' (7::int), None)])"
    by (rule reach_go_on [where i = 0 and fail = False]) (simp_all add: cm_demo_defs)
  then have "cm_reachable 2 (demo [Outside, R_check] 1073741822 (Some 1) None 1 (insert_or_assign ''a'' 7 um_empty) [Idle, Taking (Get_call ''a'')] [(Add_call ''a'' (7::int), None)])"
    by (rule reach_go_on [where i = 1 and fail = False]) (simp_all add: cm_demo_defs)
  then have "cm_reachable 2 (demo [Outside, R_in] 1073741822 None None 0 (insert_or_assign ''a'' 7 um_empty) [Idle, Taking (Get_call ''a'')] [(Add_call ''a'' (7::int), None)])"
    by (rule reach_go_on [where i = 1 and fail = False]) (simp_all add: cm_demo_defs)
  then have "cm_reachable 2 (demo [Outside, R_in] 1073741822 None None 0 (insert_or_assign ''a'' 7 um_empty) [Idle, Working (Get_call ''a'') (insert_or_assign ''a'' 7 um_empty)] [(Add_call ''a'' (7::int), None)])"
    by (rule reach_enter [where i = 1 and c = "Get_call ''a''"]) (simp_all add: cm_demo_defs)
  then have "cm_reachable 2 (demo [Outside, R_in] 1073741822 None None 0 (insert_or_assign ''a'' 7 um_empty) [Idle, Done (Get_call ''a'')] [(Add_call ''a'' (7::int), None), (Get_call ''a'', Some 0)])"
    by (rule reach_store [where i = 1 and c = "Get_call ''a''" and seen = "insert_or_assign ''a'' 7 um_empty"]) (simp_all add: cm_demo_defs)
  then show ?thesis .
qed

text \<open>
  Claim C5. Fibers fewer than \<open>kMaxReaders\<close> call \<open>Get\<close>, \<open>GetOrCreate\<close>, \<open>Add\<close> and \<open>Del\<close> on one partition at once, interleaved in any
  way at the steps of its lock and between reading and storing its map. At every moment the map is what the calls
  that have stored theirs make of the empty map when they run one after the other in that order, each of them has the
  result it has in that sequence, a fiber inside still sees the map it started from, and no check of the lock failed.
\<close>

theorem ConcurrentMap_atomic:
  assumes "cm_reachable n p" and "int n < kMaxReaders"
  shows "in_sequence um_empty (finished p) (cm_map p) \<and>
    (\<forall>i<n. \<forall>c seen. tasks p ! i = Working c seen \<longrightarrow> seen = cm_map p) \<and> \<not> aborted (m p)"
proof -
  have inv: "cm_inv n p" by (rule cm_reachable_inv [OF assms])
  then have "\<not> aborted (m p)" using invD(2) [OF reachable_inv] unfolding cm_inv_def sm_ok_def by blast
  then show ?thesis using inv unfolding cm_inv_def by blast
qed

theorem ConcurrentMap_atomic_witness:
  "\<exists>p :: int concurrent_map. cm_reachable 2 p \<and> int 2 < kMaxReaders \<and>
    finished p = [(Add_call ''a'' 7, None), (Get_call ''a'', Some 0)] \<and> in_sequence um_empty (finished p) (cm_map p)"
proof -
  have n: "int 2 < kMaxReaders" by (simp add: kMaxReaders_def)
  show ?thesis using ConcurrentMap_atomic [OF demo_run n] demo_run n
    by (intro exI conjI) (assumption | simp add: cm_demo_def)+
qed

end
