(* ===== verification/Cache_Managers.thy ===== *)
theory Cache_Managers
  imports Zset
begin

section \<open>The managers (cache/manager)\<close>

text \<open>
  The three singletons behind the request handlers. \<open>KvManager\<close> wraps one \<open>HashKv\<close> of strings. \<open>ZsetManager\<close> maps keys to shared pointers to
  sorted sets that allocate their nodes from one arena; a shared pointer is the position of the set in the list of all sets ever
  created. \<open>LocaldbManager\<close> writes through to a LevelDB database, which is code outside the repository: its four operations are the
  fields of a record \<open>leveldb\<close>, and \<open>leveldb_ok\<close> is what its documentation promises. A database handle that was never
  opened is \<open>None\<close>, and using it is undefined behaviour. \<open>Put\<close> and \<open>Write\<close> also give whether their \<open>Status\<close> is ok, which the manager does not
  look at.

  The lemmas show that the managers implement finite maps: of strings, and of sorted sets under any history of
  additions, deletions and queries for any keys.
\<close>

subsection \<open>KvManager\<close>

type_synonym kv_manager = "string hash_kv"

definition KvManager_Init :: "fault + (bool \<times> kv_manager)" where
  "KvManager_Init = sthen (HashKv_Init 1403641) (\<lambda>(_, kv). Inr (True, kv))"

definition KvManager_Query :: "(string \<Rightarrow> u64) \<Rightarrow> kv_manager \<Rightarrow> string \<Rightarrow> fault + value_ptr option" where
  "KvManager_Query h kv key = HashKv_Get h kv key"

definition KvManager_Add :: "(string \<Rightarrow> u64) \<Rightarrow> kv_manager \<Rightarrow> string \<Rightarrow> string \<Rightarrow> fault + (bool \<times> kv_manager)" where
  "KvManager_Add h kv key value = HashKv_Add h kv key value"

definition KvManager_Del :: "(string \<Rightarrow> u64) \<Rightarrow> kv_manager \<Rightarrow> string \<Rightarrow> fault + (bool \<times> kv_manager)" where
  "KvManager_Del h kv key = HashKv_Del h kv key"

lemma KvManager_Init_ok:
  obtains kv where "KvManager_Init = Inr (True, kv)" "kv_ok kv" "contents h kv = Map.empty"
proof -
  obtain kv :: kv_manager where "HashKv_Init 1403641 = Inr (True, kv)" "kv_ok kv" "contents h kv = Map.empty"
    by (rule kv_ok_Init [of 1403641 h]) simp_all
  then show thesis using that by (simp add: KvManager_Init_def)
qed

lemma KvManager_Add_ok:
  assumes "kv_ok kv"
  obtains kv' where "KvManager_Add h kv k v = Inr (True, kv')" "kv_ok kv'" "contents h kv' = (contents h kv)(k \<mapsto> v)"
  using hash_kv.add_ok [OF assms, of h k v] that by (auto simp: KvManager_Add_def)

lemma KvManager_Del_ok:
  assumes "kv_ok kv"
  obtains kv' where "KvManager_Del h kv k = Inr (True, kv')" "kv_ok kv'" "contents h kv' = (contents h kv)(k := None)"
  using hash_kv.del_ok [OF assms, of h k] that by (auto simp: KvManager_Del_def)

lemma KvManager_Query_ok:
  assumes "kv_ok kv"
  obtains (absent) "KvManager_Query h kv k = Inr None" "contents h kv k = None"
    | (present) p v where "KvManager_Query h kv k = Inr (Some p)" "deref kv p = Inr v" "contents h kv k = Some v"
  using HashKv_Get_ok [OF assms, of h k] deref_entry [OF assms, of h k] that
  by (cases "entry h kv k") (auto simp: KvManager_Query_def contents_def)

subsection \<open>ZsetManager\<close>

record zset_manager =
  zset_map :: "nat hash_kv"
  zsets :: "zset list"
  zset_mem :: mem

text \<open>The constructor makes the arena, \<open>Init\<close> the table.\<close>

definition ZsetManager_Init :: "free_store \<Rightarrow> fault + (bool \<times> zset_manager)" where
  "ZsetManager_Init fs =
     sthen (HashKv_Init 87719) (\<lambda>(_, kv). Inr (True, \<lparr>zset_map = kv, zsets = [], zset_mem = (Arena_ctor, fs)\<rparr>))"

text \<open>The set a \<open>shared_ptr\<close> in the table refers to.\<close>

definition zset_at :: "zset_manager \<Rightarrow> value_ptr \<Rightarrow> fault + (nat \<times> zset)" where
  "zset_at zm p =
     sthen (deref (zset_map zm) p) (\<lambda>i. if i < length (zsets zm) then Inr (i, zsets zm ! i) else Inl Undefined)"

definition GetOrCreate_zset ::
  "(string \<Rightarrow> u64) \<Rightarrow> bool \<Rightarrow> new_fn \<Rightarrow> zset_manager \<Rightarrow> string \<Rightarrow> fault + (value_ptr \<times> zset_manager)" where
  "GetOrCreate_zset h dbg nw zm key =
     sthen (HashKv_Get h (zset_map zm) key) (\<lambda>found.
       case found of
         Some p \<Rightarrow> Inr (p, zm)
       | None \<Rightarrow>
           sthen (Zset_ctor dbg nw (zset_mem zm)) (\<lambda>(m, z).
           sthen (HashKv_GetOrCreate h (zset_map zm) key (length (zsets zm))) (\<lambda>(p, kv).
             Inr (p, \<lparr>zset_map = kv, zsets = zsets zm @ [z], zset_mem = m\<rparr>))))"

definition ZsetManager_Add ::
  "(string \<Rightarrow> u64) \<Rightarrow> bool \<Rightarrow> new_fn \<Rightarrow> zset_manager \<Rightarrow> string \<Rightarrow> int \<Rightarrow> string \<Rightarrow> (bool \<times> zset_manager) run" where
  "ZsetManager_Add h dbg nw zm key s v =
     andthen (run_sum (GetOrCreate_zset h dbg nw zm key)) (\<lambda>(p, zm').
     andthen (run_sum (zset_at zm' p)) (\<lambda>(i, z).
     andthen (Zset_Add h dbg nw (zset_mem zm') z s v) (\<lambda>(b, m, z').
       returns (b, zm'\<lparr>zsets := (zsets zm')[i := z'], zset_mem := m\<rparr>))))"

definition ZsetManager_Range ::
  "(string \<Rightarrow> u64) \<Rightarrow> bool \<Rightarrow> zset_manager \<Rightarrow> string \<Rightarrow> int \<Rightarrow> int \<Rightarrow> (bool \<times> zadd_request list) run" where
  "ZsetManager_Range h dbg zm key min_score max_score =
     andthen (run_sum (HashKv_Get h (zset_map zm) key)) (\<lambda>found.
       case found of
         None \<Rightarrow> returns (False, [])
       | Some p \<Rightarrow>
           andthen (run_sum (zset_at zm p)) (\<lambda>(i, z).
           andthen (Zset_Range h dbg z min_score max_score) (\<lambda>res. returns (True, res))))"

definition ZsetManager_Del ::
  "(string \<Rightarrow> u64) \<Rightarrow> zset_manager \<Rightarrow> string \<Rightarrow> string \<Rightarrow> fault + (bool \<times> zset_manager)" where
  "ZsetManager_Del h zm key v =
     sthen (HashKv_Get h (zset_map zm) key) (\<lambda>found.
       case found of
         None \<Rightarrow> Inr (True, zm)
       | Some p \<Rightarrow>
           sthen (zset_at zm p) (\<lambda>(i, z).
           sthen (Zset_Del h z v) (\<lambda>(b, z'). Inr (b, zm\<lparr>zsets := (zsets zm)[i := z']\<rparr>))))"

subsection \<open>LocaldbManager\<close>

record 'd leveldb =
  db_Open :: "'d \<Rightarrow> string \<Rightarrow> 'd option"
  db_entries :: "'d \<Rightarrow> (string \<times> string) list"
  db_Put :: "'d \<Rightarrow> string \<Rightarrow> string \<Rightarrow> bool \<times> 'd"
  db_Write :: "'d \<Rightarrow> (string \<times> string) list \<Rightarrow> bool \<times> 'd"

record 'd localdb =
  ldb_inited :: bool
  ldb_path :: string
  ldb_db :: "'d option"

definition LocaldbManager :: "'d localdb" where
  "LocaldbManager = \<lparr>ldb_inited = False, ldb_path = [], ldb_db = None\<rparr>"

definition LocaldbManager_Init ::
  "'d leveldb \<Rightarrow> (string \<Rightarrow> u64) \<Rightarrow> 'd \<Rightarrow> string \<Rightarrow> 'd localdb \<Rightarrow> kv_manager \<Rightarrow> fault + (bool \<times> 'd localdb \<times> kv_manager)" where
  "LocaldbManager_Init L h disk path ldb kv =
     (case db_Open L disk path of
        None \<Rightarrow> Inr (False, ldb\<lparr>ldb_path := path, ldb_db := None\<rparr>, kv)
      | Some db \<Rightarrow>
          sthen (add_all (KvManager_Add h) kv (db_entries L db)) (\<lambda>kv'.
            Inr (True, ldb\<lparr>ldb_path := path, ldb_db := Some db, ldb_inited := True\<rparr>, kv')))"

definition LocaldbManager_Query :: "'d localdb \<Rightarrow> bool" where
  "LocaldbManager_Query ldb = ldb_inited ldb"

definition LocaldbManager_Add :: "'d leveldb \<Rightarrow> 'd localdb \<Rightarrow> string \<Rightarrow> string \<Rightarrow> fault + 'd localdb" where
  "LocaldbManager_Add L ldb key value =
     (case ldb_db ldb of None \<Rightarrow> Inl Undefined | Some db \<Rightarrow> Inr (ldb\<lparr>ldb_db := Some (snd (db_Put L db key value))\<rparr>))"

definition LocaldbManager_Batch :: "'d leveldb \<Rightarrow> 'd localdb \<Rightarrow> (string \<times> string) list \<Rightarrow> fault + 'd localdb" where
  "LocaldbManager_Batch L ldb reqs =
     (case ldb_db ldb of None \<Rightarrow> Inl Undefined | Some db \<Rightarrow> Inr (ldb\<lparr>ldb_db := Some (snd (db_Write L db reqs))\<rparr>))"

text \<open>What LevelDB promises: an iterator visits each key once, a \<open>Put\<close> that succeeds sets one key, a \<open>Write\<close> that succeeds applies a
  batch in order, and opening a database again finds what was written. Nothing is assumed of a \<open>Put\<close> or \<open>Write\<close> that fails.\<close>

definition db_map :: "'d leveldb \<Rightarrow> 'd \<Rightarrow> string \<rightharpoonup> string" where
  "db_map L db = map_of (db_entries L db)"

definition leveldb_ok :: "'d leveldb \<Rightarrow> bool" where
  "leveldb_ok L \<longleftrightarrow>
     (\<forall>db. distinct (map fst (db_entries L db))) \<and>
     (\<forall>db k v db'. db_Put L db k v = (True, db') \<longrightarrow> db_map L db' = (db_map L db)(k \<mapsto> v)) \<and>
     (\<forall>db kvs db'. db_Write L db kvs = (True, db') \<longrightarrow> db_map L db' = db_map L db ++ map_of (rev kvs)) \<and>
     (\<forall>disk path db. db_Open L disk path = Some db \<longrightarrow> db_map L db = db_map L disk)"

subsection \<open>Sorted sets by key\<close>

text \<open>What a manager holds: for every key with a set, the current scores and the pairs ever added in score order. \<open>Ls\<close> gives
  the nodes of each set's list.\<close>

type_synonym zset_view = "(string \<rightharpoonup> int) \<times> zadd_request list"

definition zview :: "(string \<Rightarrow> u64) \<Rightarrow> zset_manager \<Rightarrow> addr list list \<Rightarrow> string \<rightharpoonup> zset_view" where
  "zview h zm Ls k =
     map_option (\<lambda>i. (zscores h (zsets zm ! i), sl_keys (score_range_map (zsets zm ! i)) (Ls ! i))) (contents h (zset_map zm) k)"

definition zm_inv :: "(string \<Rightarrow> u64) \<Rightarrow> new_fn \<Rightarrow> zset_manager \<Rightarrow> region list \<Rightarrow> addr list list \<Rightarrow> bool" where
  "zm_inv h nw zm R Ls \<longleftrightarrow>
     kv_ok (zset_map zm) \<and> arena_inv nw (zset_mem zm) R \<and> length Ls = length (zsets zm) \<and>
     (\<forall>i<length Ls. zset_inv h nw (zset_mem zm) R (zsets zm ! i) (Ls ! i)) \<and>
     (\<forall>k i. contents h (zset_map zm) k = Some i \<longrightarrow> i < length Ls) \<and>
     (\<forall>k k' i. contents h (zset_map zm) k = Some i \<and> contents h (zset_map zm) k' = Some i \<longrightarrow> k = k')"

lemma zset_inv_frame:
  "zset_inv h nw m R z L \<Longrightarrow> arena_inv nw m' R' \<Longrightarrow> set R \<subseteq> set R' \<Longrightarrow> zset_inv h nw m' R' z L"
  by (fastforce simp: zset_inv_def list_inv_def)

lemma zset_inv_arena: "zset_inv h nw m R z L \<Longrightarrow> arena_inv nw m R"
  by (simp add: zset_inv_def list_inv_def)

lemma zm_invD:
  assumes "zm_inv h nw zm R Ls"
  shows "kv_ok (zset_map zm)" "arena_inv nw (zset_mem zm) R" "length Ls = length (zsets zm)"
    "i < length Ls \<Longrightarrow> zset_inv h nw (zset_mem zm) R (zsets zm ! i) (Ls ! i)"
    "contents h (zset_map zm) k = Some i \<Longrightarrow> i < length Ls"
    "contents h (zset_map zm) k = Some i \<Longrightarrow> contents h (zset_map zm) k' = Some i \<Longrightarrow> k = k'"
  using assms by (auto simp: zm_inv_def)

lemma zm_inv_update:
  assumes inv: "zm_inv h nw zm R Ls" and k: "contents h (zset_map zm) k = Some i"
    and z: "zset_inv h nw m' R' z' L'" and R: "set R \<subseteq> set R'"
  defines "zm' \<equiv> zm\<lparr>zsets := (zsets zm)[i := z'], zset_mem := m'\<rparr>"
  shows "zm_inv h nw zm' R' (Ls[i := L'])"
    and "zview h zm' (Ls[i := L']) = (zview h zm Ls)(k \<mapsto> (zscores h z', sl_keys (score_range_map z') L'))"
proof -
  note d = zm_invD [OF inv]
  have i: "i < length (zsets zm)" using d(5) [OF k] d(3) by simp
  have "zset_inv h nw m' R' ((zsets zm)[i := z'] ! j) (Ls[i := L'] ! j)" if "j < length Ls" for j
    using z zset_inv_frame [OF d(4) [OF that] zset_inv_arena [OF z] R] that d(3) by (cases "j = i") simp_all
  then show "zm_inv h nw zm' R' (Ls[i := L'])"
    using inv zset_inv_arena [OF z] by (auto simp: zm_inv_def zm'_def)
  show "zview h zm' (Ls[i := L']) = (zview h zm Ls)(k \<mapsto> (zscores h z', sl_keys (score_range_map z') L'))"
  proof
    fix k'
    show "zview h zm' (Ls[i := L']) k' = ((zview h zm Ls)(k \<mapsto> (zscores h z', sl_keys (score_range_map z') L'))) k'"
    proof (cases "contents h (zset_map zm) k'")
      case (Some j)
      show ?thesis
        using k i d(3) Some d(5) [OF Some] d(6) [of k _ k'] by (cases "k' = k"; cases "j = i") (auto simp: zview_def zm'_def)
    qed (use k in \<open>auto simp: zview_def zm'_def\<close>)
  qed
qed

lemma zset_at_ok:
  assumes inv: "zm_inv h nw zm R Ls" and "HashKv_Get h (zset_map zm) k = Inr (Some p)"
  obtains i where "contents h (zset_map zm) k = Some i" "i < length Ls" "zset_at zm p = Inr (i, zsets zm ! i)"
proof -
  note d = zm_invD [OF inv]
  from assms(2) obtain n i where e: "entry h (zset_map zm) k = Some (n, i)"
      and p: "p = Value_ptr (h k mod partition_num (zset_map zm)) k n"
    by (auto simp: HashKv_Get_ok [OF d(1)])
  have c: "contents h (zset_map zm) k = Some i" by (simp add: contents_def e)
  then show thesis
    using that [of i] d(3) d(5) [OF c] by (simp add: zset_at_def p deref_entry [OF d(1)] e)
qed

lemma HashKv_Get_contents:
  assumes "kv_ok kv"
  shows "HashKv_Get h kv k = Inr None \<longleftrightarrow> contents h kv k = None"
    and "contents h kv k = Some v \<Longrightarrow> \<exists>p. HashKv_Get h kv k = Inr (Some p)"
  by (auto simp: HashKv_Get_ok [OF assms] contents_def)

text \<open>The set of a key is found, or created empty.\<close>

lemma GetOrCreate_zset_ok:
  assumes inv: "zm_inv h nw zm R Ls"
  shows "GetOrCreate_zset h dbg nw zm k = Inl Bad_alloc \<and> refuses dbg nw (zset_mem zm) sizeof_Node \<or>
    (\<exists>p zm' R' Ls' i. GetOrCreate_zset h dbg nw zm k = Inr (p, zm') \<and> zm_inv h nw zm' R' Ls' \<and>
       zset_at zm' p = Inr (i, zsets zm' ! i) \<and> contents h (zset_map zm') k = Some i \<and> set R \<subseteq> set R' \<and>
       zview h zm' Ls' = (zview h zm Ls)(k \<mapsto> (case zview h zm Ls k of None \<Rightarrow> (Map.empty, []) | Some x \<Rightarrow> x)) \<and>
       (zm' \<noteq> zm \<longrightarrow> grants dbg nw (zset_mem zm) sizeof_Node (zset_mem zm')))"
proof (cases "contents h (zset_map zm) k")
  case (Some i)
  note d = zm_invD [OF inv]
  obtain p where p: "HashKv_Get h (zset_map zm) k = Inr (Some p)" using HashKv_Get_contents(2) [OF d(1) Some] by blast
  obtain j where j: "contents h (zset_map zm) k = Some j" "zset_at zm p = Inr (j, zsets zm ! j)"
    by (rule zset_at_ok [OF inv p])
  have "zview h zm Ls = (zview h zm Ls)(k \<mapsto> (case zview h zm Ls k of None \<Rightarrow> (Map.empty, []) | Some x \<Rightarrow> x))"
    using Some by (auto simp: zview_def fun_eq_iff)
  then show ?thesis using inv p j by (intro disjI2 exI [of _ p] exI [of _ zm] exI [of _ R] exI [of _ Ls] exI [of _ j])
    (simp add: GetOrCreate_zset_def)
next
  case None
  note d = zm_invD [OF inv]
  have g: "HashKv_Get h (zset_map zm) k = Inr None" using HashKv_Get_contents(1) [OF d(1)] None by blast
  show ?thesis using Zset_ctor_ok [OF d(2), of dbg h]
  proof (elim disjE exE conjE)
    assume "Zset_ctor dbg nw (zset_mem zm) = Inl Bad_alloc" "refuses dbg nw (zset_mem zm) sizeof_Node"
    then show ?thesis by (simp add: GetOrCreate_zset_def g)
  next
    fix m z R'
    assume c: "Zset_ctor dbg nw (zset_mem zm) = Inr (m, z)" "zset_inv h nw m R' z []" "zscores h z = Map.empty" "set R \<subseteq> set R'"
      "grants dbg nw (zset_mem zm) sizeof_Node m"
    let ?n = "length (zsets zm)"
    obtain p kv where p: "HashKv_GetOrCreate h (zset_map zm) k ?n = Inr (p, kv)" and kv: "kv_ok kv"
      and pp: "p = Value_ptr (h k mod partition_num (zset_map zm)) k (fst (the (entry h kv k)))"
      and part: "partition_num kv = partition_num (zset_map zm)"
      and e: "entry h kv = (entry h (zset_map zm))(k \<mapsto>
           (case entry h (zset_map zm) k of Some e \<Rightarrow> e | None \<Rightarrow> (fresh_of h (zset_map zm) k, ?n)))"
      by (rule HashKv_GetOrCreate_ok [OF d(1), of h k ?n])
    have ek: "entry h kv k = Some (fresh_of h (zset_map zm) k, ?n)"
      using None by (simp add: e contents_def)
    have ct: "contents h kv = (contents h (zset_map zm))(k \<mapsto> ?n)"
      using None by (auto simp: contents_def e fun_eq_iff)
    let ?zm = "\<lparr>zset_map = kv, zsets = zsets zm @ [z], zset_mem = m\<rparr>"
    have "zset_inv h nw m R' ((zsets zm @ [z]) ! i) ((Ls @ [[]]) ! i)" if "i < Suc ?n" for i
      using c(2) zset_inv_frame [OF d(4) zset_inv_arena [OF c(2)] c(4)] that d(3) by (cases "i = ?n") (auto simp: nth_append)
    then have "zm_inv h nw ?zm R' (Ls @ [[]])"
      using d kv zset_inv_arena [OF c(2)] by (auto simp: zm_inv_def ct less_Suc_eq)
    moreover have "zset_at ?zm p = Inr (?n, zsets ?zm ! ?n)"
      using deref_entry [OF kv, of h k] by (simp add: zset_at_def pp ek part nth_append)
    moreover have "zview h ?zm (Ls @ [[]]) = (zview h zm Ls)(k \<mapsto> (Map.empty, []))"
      using None c(3) d(3) d(5) by (auto simp: zview_def ct fun_eq_iff sl_keys_def nth_append intro!: option.map_cong)
    ultimately show ?thesis
      using g c p ct None by (intro disjI2 exI [of _ p] exI [of _ ?zm] exI [of _ R'] exI [of _ "Ls @ [[]]"] exI [of _ ?n])
        (simp add: GetOrCreate_zset_def zview_def)
  qed
qed

text \<open>Histories of the manager, and how its view changes.\<close>

datatype zm_op = ZmAdd string int string | ZmDel string string

fun zm_step :: "(string \<Rightarrow> u64) \<Rightarrow> bool \<Rightarrow> new_fn \<Rightarrow> zset_manager \<Rightarrow> zm_op \<Rightarrow> zset_manager run" where
  "zm_step h dbg nw zm (ZmAdd k s v) = andthen (ZsetManager_Add h dbg nw zm k s v) (\<lambda>(_, zm'). returns zm')"
| "zm_step h dbg nw zm (ZmDel k v) = andthen (run_sum (ZsetManager_Del h zm k v)) (\<lambda>(_, zm'). returns zm')"

fun zm_run :: "(string \<Rightarrow> u64) \<Rightarrow> bool \<Rightarrow> new_fn \<Rightarrow> zset_manager \<Rightarrow> zm_op list \<Rightarrow> zset_manager run" where
  "zm_run h dbg nw zm [] = returns zm"
| "zm_run h dbg nw zm (op # ops) = andthen (zm_step h dbg nw zm op) (\<lambda>zm'. zm_run h dbg nw zm' ops)"

fun zview_step :: "zm_op \<Rightarrow> (string \<rightharpoonup> zset_view) \<Rightarrow> string \<rightharpoonup> zset_view" where
  "zview_step (ZmAdd k s v) M =
     (let (c, ps) = (case M k of None \<Rightarrow> (Map.empty, []) | Some x \<Rightarrow> x)
      in M(k \<mapsto> (c(v \<mapsto> s), insort_key score \<lparr>score = s, zvalue = v\<rparr> ps)))"
| "zview_step (ZmDel k v) M =
     (case M k of None \<Rightarrow> M | Some (c, ps) \<Rightarrow> M(k \<mapsto> (c(v := None), ps)))"

text \<open>Whether an operation adds a score that the set of its key has had before.\<close>

fun zm_repeats :: "(string \<rightharpoonup> zset_view) \<Rightarrow> zm_op \<Rightarrow> bool" where
  "zm_repeats M (ZmAdd k s v) = (case M k of None \<Rightarrow> False | Some (c, ps) \<Rightarrow> s \<in> score ` set ps)"
| "zm_repeats M (ZmDel k v) = False"

fun zm_fresh :: "(string \<rightharpoonup> zset_view) \<Rightarrow> zm_op list \<Rightarrow> bool" where
  "zm_fresh M [] \<longleftrightarrow> True"
| "zm_fresh M (op # ops) \<longleftrightarrow> \<not> zm_repeats M op \<and> zm_fresh (zview_step op M) ops"

lemma ZsetManager_Add_ok:
  assumes inv: "zm_inv h nw zm R Ls" and fresh: "dbg \<Longrightarrow> \<not> zm_repeats (zview h zm Ls) (ZmAdd k s v)"
  shows "ZsetManager_Add h dbg nw zm k s v = fails Bad_alloc \<or>
    (\<exists>zm' R' Ls'. ZsetManager_Add h dbg nw zm k s v = returns (True, zm') \<and> zm_inv h nw zm' R' Ls' \<and>
       zview h zm' Ls' = zview_step (ZmAdd k s v) (zview h zm Ls))"
  using GetOrCreate_zset_ok [OF inv, of dbg k]
proof (elim disjE exE conjE)
  fix p zm1 R1 Ls1 i
  assume g: "GetOrCreate_zset h dbg nw zm k = Inr (p, zm1)" "zm_inv h nw zm1 R1 Ls1" "zset_at zm1 p = Inr (i, zsets zm1 ! i)"
    "contents h (zset_map zm1) k = Some i"
    "zview h zm1 Ls1 = (zview h zm Ls)(k \<mapsto> (case zview h zm Ls k of None \<Rightarrow> (Map.empty, []) | Some x \<Rightarrow> x))"
  let ?z = "zsets zm1 ! i" and ?old = "case zview h zm Ls k of None \<Rightarrow> (Map.empty, []) | Some x \<Rightarrow> x"
  have z: "zset_inv h nw (zset_mem zm1) R1 ?z (Ls1 ! i)"
    using zm_invD(4) [OF g(2)] zm_invD(5) [OF g(2,4)] by blast
  have old: "?old = (zscores h ?z, sl_keys (score_range_map ?z) (Ls1 ! i))"
    using fun_cong [OF g(5), of k] g(4) by (simp add: zview_def)
  have nodup: "\<not> (dbg \<and> s \<in> score ` set (sl_keys (score_range_map ?z) (Ls1 ! i)))"
    using fresh old by (auto split: option.splits)
  show ?thesis using Zset_Add_ok [OF z nodup, of v]
  proof (elim disjE exE conjE)
    assume "Zset_Add h dbg nw (zset_mem zm1) ?z s v = fails Bad_alloc"
    then show ?thesis by (simp add: ZsetManager_Add_def g)
  next
    fix m' z' R' L'
    assume a: "Zset_Add h dbg nw (zset_mem zm1) ?z s v = returns (True, m', z')" "zset_inv h nw m' R' z' L'"
      "zscores h z' = (zscores h ?z)(v \<mapsto> s)" "set R1 \<subseteq> set R'"
      "sl_keys (score_range_map z') L' = insort_key score \<lparr>score = s, zvalue = v\<rparr> (sl_keys (score_range_map ?z) (Ls1 ! i))"
    note u = zm_inv_update [OF g(2,4) a(2,4)]
    have "zview h (zm1\<lparr>zsets := (zsets zm1)[i := z'], zset_mem := m'\<rparr>) (Ls1[i := L']) = zview_step (ZmAdd k s v) (zview h zm Ls)"
      by (simp add: u(2) a(3,5) g(5) old)
    then show ?thesis using u(1) a(1) by (auto simp: ZsetManager_Add_def g)
  qed
qed (simp add: ZsetManager_Add_def)

text \<open>In a build with assertions, a score that the set of the key has had before stops the process.\<close>

lemma ZsetManager_Add_repeated:
  assumes inv: "zm_inv h nw zm R Ls" and rep: "zm_repeats (zview h zm Ls) (ZmAdd k s v)"
  shows "ZsetManager_Add h True nw zm k s v = fails Assertion"
proof -
  obtain i where i: "contents h (zset_map zm) k = Some i" "s \<in> score ` set (sl_keys (score_range_map (zsets zm ! i)) (Ls ! i))"
    using rep by (auto simp: zview_def split: option.splits)
  obtain p where p: "HashKv_Get h (zset_map zm) k = Inr (Some p)" using HashKv_Get_contents(2) [OF zm_invD(1) [OF inv] i(1)] by blast
  obtain j where "contents h (zset_map zm) k = Some j" "zset_at zm p = Inr (j, zsets zm ! j)"
    by (rule zset_at_ok [OF inv p])
  with i(1) have at: "zset_at zm p = Inr (i, zsets zm ! i)" by simp
  have z: "zset_inv h nw (zset_mem zm) R (zsets zm ! i) (Ls ! i)" using zm_invD(4) [OF inv] zm_invD(5) [OF inv i(1)] by blast
  show ?thesis using Zset_Add_repeated [OF z i(2), of v] by (simp add: ZsetManager_Add_def GetOrCreate_zset_def p at)
qed

lemma ZsetManager_Del_ok:
  assumes inv: "zm_inv h nw zm R Ls"
  shows "\<exists>zm'. ZsetManager_Del h zm k v = Inr (True, zm') \<and> zm_inv h nw zm' R Ls \<and>
    zview h zm' Ls = zview_step (ZmDel k v) (zview h zm Ls)"
proof (cases "contents h (zset_map zm) k")
  case None
  then show ?thesis
    using inv HashKv_Get_contents(1) [OF zm_invD(1) [OF inv], of h k] by (simp add: ZsetManager_Del_def zview_def)
next
  case (Some i)
  obtain p where p: "HashKv_Get h (zset_map zm) k = Inr (Some p)" using HashKv_Get_contents(2) [OF zm_invD(1) [OF inv] Some] by blast
  obtain j where "contents h (zset_map zm) k = Some j" "zset_at zm p = Inr (j, zsets zm ! j)"
    by (rule zset_at_ok [OF inv p])
  with Some have at: "zset_at zm p = Inr (i, zsets zm ! i)" by simp
  let ?z = "zsets zm ! i"
  have z: "zset_inv h nw (zset_mem zm) R ?z (Ls ! i)" using zm_invD(4) [OF inv] zm_invD(5) [OF inv Some] by blast
  obtain z' where d: "Zset_Del h ?z v = Inr (True, z')" "zset_inv h nw (zset_mem zm) R z' (Ls ! i)"
    "zscores h z' = (zscores h ?z)(v := None)" "score_range_map z' = score_range_map ?z"
    using Zset_Del_ok [OF z] by blast
  note u = zm_inv_update [OF inv Some d(2) subset_refl]
  show ?thesis
    using u d Some by (intro exI [of _ "zm\<lparr>zsets := (zsets zm)[i := z']\<rparr>"])
      (simp add: ZsetManager_Del_def p at zview_def)
qed

lemma ZsetManager_Range_ok:
  assumes inv: "zm_inv h nw zm R Ls"
  shows "ZsetManager_Range h dbg zm k lo hi =
    returns (case zview h zm Ls k of
               None \<Rightarrow> (False, [])
             | Some (c, ps) \<Rightarrow> (True, filter (\<lambda>p. lo \<le> score p \<and> score p \<le> hi \<and> c (zvalue p) = Some (score p)) ps))"
proof (cases "contents h (zset_map zm) k")
  case None
  then show ?thesis
    using HashKv_Get_contents(1) [OF zm_invD(1) [OF inv], of h k] by (simp add: ZsetManager_Range_def zview_def)
next
  case (Some i)
  obtain p where p: "HashKv_Get h (zset_map zm) k = Inr (Some p)" using HashKv_Get_contents(2) [OF zm_invD(1) [OF inv] Some] by blast
  obtain j where "contents h (zset_map zm) k = Some j" "zset_at zm p = Inr (j, zsets zm ! j)"
    by (rule zset_at_ok [OF inv p])
  with Some have at: "zset_at zm p = Inr (i, zsets zm ! i)" by simp
  have z: "zset_inv h nw (zset_mem zm) R (zsets zm ! i) (Ls ! i)" using zm_invD(4) [OF inv] zm_invD(5) [OF inv Some] by blast
  show ?thesis
    using Zset_Range_filter [OF z, of dbg lo hi] Some by (simp add: ZsetManager_Range_def p at zview_def current_def)
qed

lemma zm_run_ok:
  assumes "zm_inv h nw zm R Ls"
  shows "zm_run h dbg nw zm ops = fails Bad_alloc \<or>
    (if dbg \<and> \<not> zm_fresh (zview h zm Ls) ops then zm_run h dbg nw zm ops = fails Assertion
     else \<exists>zm' R' Ls'. zm_run h dbg nw zm ops = returns zm' \<and> zm_inv h nw zm' R' Ls' \<and>
       zview h zm' Ls' = fold zview_step ops (zview h zm Ls))"
  using assms
proof (induction ops arbitrary: zm R Ls)
  case (Cons op ops)
  have "zm_step h dbg nw zm op = fails Bad_alloc \<or>
    (\<exists>zm1 R1 Ls1. zm_step h dbg nw zm op = returns zm1 \<and> zm_inv h nw zm1 R1 Ls1 \<and> zview h zm1 Ls1 = zview_step op (zview h zm Ls))"
    if "\<not> (dbg \<and> zm_repeats (zview h zm Ls) op)"
  proof (cases op)
    case (ZmAdd k s v)
    then show ?thesis using ZsetManager_Add_ok [OF Cons.prems(1), of dbg k s v] that by (auto simp del: zview_step.simps)
  next
    case (ZmDel k v)
    then show ?thesis using ZsetManager_Del_ok [OF Cons.prems(1), of k v] by (auto simp del: zview_step.simps)
  qed
  then consider "dbg" "zm_repeats (zview h zm Ls) op" | "zm_step h dbg nw zm op = fails Bad_alloc"
    | zm1 R1 Ls1 where "\<not> (dbg \<and> zm_repeats (zview h zm Ls) op)" "zm_step h dbg nw zm op = returns zm1" "zm_inv h nw zm1 R1 Ls1"
      "zview h zm1 Ls1 = zview_step op (zview h zm Ls)" by blast
  then show ?case
  proof cases
    case 1
    then show ?thesis using ZsetManager_Add_repeated [OF Cons.prems] by (cases op) auto
  next
    case 3
    have run: "zm_run h dbg nw zm (op # ops) = zm_run h dbg nw zm1 ops" using 3(2) by simp
    have "dbg \<and> \<not> zm_fresh (zview h zm Ls) (op # ops) \<longleftrightarrow> dbg \<and> \<not> zm_fresh (zview_step op (zview h zm Ls)) ops" using 3(1) by auto
    then show ?thesis using Cons.IH [OF 3(3)] unfolding run 3(4) fold.simps comp_def by (simp only:)
  qed simp
qed auto

lemma ZsetManager_Init_ok:
  assumes "arena_inv nw (Arena_ctor, fs) R"
  obtains zm where "ZsetManager_Init fs = Inr (True, zm)" "zm_inv h nw zm R []" "zview h zm [] = Map.empty"
proof -
  obtain kv :: "nat hash_kv" where "HashKv_Init 87719 = Inr (True, kv)" "kv_ok kv" "contents h kv = Map.empty"
    by (rule kv_ok_Init [of 87719 h]) simp_all
  then show thesis
    using that [of "\<lparr>zset_map = kv, zsets = [], zset_mem = (Arena_ctor, fs)\<rparr>"] assms
    by (simp add: ZsetManager_Init_def zm_inv_def zview_def fun_eq_iff)
qed

lemma LocaldbManager_Init_ok:
  assumes "leveldb_ok L" "kv_ok kv" "db_Open L disk path = Some db"
  obtains kv' where "LocaldbManager_Init L h disk path ldb kv = Inr (True, ldb\<lparr>ldb_path := path, ldb_db := Some db, ldb_inited := True\<rparr>, kv')"
    "kv_ok kv'" "contents h kv' = contents h kv ++ db_map L disk"
proof -
  obtain kv' where a: "add_all (HashKv_Add h) kv (db_entries L db) = Inr kv'" "kv_ok kv'"
    "contents h kv' = contents h kv ++ map_of (rev (db_entries L db))"
    using hash_kv.add_all_ok [OF assms(2), of h "db_entries L db"] by blast
  have "distinct (map fst (db_entries L db))" "db_map L db = db_map L disk"
    using assms(1,3) by (auto simp: leveldb_ok_def)
  then have "map_of (rev (db_entries L db)) = db_map L disk" using map_of_inject_set [of "rev (db_entries L db)" "db_entries L db"] by (simp add: db_map_def flip: rev_map)
  moreover have "KvManager_Add h = HashKv_Add h" by (simp add: KvManager_Add_def fun_eq_iff)
  ultimately show thesis using that a assms(3) by (simp add: LocaldbManager_Init_def)
qed

subsection \<open>The sorted sets as a specification\<close>

text \<open>The sorted sets of the interface: for every key that has one, the score of each member. Adding a member sets its score, removing it takes it out, and a set that
  has lost its last member stays. \<open>added_to\<close> lists what was added under a key, for the multiplicities.\<close>

type_synonym sorted_sets = "string \<rightharpoonup> (string \<rightharpoonup> int)"

fun sets_step :: "zm_op \<Rightarrow> sorted_sets \<Rightarrow> sorted_sets" where
  "sets_step (ZmAdd k s v) M = M(k \<mapsto> (case M k of None \<Rightarrow> Map.empty | Some c \<Rightarrow> c)(v \<mapsto> s))"
| "sets_step (ZmDel k v) M = (case M k of None \<Rightarrow> M | Some c \<Rightarrow> M(k \<mapsto> c(v := None)))"

fun added_to :: "string \<Rightarrow> zm_op list \<Rightarrow> zadd_request list" where
  "added_to k [] = []"
| "added_to k (ZmAdd k' s v # ops) = (if k' = k then \<lparr>score = s, zvalue = v\<rparr> # added_to k ops else added_to k ops)"
| "added_to k (ZmDel k' v # ops) = added_to k ops"

definition members_within :: "(string \<rightharpoonup> int) \<Rightarrow> int \<Rightarrow> int \<Rightarrow> zadd_request set" where
  "members_within c lo hi = {p. lo \<le> score p \<and> score p \<le> hi \<and> c (zvalue p) = Some (score p)}"

text \<open>A listing of a set: the members within the bounds and nothing else, in ascending order of score, each as often as it was added with that score.\<close>

definition lists_range :: "(string \<rightharpoonup> int) \<Rightarrow> zadd_request list \<Rightarrow> int \<Rightarrow> int \<Rightarrow> zadd_request list \<Rightarrow> bool" where
  "lists_range c added lo hi res \<longleftrightarrow>
     sorted (map score res) \<and> set res = members_within c lo hi \<and> (\<forall>p\<in>set res. count_list res p = count_list added p)"

text \<open>A view that represents sorted sets.\<close>

fun represents_one :: "zset_view option \<Rightarrow> (string \<rightharpoonup> int) option \<Rightarrow> zadd_request list \<Rightarrow> bool" where
  "represents_one None M A \<longleftrightarrow> M = None \<and> A = []"
| "represents_one (Some (c, ps)) M A \<longleftrightarrow>
     M = Some c \<and> mset ps = mset A \<and> sorted (map score ps) \<and> (\<forall>v s. c v = Some s \<longrightarrow> \<lparr>score = s, zvalue = v\<rparr> \<in> set ps)"

definition represents :: "(string \<rightharpoonup> zset_view) \<Rightarrow> sorted_sets \<Rightarrow> (string \<Rightarrow> zadd_request list) \<Rightarrow> bool" where
  "represents V M A \<longleftrightarrow> (\<forall>k. represents_one (V k) (M k) (A k))"

lemma representsD: "represents V M A \<Longrightarrow> represents_one (V k) (M k) (A k)"
  by (simp add: represents_def)

fun note_added :: "zm_op \<Rightarrow> (string \<Rightarrow> zadd_request list) \<Rightarrow> string \<Rightarrow> zadd_request list" where
  "note_added (ZmAdd k s v) A = A(k := A k @ [\<lparr>score = s, zvalue = v\<rparr>])"
| "note_added (ZmDel k v) A = A"

lemma represents_empty [simp]: "represents Map.empty Map.empty (\<lambda>_. [])"
  by (simp add: represents_def)

lemma represents_update:
  assumes "represents V M A" "represents_one x m a" "V' = V(k := x)" "M' = M(k := m)" "A' = A(k := a)"
  shows "represents V' M' A'"
  using assms by (simp add: represents_def)

lemma represents_step:
  assumes rep: "represents V M A"
  shows "represents (zview_step op V) (sets_step op M) (note_added op A)"
proof (cases op)
  case (ZmAdd k s v)
  let ?p = "\<lparr>score = s, zvalue = v\<rparr>"
  obtain c ps where old: "(case V k of None \<Rightarrow> (Map.empty, []) | Some x \<Rightarrow> x) = (c, ps)" by fastforce
  have r: "represents_one (Some (c, ps)) (Some (case M k of None \<Rightarrow> Map.empty | Some c \<Rightarrow> c)) (A k)"
    using representsD [OF rep, of k] old by (cases "V k") auto
  then have "represents_one (Some (c(v \<mapsto> s), insort_key score ?p ps)) (Some ((case M k of None \<Rightarrow> Map.empty | Some c \<Rightarrow> c)(v \<mapsto> s))) (A k @ [?p])"
    by (auto simp: sorted_insort_key set_insort_key)
  then show ?thesis by (rule represents_update [OF rep, where k = k]) (simp_all add: ZmAdd old)
next
  case (ZmDel k v)
  show ?thesis
  proof (cases "V k")
    case None
    then show ?thesis using rep representsD [OF rep, of k] by (simp add: ZmDel)
  next
    case (Some cps)
    obtain c ps where cps: "cps = (c, ps)" by fastforce
    have r: "represents_one (Some (c, ps)) (M k) (A k)" using representsD [OF rep, of k] Some cps by simp
    then have "represents_one (Some (c(v := None), ps)) (Some (c(v := None))) (A k)" by auto
    then show ?thesis
      by (rule represents_update [OF rep, where k = k]) (use r in \<open>simp_all add: ZmDel Some cps\<close>)
  qed
qed

lemma represents_fold:
  "represents V M A \<Longrightarrow> represents (fold zview_step ops V) (fold sets_step ops M) (\<lambda>k. A k @ added_to k ops)"
proof (induction ops arbitrary: V M A)
  case (Cons op ops)
  have "(\<lambda>k. note_added op A k @ added_to k ops) = (\<lambda>k. A k @ added_to k (op # ops))" by (cases op) auto
  then show ?case using Cons.IH [OF represents_step [OF Cons.prems, of op]] by simp
qed simp

lemma represents_repeats:
  assumes "represents V M A"
  shows "zm_repeats V (ZmAdd k s v) \<longleftrightarrow> s \<in> score ` set (A k)"
proof (cases "V k")
  case (Some cps)
  obtain c ps where cps: "cps = (c, ps)" by fastforce
  then have "set ps = set (A k)" using representsD [OF assms, of k] Some by (intro mset_eq_setD) simp
  then show ?thesis by (simp add: Some cps)
qed (use representsD [OF assms, of k] in simp)

lemma represents_fresh:
  "represents V M A \<Longrightarrow> (\<And>k. distinct (map score (A k))) \<Longrightarrow>
   zm_fresh V ops \<longleftrightarrow> (\<forall>k. distinct (map score (A k @ added_to k ops)))"
proof (induction ops arbitrary: V M A)
  case (Cons op ops)
  have e: "note_added op A k @ added_to k ops = A k @ added_to k (op # ops)" for k by (cases op) auto
  show ?case
  proof (cases op)
    case (ZmAdd k s v)
    show ?thesis
    proof (cases "s \<in> score ` set (A k)")
      case True
      then have "\<not> distinct (map score (A k @ added_to k (op # ops)))" using ZmAdd by auto
      then show ?thesis using True represents_repeats [OF Cons.prems(1)] ZmAdd by auto
    next
      case False
      then have "distinct (map score (note_added op A k'))" for k' using Cons.prems(2) ZmAdd by auto
      from Cons.IH [OF represents_step [OF Cons.prems(1), of op] this] show ?thesis
        using False represents_repeats [OF Cons.prems(1)] ZmAdd unfolding e by (simp only: zm_fresh.simps) simp
    qed
  next
    case (ZmDel k v)
    have "distinct (map score (note_added op A k'))" for k' using Cons.prems(2) ZmDel by simp
    from Cons.IH [OF represents_step [OF Cons.prems(1), of op] this] show ?thesis
      unfolding e by (simp add: ZmDel)
  qed
qed simp

lemma represents_range:
  assumes "represents V M A"
  shows "case V k of None \<Rightarrow> M k = None
    | Some (c, ps) \<Rightarrow> M k = Some c \<and> lists_range c (A k) lo hi (filter (\<lambda>p. lo \<le> score p \<and> score p \<le> hi \<and> c (zvalue p) = Some (score p)) ps)"
proof (cases "V k")
  case (Some cps)
  obtain c ps where cps: "cps = (c, ps)" by fastforce
  then have r: "M k = Some c" "mset ps = mset (A k)" "sorted (map score ps)" "\<And>v s. c v = Some s \<Longrightarrow> \<lparr>score = s, zvalue = v\<rparr> \<in> set ps"
    using representsD [OF assms, of k] Some by auto
  let ?in = "\<lambda>p. lo \<le> score p \<and> score p \<le> hi \<and> c (zvalue p) = Some (score p)"
  have "p \<in> set ps" if "?in p" for p using that r(4) [of "zvalue p" "score p"] by (cases p) simp
  then have "set (filter ?in ps) = members_within c lo hi" by (auto simp: members_within_def)
  moreover have "count_list (filter ?in ps) p = count_list (A k) p" if "p \<in> set (filter ?in ps)" for p
    using that arg_cong [OF r(2), of "\<lambda>X. count X p"] by (simp flip: count_mset)
  ultimately show ?thesis using Some cps r(1) sorted_filter [OF r(3), of ?in] by (auto simp: lists_range_def)
qed (use representsD [OF assms, of k] in simp)

subsection \<open>Properties\<close>

text \<open>Claim C9. The sorted sets of different keys do not disturb each other, although they share an arena: after any history of additions and
  deletions on any keys, \<open>Range\<close> reports a key under which nothing was ever added as absent, and for every other key and all bounds lists exactly the members whose
  score lies within the bounds, with that score, in ascending order of score, each as often as it was added under that key with that score. The other
  outcomes are that memory runs out, and that in a build with assertions the process stops because the history adds the same score twice under one key.\<close>

theorem ZsetManager_refines:
  assumes "arena_inv nw (Arena_ctor, fs) R" "ZsetManager_Init fs = Inr (b, zm)"
  shows "zm_run h dbg nw zm ops = fails Bad_alloc \<or>
    (if dbg \<and> (\<exists>k. \<not> distinct (map score (added_to k ops))) then zm_run h dbg nw zm ops = fails Assertion
     else \<exists>zm'. zm_run h dbg nw zm ops = returns zm' \<and>
      (\<forall>k lo hi. case fold sets_step ops Map.empty k of
         None \<Rightarrow> ZsetManager_Range h dbg zm' k lo hi = returns (False, [])
       | Some c \<Rightarrow> \<exists>res. ZsetManager_Range h dbg zm' k lo hi = returns (True, res) \<and> lists_range c (added_to k ops) lo hi res))"
proof -
  obtain zm0 where i: "ZsetManager_Init fs = Inr (True, zm0)" "zm_inv h nw zm0 R []" "zview h zm0 [] = Map.empty"
    by (rule ZsetManager_Init_ok [OF assms(1)])
  then have zm: "zm = zm0" using assms(2) by simp
  have fr: "zm_fresh Map.empty ops \<longleftrightarrow> (\<forall>k. distinct (map score (added_to k ops)))"
    using represents_fresh [OF represents_empty, of ops] by simp
  have rep: "represents (fold zview_step ops Map.empty) (fold sets_step ops Map.empty) (\<lambda>k. added_to k ops)"
    using represents_fold [OF represents_empty, of ops] by simp
  have range: "case fold sets_step ops Map.empty k of
         None \<Rightarrow> ZsetManager_Range h dbg zm' k lo hi = returns (False, [])
       | Some c \<Rightarrow> \<exists>res. ZsetManager_Range h dbg zm' k lo hi = returns (True, res) \<and> lists_range c (added_to k ops) lo hi res"
    if "zm_inv h nw zm' R' Ls'" "zview h zm' Ls' = fold zview_step ops Map.empty" for zm' R' Ls' k lo hi
    using represents_range [OF rep, of k lo hi] ZsetManager_Range_ok [OF that(1), of dbg k lo hi] unfolding that(2)
    by (auto split: option.splits)
  show ?thesis using zm_run_ok [OF i(2), of dbg ops] range unfolding i(3) fr zm
    by (auto split: if_splits)
qed

theorem ZsetManager_refines_witness:
  "\<exists>zm. ZsetManager_Init [] = Inr (True, zm) \<and>
    (let ops = [ZmAdd ''room'' 2 ''ann'', ZmAdd ''hall'' 2 ''bob'', ZmAdd ''room'' 1 ''cid'', ZmDel ''hall'' ''bob''] in
     zm_run (\<lambda>_. 0) True bump_new zm ops = fails Bad_alloc \<or>
     (\<exists>zm' res. zm_run (\<lambda>_. 0) True bump_new zm ops = returns zm' \<and>
       ZsetManager_Range (\<lambda>_. 0) True zm' ''room'' 2 5 = returns (True, res) \<and> set res = {\<lparr>score = 2, zvalue = ''ann''\<rparr>} \<and>
       ZsetManager_Range (\<lambda>_. 0) True zm' ''attic'' 0 5 = returns (False, [])))"
proof -
  let ?ops = "[ZmAdd ''room'' 2 ''ann'', ZmAdd ''hall'' 2 ''bob'', ZmAdd ''room'' 1 ''cid'', ZmDel ''hall'' ''bob'']"
  obtain zm where z: "ZsetManager_Init [] = Inr (True, zm)"
    by (rule ZsetManager_Init_ok [OF arena_inv_empty])
  have d: "distinct (map score (added_to k ?ops))" for k by (cases "k = ''room''") auto
  have m: "members_within [''ann'' \<mapsto> 2, ''cid'' \<mapsto> 1] 2 5 = {\<lparr>score = 2, zvalue = ''ann''\<rparr>}"
    by (auto simp: members_within_def split: if_splits)
  note q = ZsetManager_refines [OF arena_inv_empty z, of "\<lambda>_. 0" True ?ops, simplified d simp_thms if_False]
  show ?thesis
  proof (cases "zm_run (\<lambda>_. 0) True bump_new zm ?ops = fails Bad_alloc")
    case True
    then show ?thesis using z unfolding Let_def by blast
  next
    case False
    with q obtain zm' where r: "zm_run (\<lambda>_. 0) True bump_new zm ?ops = returns zm'"
      and g: "\<And>k lo hi. case fold sets_step ?ops Map.empty k of
         None \<Rightarrow> ZsetManager_Range (\<lambda>_. 0) True zm' k lo hi = returns (False, [])
       | Some c \<Rightarrow> \<exists>res. ZsetManager_Range (\<lambda>_. 0) True zm' k lo hi = returns (True, res) \<and> lists_range c (added_to k ?ops) lo hi res"
      by blast
    have "\<exists>res. ZsetManager_Range (\<lambda>_. 0) True zm' ''room'' 2 5 = returns (True, res) \<and> set res = {\<lparr>score = 2, zvalue = ''ann''\<rparr>}"
      using g [of "''room''" 2 5] m by (auto simp: lists_range_def)
    moreover have "ZsetManager_Range (\<lambda>_. 0) True zm' ''attic'' 0 5 = returns (False, [])" using g [of "''attic''" 0 5] by simp
    ultimately show ?thesis using z r unfolding Let_def by blast
  qed
qed

end
