(* ===== verification/Param_Parse.thy ===== *)
theory Param_Parse
  imports Flare_String
begin

section \<open>Path parameters (cache/utils/param_parse.h, param_parse.cc)\<close>

text \<open>
  \<open>ParamParse\<close> turns a template such as \<open>/query/{key}$\<close> into a regular expression and reads the parameters off the request target.
  The first part models what the repository uses of \<open>std::regex\<close>: patterns of literals, \<open>.\<close>, escaped punctuation, \<open>^\<close>, \<open>$\<close>, groups that do not nest, and
  the quantifiers \<open>*\<close>, \<open>+\<close> on a single character, greedy or lazy. \<open>rx_compile\<close> is \<open>None\<close> on any other pattern, and so is every operation that
  was given one; the templates of the program all compile. Matching tries alternatives in the order ECMAScript prescribes: the
  leftmost start first, a lazy quantifier as few and a greedy one as many characters as possible. As in libstdc++, \<open>.\<close> matches all
  characters but line feed and carriage return, and \<open>$\<close> only the end of the input.

  The main lemmas characterise the parameters of the two kinds of template the handlers use.
\<close>

subsection \<open>Regular expressions\<close>

datatype rx_atom = Lit char | Dot

datatype rx_token = One rx_atom | Many rx_atom bool | Open_group | Close_group | Bol | Eol

type_synonym rx = "rx_token list"

definition LF_char :: char where "LF_char = CHR 0x0A"

definition CR_char :: char where "CR_char = CHR 0x0D"

primrec rx_accepts :: "rx_atom \<Rightarrow> char \<Rightarrow> bool" where
  "rx_accepts (Lit c) x \<longleftrightarrow> x = c"
| "rx_accepts Dot x \<longleftrightarrow> x \<noteq> LF_char \<and> x \<noteq> CR_char"

definition rx_special :: "char \<Rightarrow> bool" where
  "rx_special c \<longleftrightarrow> c \<in> set (CHR 0x5C # ''^$.*+?()[]{}|'')"

text \<open>The quantifier after an atom, if any; the flag of \<open>Many\<close> is set when it is lazy.\<close>

fun rx_quantified :: "rx_atom \<Rightarrow> string \<Rightarrow> rx \<times> string" where
  "rx_quantified a (q # s) =
     (let (lazy, rest) = (case s of l # s' \<Rightarrow> if l = CHR ''?'' then (True, s') else (False, s) | [] \<Rightarrow> (False, s))
      in if q = CHR ''*'' then ([Many a lazy], rest)
         else if q = CHR ''+'' then ([One a, Many a lazy], rest)
         else ([One a], q # s))"
| "rx_quantified a [] = ([One a], [])"

lemma rx_quantified_shorter: "length (snd (rx_quantified a s)) \<le> length s"
  by (cases s) (auto simp: Let_def split: list.splits)

function rx_compile :: "bool \<Rightarrow> string \<Rightarrow> rx option" where
  "rx_compile inside [] = (if inside then None else Some [])"
| "rx_compile inside (c # s) =
     (if c = CHR ''('' then (if inside then None else map_option (Cons Open_group) (rx_compile True s))
      else if c = CHR '')'' then (if inside then map_option (Cons Close_group) (rx_compile False s) else None)
      else if c = CHR ''^'' then map_option (Cons Bol) (rx_compile inside s)
      else if c = CHR ''$'' then map_option (Cons Eol) (rx_compile inside s)
      else if c = CHR ''.'' then
        map_option (append (fst (rx_quantified Dot s))) (rx_compile inside (snd (rx_quantified Dot s)))
      else if c = CHR 0x5C then
        (case s of
           [] \<Rightarrow> None
         | d # s' \<Rightarrow>
             if rx_special d then
               map_option (append (fst (rx_quantified (Lit d) s'))) (rx_compile inside (snd (rx_quantified (Lit d) s')))
             else None)
      else if rx_special c then None
      else map_option (append (fst (rx_quantified (Lit c) s))) (rx_compile inside (snd (rx_quantified (Lit c) s))))"
  by pat_completeness auto
termination
proof (relation "measure (\<lambda>(_, s). length s)", goal_cases)
qed (simp_all add: less_Suc_eq_le le_SucI rx_quantified_shorter)

text \<open>Matching at one position. The arguments are whether the whole input must match (\<open>regex_match\<close>), the pattern, whether the position is the
  beginning of the input, the rest of the input, the input where the open group began, and the groups closed so far. The result is the
  text of every group and what follows the match.\<close>

function rx_match :: "bool \<Rightarrow> rx \<Rightarrow> bool \<Rightarrow> string \<Rightarrow> string option \<Rightarrow> string list \<Rightarrow> (string list \<times> string) option" where
  "rx_match full [] b s g caps = (if full \<and> s \<noteq> [] then None else Some (caps, s))"
| "rx_match full (One a # ts) b s g caps =
     (case s of x # xs \<Rightarrow> if rx_accepts a x then rx_match full ts False xs g caps else None | [] \<Rightarrow> None)"
| "rx_match full (Many a lazy # ts) b s g caps =
     (if lazy then
        (case rx_match full ts b s g caps of
           Some r \<Rightarrow> Some r
         | None \<Rightarrow>
             (case s of x # xs \<Rightarrow> if rx_accepts a x then rx_match full (Many a lazy # ts) False xs g caps else None | [] \<Rightarrow> None))
      else
        (case (case s of x # xs \<Rightarrow> if rx_accepts a x then rx_match full (Many a lazy # ts) False xs g caps else None | [] \<Rightarrow> None) of
           Some r \<Rightarrow> Some r
         | None \<Rightarrow> rx_match full ts b s g caps))"
| "rx_match full (Open_group # ts) b s g caps = rx_match full ts b s (Some s) caps"
| "rx_match full (Close_group # ts) b s g caps =
     (case g of Some st \<Rightarrow> rx_match full ts b s None (caps @ [take (length st - length s) st]) | None \<Rightarrow> None)"
| "rx_match full (Bol # ts) b s g caps = (if b then rx_match full ts b s g caps else None)"
| "rx_match full (Eol # ts) b s g caps = (if s = [] then rx_match full ts b s g caps else None)"
  by pat_completeness auto
termination
  by (relation "measure (\<lambda>(_, ts, _, s, _, _). length ts + length s)") auto

declare rx_match.simps(3) [simp del]

lemma rx_match_Many [simp]:
  "rx_match full (Many a lazy # ts) b [] g caps = rx_match full ts b [] g caps"
  "rx_match full (Many a True # ts) b (x # xs) g caps =
     (case rx_match full ts b (x # xs) g caps of
        Some r \<Rightarrow> Some r
      | None \<Rightarrow> if rx_accepts a x then rx_match full (Many a True # ts) False xs g caps else None)"
  "rx_match full (Many a False # ts) b (x # xs) g caps =
     (case if rx_accepts a x then rx_match full (Many a False # ts) False xs g caps else None of
        Some r \<Rightarrow> Some r
      | None \<Rightarrow> rx_match full ts b (x # xs) g caps)"
  by (subst rx_match.simps(3), simp split: option.split)+

text \<open>A match of a quantified atom either leaves it or takes one more character.\<close>

lemma rx_match_Many_step:
  assumes "rx_match full (Many a lazy # ts) b s g caps = Some r"
  shows "rx_match full ts b s g caps = Some r \<or>
    (\<exists>x xs. s = x # xs \<and> rx_match full (Many a lazy # ts) False xs g caps = Some r)"
  using assms by (cases s; cases lazy) (auto split: option.splits if_splits)

text \<open>\<open>std::regex_match\<close>, and \<open>std::regex_search\<close> with what precedes the match, its groups and what follows it.\<close>

definition regex_match :: "rx \<Rightarrow> string \<Rightarrow> bool" where
  "regex_match re s \<longleftrightarrow> rx_match True re True s None [] \<noteq> None"

fun rx_search_from :: "rx \<Rightarrow> bool \<Rightarrow> string \<Rightarrow> string \<Rightarrow> (string \<times> string list \<times> string) option" where
  "rx_search_from re b pre s =
     (case rx_match False re b s None [] of
        Some (caps, rest) \<Rightarrow> Some (pre, caps, rest)
      | None \<Rightarrow> (case s of x # xs \<Rightarrow> rx_search_from re False (pre @ [x]) xs | [] \<Rightarrow> None))"

declare rx_search_from.simps [simp del]

definition regex_search :: "rx \<Rightarrow> string \<Rightarrow> (string \<times> string list \<times> string) option" where
  "regex_search re s = rx_search_from re True [] s"

text \<open>A match leaves a suffix, shorter by at least the number of tokens that consume a character.\<close>

definition rx_min :: "rx \<Rightarrow> nat" where
  "rx_min re = length (filter (\<lambda>t. case t of One _ \<Rightarrow> True | _ \<Rightarrow> False) re)"

lemma rx_match_shorter:
  "rx_match full re b s g caps = Some (caps', rest) \<Longrightarrow> length rest + rx_min re \<le> length s"
proof (induction re arbitrary: b s g caps)
  case Nil
  then show ?case by (simp add: rx_min_def split: if_splits)
next
  case (Cons t ts)
  show ?case
  proof (cases t)
    case (Many a lazy)
    note ih = Cons.IH
    have "rx_match full (Many a lazy # ts) b s g caps = Some (caps', rest) \<Longrightarrow> length rest + rx_min ts \<le> length s" for b
    proof (induction s arbitrary: b)
      case Nil
      then show ?case using Cons.IH [of b "[]" g caps] by simp
    next
      case (Cons x s)
      from rx_match_Many_step [OF Cons.prems] show ?case
      proof
        assume "rx_match full ts b (x # s) g caps = Some (caps', rest)"
        then show ?case by (rule ih)
      qed (use Cons.IH [of False] in auto)
    qed
    then show ?thesis using Cons.prems Many by (simp add: rx_min_def)
  qed (use Cons in \<open>fastforce simp: rx_min_def split: list.splits if_splits option.splits\<close>)+
qed

lemma regex_search_shorter:
  "regex_search re s = Some (pre, caps, rest) \<Longrightarrow> length rest + rx_min re \<le> length s"
proof -
  have "rx_search_from re b pre0 s = Some (pre, caps, rest) \<Longrightarrow> length rest + rx_min re \<le> length s" for b pre0
  proof (induction s arbitrary: b pre0)
    case Nil
    then show ?case using rx_match_shorter [of False re b "[]" None "[]"]
      by (subst (asm) rx_search_from.simps) (auto split: option.splits)
  next
    case (Cons x s)
    then show ?case using rx_match_shorter [of False re b "x # s" None "[]"]
      by (subst (asm) rx_search_from.simps) (fastforce split: option.splits)
  qed
  then show "regex_search re s = Some (pre, caps, rest) \<Longrightarrow> ?thesis" by (simp add: regex_search_def)
qed

subsection \<open>ParamParse\<close>

text \<open>The expression of \<open>std::regex("\\{(.*?)\\}")\<close>, which finds the parameters of a template.\<close>

definition brace_rx :: rx where
  "brace_rx = [One (Lit (CHR 0x7B)), Open_group, Many Dot True, Close_group, One (Lit (CHR 0x7D))]"

lemma brace_rx_compiled: "rx_compile False (CHR 0x5C # ''{(.*?)'' @ CHR 0x5C # ''}'') = Some brace_rx"
  by (simp add: brace_rx_def rx_special_def)

lemma rx_min_brace: "rx_min brace_rx = 2"
  by (simp add: rx_min_def brace_rx_def)

type_synonym path_param = "(string \<times> string option) list"

function path_keys :: "string \<Rightarrow> path_param" where
  "path_keys path =
     (case regex_search brace_rx path of
        None \<Rightarrow> []
      | Some (_, caps, rest) \<Rightarrow> (caps ! 0, None) # path_keys rest)"
  by pat_completeness auto
termination
  by (relation "measure length") (auto dest: regex_search_shorter simp: rx_min_brace)

function regex_of_path :: "string \<Rightarrow> string" where
  "regex_of_path path =
     (case regex_search brace_rx path of
        None \<Rightarrow> path
      | Some (pre, _, rest) \<Rightarrow> pre @ ''(.*?)'' @ regex_of_path rest)"
  by pat_completeness auto
termination
  by (relation "measure length") (auto dest: regex_search_shorter simp: rx_min_brace)

declare path_keys.simps [simp del] regex_of_path.simps [simp del]

text \<open>The loop that stores the groups, and the conversion to a map, where the first of equal names wins.\<close>

fun store_values :: "path_param \<Rightarrow> string list \<Rightarrow> path_param" where
  "store_values ((k, _) # ps) (v # vs) = (k, Some v) # store_values ps vs"
| "store_values ps vs = ps"

definition GetPathParam :: "string \<Rightarrow> string \<Rightarrow> (string \<rightharpoonup> string option) option" where
  "GetPathParam uri path =
     (let path_param = path_keys path
      in map_option (\<lambda>re.
           case regex_search re uri of
             Some (_, caps, _) \<Rightarrow> map_of (store_values path_param caps)
           | None \<Rightarrow> map_of path_param) (rx_compile False (regex_of_path path)))"

text \<open>\<open>path_param_map[name]\<close>, which inserts an empty optional for an unknown name.\<close>

definition path_param_at :: "(string \<rightharpoonup> string option) \<Rightarrow> string \<Rightarrow> string option" where
  "path_param_at m k = (case m k of Some v \<Rightarrow> v | None \<Rightarrow> None)"

definition ParamParse_Get :: "string \<Rightarrow> string \<Rightarrow> string option option" where
  "ParamParse_Get uri key =
     (case (rx_compile False (key @ ''=(.*?)&''), rx_compile False (key @ ''=(.*)'')) of
        (Some re1, Some re2) \<Rightarrow>
          Some (case regex_search re1 uri of
                  Some (_, caps, _) \<Rightarrow> Some (caps ! 0)
                | None \<Rightarrow> (case regex_search re2 uri of Some (_, caps, _) \<Rightarrow> Some (caps ! 0) | None \<Rightarrow> None))
      | _ \<Rightarrow> None)"

subsection \<open>What literals and lazy groups match\<close>

definition no_newline :: "string \<Rightarrow> bool" where
  "no_newline s \<longleftrightarrow> LF_char \<notin> set s \<and> CR_char \<notin> set s"

lemma no_newline_simps [simp]:
  "no_newline []" "no_newline (c # s) \<longleftrightarrow> rx_accepts Dot c \<and> no_newline s"
  "no_newline (s @ t) \<longleftrightarrow> no_newline s \<and> no_newline t"
  by (auto simp: no_newline_def)

lemma no_newline_drop: "no_newline s \<Longrightarrow> no_newline (drop n s)"
  by (auto simp: no_newline_def dest: in_set_dropD)

definition plain :: "string \<Rightarrow> bool" where
  "plain s \<longleftrightarrow> list_all (\<lambda>c. \<not> rx_special c) s"

abbreviation lits :: "string \<Rightarrow> rx" where
  "lits \<equiv> map (One \<circ> Lit)"

lemma rx_match_lits:
  "rx_match full (lits l @ ts) b s g caps =
     (if prefix l s then rx_match full ts (b \<and> l = []) (drop (length l) s) g caps else None)"
proof (induction l arbitrary: b s)
  case (Cons c l)
  then show ?case by (cases s) auto
qed simp

lemma rx_quantified_plain:
  "s = [] \<or> hd s \<notin> set ''*+'' \<Longrightarrow> rx_quantified a s = ([One a], s)"
  by (cases s) (auto simp: Let_def)

lemma rx_compile_plain:
  "plain l \<Longrightarrow> s = [] \<or> hd s \<notin> set ''*+'' \<Longrightarrow>
   rx_compile inside (l @ s) = map_option (append (lits l)) (rx_compile inside s)"
proof (induction l)
  case (Cons c l)
  have "l @ s = [] \<or> hd (l @ s) \<notin> set ''*+''"
    using Cons.prems by (cases l) (auto simp: plain_def rx_special_def)
  note q = rx_quantified_plain [OF this]
  have "\<not> rx_special c" using Cons.prems by (simp add: plain_def)
  then have "rx_compile inside ((c # l) @ s) = map_option (Cons (One (Lit c))) (rx_compile inside (l @ s))"
    by (auto simp: q rx_special_def option.map_comp o_def intro!: option.map_cong)
  then show ?case using Cons by (simp add: plain_def option.map_comp o_def)
qed (cases "rx_compile inside s"; simp)

text \<open>A lazy group before a literal character takes everything up to its first occurrence; before the end of the input, everything.\<close>

lemma lazy_group_before:
  assumes "no_newline v" "c \<notin> set v" "rx_match full ts False r None (caps @ [w @ v]) = Some res"
  shows "rx_match full (Many Dot True # Close_group # One (Lit c) # ts) b (v @ c # r) (Some (w @ v @ c # r)) caps = Some res"
  using assms
proof (induction v arbitrary: w b)
  case (Cons x v)
  then show ?case using Cons.IH [of "w @ [x]" False] by auto
qed simp

lemma lazy_group_none:
  "c \<notin> set s \<Longrightarrow> rx_match full (Many Dot True # Close_group # One (Lit c) # ts) b s (Some g) caps = None"
  by (induction s arbitrary: b) auto

lemma lazy_group_end:
  "no_newline v \<Longrightarrow> rx_match full [Many Dot True, Close_group, Eol] b v (Some (w @ v)) caps = Some (caps @ [w @ v], [])"
proof (induction v arbitrary: b w)
  case (Cons x v)
  then show ?case using Cons.IH [of False "w @ [x]"] by auto
qed simp

text \<open>Searching for a literal followed by more: the first occurrence decides if the rest matches there, and nothing is found if the
  rest matches nowhere.\<close>

lemma rx_search_first:
  assumes "l \<noteq> []"
  shows "find_sub l s = Some i \<Longrightarrow> rx_match False ts False (drop (i + length l) s) None [] = Some (caps, rest) \<Longrightarrow>
    rx_search_from (lits l @ ts) b pre s = Some (pre @ take i s, caps, rest)"
proof (induction s arbitrary: b pre i)
  case Nil
  then show ?case using assms by simp
next
  case (Cons x s)
  show ?case
  proof (cases "prefix l (x # s)")
    case True
    then show ?thesis
      using assms Cons.prems by (subst rx_search_from.simps) (simp add: rx_match_lits StartsWith_prefix)
  next
    case False
    then obtain j where j: "i = Suc j" "find_sub l s = Some j"
      using Cons.prems(1) by (auto simp: StartsWith_prefix)
    then have "rx_search_from (lits l @ ts) False (pre @ [x]) s = Some ((pre @ [x]) @ take j s, caps, rest)"
      using Cons.prems(2) by (intro Cons.IH) simp_all
    then show ?thesis using False j by (subst rx_search_from.simps) (simp add: rx_match_lits)
  qed
qed

lemma rx_search_nowhere:
  assumes "l \<noteq> []"
  shows "(\<And>i. prefix l (drop i s) \<Longrightarrow> rx_match False ts False (drop (i + length l) s) None [] = None) \<Longrightarrow>
    rx_search_from (lits l @ ts) b pre s = None"
proof (induction s arbitrary: b pre)
  case Nil
  then show ?case using assms by (subst rx_search_from.simps) (simp add: rx_match_lits)
next
  case (Cons x s)
  have "rx_search_from (lits l @ ts) False (pre @ [x]) s = None"
    by (rule Cons.IH) (use Cons.prems [of "Suc _"] in simp)
  then show ?case using assms Cons.prems [of 0]
    by (subst rx_search_from.simps) (simp add: rx_match_lits)
qed

subsection \<open>Templates\<close>

text \<open>Names that can stand between braces, and the search for them.\<close>

definition param_name :: "string \<Rightarrow> bool" where
  "param_name n \<longleftrightarrow> no_newline n \<and> CHR 0x7D \<notin> set n"

lemma brace_rx_lits: "brace_rx = lits [CHR 0x7B] @ [Open_group, Many Dot True, Close_group, One (Lit (CHR 0x7D))]"
  by (simp add: brace_rx_def)

lemma brace_search:
  assumes "CHR 0x7B \<notin> set l" "param_name n"
  shows "regex_search brace_rx (l @ CHR 0x7B # n @ CHR 0x7D # r) = Some (l, [n], r)"
proof -
  have "find_sub [CHR 0x7B] (l @ CHR 0x7B # n @ CHR 0x7D # r) = Some (length l)"
    using assms(1) by (rule find_sub_char)
  moreover have "rx_match False [Open_group, Many Dot True, Close_group, One (Lit (CHR 0x7D))] False (n @ CHR 0x7D # r) None [] = Some ([n], r)"
    using lazy_group_before [of n "CHR 0x7D" False "[]" r "[]" "[]" "([n], r)" False] assms(2) by (simp add: param_name_def)
  ultimately show ?thesis
    using rx_search_first [of "[CHR 0x7B]" "l @ CHR 0x7B # n @ CHR 0x7D # r" "length l"
        "[Open_group, Many Dot True, Close_group, One (Lit (CHR 0x7D))]" "[n]" r True "[]"]
    by (simp add: regex_search_def brace_rx_def)
qed

lemma brace_search_none:
  assumes "CHR 0x7B \<notin> set s"
  shows "regex_search brace_rx s = None"
  unfolding regex_search_def brace_rx_lits
proof (rule rx_search_nowhere)
  fix i
  assume "prefix [CHR 0x7B] (drop i s)"
  then have "CHR 0x7B \<in> set (drop i s)" by (auto simp: prefix_def)
  with assms have False by (blast dest: in_set_dropD)
  then show "rx_match False [Open_group, Many Dot True, Close_group, One (Lit (CHR 0x7D))] False (drop (i + length [CHR 0x7B]) s) None [] = None" ..
qed simp

lemma plain_no_brace: "plain l \<Longrightarrow> CHR 0x7B \<notin> set l"
  by (auto simp: plain_def rx_special_def list_all_iff)

lemma tail_template:
  assumes "plain l" "param_name n"
  shows "path_keys (l @ CHR 0x7B # n @ ''}$'') = [(n, None)]"
    and "rx_compile False (regex_of_path (l @ CHR 0x7B # n @ ''}$'')) = Some (lits l @ [Open_group, Many Dot True, Close_group, Eol])"
proof -
  have s: "regex_search brace_rx (l @ CHR 0x7B # n @ ''}$'') = Some (l, [n], ''$'')"
    using brace_search [OF plain_no_brace [OF assms(1)] assms(2), of "''$''"] by simp
  have e: "regex_search brace_rx ''$'' = None" by (rule brace_search_none) simp
  show "path_keys (l @ CHR 0x7B # n @ ''}$'') = [(n, None)]"
    by (subst path_keys.simps) (simp add: s path_keys.simps [of "''$''"] e)
  have "regex_of_path (l @ CHR 0x7B # n @ ''}$'') = l @ ''(.*?)$''"
    by (subst regex_of_path.simps) (simp add: s regex_of_path.simps [of "''$''"] e)
  then show "rx_compile False (regex_of_path (l @ CHR 0x7B # n @ ''}$'')) = Some (lits l @ [Open_group, Many Dot True, Close_group, Eol])"
    using rx_compile_plain [OF assms(1), of "''(.*?)$''" False] by simp
qed

lemma pair_template:
  assumes "plain l" "param_name n1" "param_name n2"
  defines "path \<equiv> l @ CHR 0x7B # n1 @ CHR 0x7D # CHR ''/'' # CHR 0x7B # n2 @ ''}$''"
  shows "path_keys path = [(n1, None), (n2, None)]"
    and "rx_compile False (regex_of_path path) =
      Some (lits l @ [Open_group, Many Dot True, Close_group, One (Lit (CHR ''/'')), Open_group, Many Dot True, Close_group, Eol])"
proof -
  let ?r = "CHR ''/'' # CHR 0x7B # n2 @ ''}$''"
  have s1: "regex_search brace_rx path = Some (l, [n1], ?r)"
    using brace_search [OF plain_no_brace [OF assms(1)] assms(2), of ?r] by (simp add: path_def)
  have s2: "regex_search brace_rx ?r = Some (''/'', [n2], ''$'')"
    using brace_search [of "''/''" n2 "''$''"] assms(3) by simp
  have e: "regex_search brace_rx ''$'' = None" by (rule brace_search_none) simp
  show "path_keys path = [(n1, None), (n2, None)]"
    by (subst path_keys.simps) (simp add: s1 path_keys.simps [of ?r] s2 path_keys.simps [of "''$''"] e)
  have "regex_of_path path = l @ ''(.*?)/(.*?)$''"
    by (subst regex_of_path.simps) (simp add: s1 regex_of_path.simps [of ?r] s2 regex_of_path.simps [of "''$''"] e)
  then show "rx_compile False (regex_of_path path) =
      Some (lits l @ [Open_group, Many Dot True, Close_group, One (Lit (CHR ''/'')), Open_group, Many Dot True, Close_group, Eol])"
    using rx_compile_plain [OF assms(1), of "''(.*?)/(.*?)$''" False] by (simp add: rx_special_def)
qed

lemma greedy_group_end:
  "no_newline v \<Longrightarrow> rx_match False [Many Dot False, Close_group] b v (Some (w @ v)) caps = Some (caps @ [w @ v], [])"
proof (induction v arbitrary: b w)
  case (Cons x v)
  then show ?case using Cons.IH [of False "w @ [x]"] by auto
qed simp

lemma find_sub_char_take: "find_sub [c] s = Some j \<Longrightarrow> c \<notin> set (take j s)"
proof (induction s arbitrary: j)
  case (Cons x s)
  then show ?case by (cases "x = c") (auto simp: StartsWith_prefix)
qed simp

text \<open>Nothing after a later occurrence of a literal is not also after its first one.\<close>

lemma after_first_occurrence:
  assumes "find_sub l s = Some i" "prefix l (drop j s)"
  shows "set (drop (j + length l) s) \<subseteq> set (drop (i + length l) s)"
proof -
  have "i \<le> j" using find_sub_Some [OF assms(1)] assms(2) by (meson not_le)
  then show ?thesis by (intro set_drop_subset_set_drop) simp
qed

text \<open>A search for a literal and a lazy group up to the character \<open>c\<close>.\<close>

lemma search_up_to:
  fixes l s c ts
  defines "re \<equiv> lits l @ Open_group # Many Dot True # Close_group # One (Lit c) # ts"
  assumes "l \<noteq> []" "no_newline s"
  shows "find_sub l s = None \<Longrightarrow> regex_search re s = None"
    and "find_sub l s = Some i \<Longrightarrow> c \<notin> set (drop (i + length l) s) \<Longrightarrow> regex_search re s = None"
    and "find_sub l s = Some i \<Longrightarrow> drop (i + length l) s = v @ c # r \<Longrightarrow> c \<notin> set v \<Longrightarrow>
      rx_match False ts False r None [v] = Some (caps, rest) \<Longrightarrow> regex_search re s = Some (take i s, caps, rest)"
proof -
  let ?ts = "Open_group # Many Dot True # Close_group # One (Lit c) # ts"
  show "regex_search re s = None" if "find_sub l s = None"
    unfolding regex_search_def re_def
  proof (rule rx_search_nowhere [OF assms(2)])
    fix j
    assume "prefix l (drop j s)"
    then have "sublist l s" by (meson prefix_imp_sublist sublist_drop sublist_order.order_trans)
    with that show "rx_match False ?ts False (drop (j + length l) s) None [] = None" by (simp add: find_sub_None)
  qed
  show "regex_search re s = None" if "find_sub l s = Some i" "c \<notin> set (drop (i + length l) s)"
    unfolding regex_search_def re_def
  proof (rule rx_search_nowhere [OF assms(2)])
    fix j
    assume "prefix l (drop j s)"
    from after_first_occurrence [OF that(1) this] that(2) have "c \<notin> set (drop (j + length l) s)" by blast
    then show "rx_match False ?ts False (drop (j + length l) s) None [] = None" by (simp add: lazy_group_none)
  qed
  show "regex_search re s = Some (take i s, caps, rest)" if "find_sub l s = Some i" "drop (i + length l) s = v @ c # r" "c \<notin> set v"
    "rx_match False ts False r None [v] = Some (caps, rest)"
  proof -
    have "no_newline v" using no_newline_drop [OF assms(3), of "i + length l"] that(2) by simp
    from lazy_group_before [OF this that(3), of False ts r "[]" "[]" "(caps, rest)" False] that(4)
    have "rx_match False ?ts False (drop (i + length l) s) None [] = Some (caps, rest)" by (simp add: that(2))
    from rx_search_first [OF assms(2) that(1) this] show ?thesis by (simp add: regex_search_def re_def)
  qed
qed

subsection \<open>Properties\<close>

lemma GetPathParam_tail:
  assumes "plain l" "l \<noteq> []" "param_name n" "no_newline uri"
  shows "GetPathParam uri (l @ CHR 0x7B # n @ ''}$'') = Some [n \<mapsto> map_option (\<lambda>i. drop (i + length l) uri) (find_sub l uri)]"
proof -
  let ?ts = "[Open_group, Many Dot True, Close_group, Eol]"
  have m: "rx_match False ?ts False (drop k uri) None [] = Some ([drop k uri], [])" for k
    using lazy_group_end [OF no_newline_drop [OF assms(4)], of False False k "[]" "[]"] by simp
  have "regex_search (lits l @ ?ts) uri = map_option (\<lambda>i. (take i uri, [drop (i + length l) uri], [])) (find_sub l uri)"
  proof (cases "find_sub l uri")
    case None
    have "rx_search_from (lits l @ ?ts) True [] uri = None"
    proof (rule rx_search_nowhere [OF assms(2)])
      fix i
      assume "prefix l (drop i uri)"
      then have "sublist l uri" by (meson prefix_imp_sublist sublist_drop sublist_order.order_trans)
      with None show "rx_match False ?ts False (drop (i + length l) uri) None [] = None" by (simp add: find_sub_None)
    qed
    then show ?thesis by (simp add: regex_search_def None)
  next
    case (Some i)
    then show ?thesis using rx_search_first [OF assms(2) Some m, of True "[]"] by (simp add: regex_search_def)
  qed
  then show ?thesis
    by (cases "find_sub l uri") (simp_all add: GetPathParam_def tail_template [OF assms(1,3)])
qed

text \<open>Claim C26. For a template that is a literal followed by one parameter at the end, as \<open>/query/{key}$\<close>, the parameter is everything in the request
  target after the first occurrence of the literal, and absent when there is none.\<close>

theorem Path_param_tail:
  assumes "plain l" "l \<noteq> []" "param_name n" "no_newline uri"
  shows "GetPathParam uri (l @ CHR 0x7B # n @ ''}$'') = Some [n \<mapsto> map_option (\<lambda>i. drop (i + length l) uri) (find_sub l uri)]"
  using assms by (rule GetPathParam_tail)

theorem Path_param_tail_witness:
  "GetPathParam ''/query/tom?x=1'' (''/query/'' @ CHR 0x7B # ''key'' @ ''}$'') = Some [''key'' \<mapsto> Some ''tom?x=1'']"
proof -
  have "find_sub ''/query/'' ''/query/tom?x=1'' = Some 0" by code_simp
  moreover have "plain ''/query/''" "param_name ''key''" "no_newline ''/query/tom?x=1''"
    by (simp_all add: plain_def rx_special_def param_name_def no_newline_def LF_char_def CR_char_def)
  ultimately show ?thesis using Path_param_tail [of "''/query/''" "''key''" "''/query/tom?x=1''"] by simp
qed

lemma GetPathParam_pair:
  assumes "plain l" "l \<noteq> []" "param_name n1" "param_name n2" "no_newline uri"
  shows "GetPathParam uri (l @ CHR 0x7B # n1 @ CHR 0x7D # CHR ''/'' # CHR 0x7B # n2 @ ''}$'') =
    Some (case find_sub l uri of
            None \<Rightarrow> map_of [(n1, None), (n2, None)]
          | Some i \<Rightarrow>
              (let rest = drop (i + length l) uri in
               case find_sub ''/'' rest of
                 None \<Rightarrow> map_of [(n1, None), (n2, None)]
               | Some j \<Rightarrow> map_of [(n1, Some (take j rest)), (n2, Some (drop (Suc j) rest))]))"
proof -
  let ?ts = "[Open_group, Many Dot True, Close_group, Eol]"
  let ?re = "lits l @ Open_group # Many Dot True # Close_group # One (Lit (CHR ''/'')) # ?ts"
  have eq: "GetPathParam uri (l @ CHR 0x7B # n1 @ CHR 0x7D # CHR ''/'' # CHR 0x7B # n2 @ ''}$'') =
    Some (case regex_search ?re uri of
            Some (_, caps, _) \<Rightarrow> map_of (store_values [(n1, None), (n2, None)] caps)
          | None \<Rightarrow> map_of [(n1, None), (n2, None)])"
    by (simp add: GetPathParam_def pair_template [OF assms(1,3,4)] Let_def del: map_of.simps)
  show ?thesis
  proof (cases "find_sub l uri")
    case None
    then show ?thesis by (simp add: eq search_up_to(1) [OF assms(2,5) None])
  next
    case (Some i)
    let ?rest = "drop (i + length l) uri"
    show ?thesis
    proof (cases "find_sub ''/'' ?rest")
      case none: None
      then have "CHR ''/'' \<notin> set ?rest" by (simp add: find_sub_char_None)
      from search_up_to(2) [OF assms(2,5) Some this] show ?thesis by (simp add: eq Some none)
    next
      case some: (Some j)
      let ?v = "take j ?rest" and ?r = "drop (Suc j) ?rest"
      have d: "?rest = ?v @ CHR ''/'' # ?r" using find_sub_split [OF some] by simp
      have v: "CHR ''/'' \<notin> set ?v" by (rule find_sub_char_take [OF some])
      have "no_newline ?r" by (intro no_newline_drop assms(5))
      from lazy_group_end [OF this, of False False "[]" "[?v]"]
      have "rx_match False ?ts False ?r None [?v] = Some ([?v, ?r], [])" by simp
      from search_up_to(3) [OF assms(2,5) Some d v this] show ?thesis by (simp add: eq Some some)
    qed
  qed
qed

text \<open>Claim C27. For a template of a literal and two parameters with a slash between them, as \<open>/zrmv/{key}/{value}$\<close>, the first parameter is what follows
  the literal's first occurrence up to the next slash and the second all that remains; without that slash both are absent.\<close>

theorem Path_param_pair:
  assumes "plain l" "l \<noteq> []" "param_name n1" "param_name n2" "no_newline uri"
  shows "GetPathParam uri (l @ CHR 0x7B # n1 @ CHR 0x7D # CHR ''/'' # CHR 0x7B # n2 @ ''}$'') =
    Some (case find_sub l uri of
            None \<Rightarrow> map_of [(n1, None), (n2, None)]
          | Some i \<Rightarrow>
              (let rest = drop (i + length l) uri in
               case find_sub ''/'' rest of
                 None \<Rightarrow> map_of [(n1, None), (n2, None)]
               | Some j \<Rightarrow> map_of [(n1, Some (take j rest)), (n2, Some (drop (Suc j) rest))]))"
  using assms by (rule GetPathParam_pair)

theorem Path_param_pair_witness:
  "GetPathParam ''/zrmv/room/a/b'' (''/zrmv/'' @ CHR 0x7B # ''key'' @ CHR 0x7D # CHR ''/'' # CHR 0x7B # ''value'' @ ''}$'') =
     Some (map_of [(''key'', Some ''room''), (''value'', Some ''a/b'')])"
proof -
  have "find_sub ''/zrmv/'' ''/zrmv/room/a/b'' = Some 0" "find_sub ''/'' ''room/a/b'' = Some 4" by code_simp+
  moreover have "plain ''/zrmv/''" "param_name ''key''" "param_name ''value''" "no_newline ''/zrmv/room/a/b''"
    by (simp_all add: plain_def rx_special_def param_name_def no_newline_def LF_char_def CR_char_def)
  ultimately show ?thesis
    using Path_param_pair [of "''/zrmv/''" "''key''" "''value''" "''/zrmv/room/a/b''"] by simp
qed

text \<open>\<open>Get\<close> returns what follows the first occurrence of \<open>key=\<close> in the target, up to the next ampersand. It does not look at what
  precedes the occurrence, so the parameter \<open>akey=1\<close> is read as one named \<open>key\<close>.\<close>

lemma ParamParse_Get_correct:
  assumes "plain key" "no_newline uri"
  shows "ParamParse_Get uri key =
    Some (map_option (\<lambda>i. takeWhile (\<lambda>c. c \<noteq> CHR ''&'') (drop (i + Suc (length key)) uri)) (find_sub (key @ ''='') uri))"
proof -
  let ?l = "key @ ''=''"
  let ?re1 = "lits ?l @ [Open_group, Many Dot True, Close_group, One (Lit (CHR ''&''))]" and ?ts = "[Open_group, Many Dot False, Close_group]"
  have l: "plain ?l" using assms(1) by (simp add: plain_def rx_special_def)
  have c: "rx_compile False (key @ ''=(.*?)&'') = Some ?re1" "rx_compile False (key @ ''=(.*)'') = Some (lits ?l @ ?ts)"
    using rx_compile_plain [OF l, of "''(.*?)&''" False] rx_compile_plain [OF l, of "''(.*)''" False] by (simp_all add: rx_special_def)
  show ?thesis
  proof (cases "find_sub ?l uri")
    case None
    have "rx_search_from (lits ?l @ ?ts) True [] uri = None"
    proof (rule rx_search_nowhere)
      fix i
      assume "prefix ?l (drop i uri)"
      then have "sublist ?l uri" by (meson prefix_imp_sublist sublist_drop sublist_order.order_trans)
      with None show "rx_match False ?ts False (drop (i + length ?l) uri) None [] = None" by (simp add: find_sub_None)
    qed simp
    then show ?thesis
      using search_up_to(1) [of ?l uri "CHR ''&''" "[]"] assms(2) None by (simp add: ParamParse_Get_def c regex_search_def)
  next
    case (Some i)
    let ?r = "drop (i + length ?l) uri"
    have r: "no_newline ?r" by (rule no_newline_drop [OF assms(2)])
    show ?thesis
    proof (cases "CHR ''&'' \<in> set ?r")
      case True
      then obtain v t where d: "?r = v @ CHR ''&'' # t" "CHR ''&'' \<notin> set v" by (meson split_list_first)
      have "takeWhile (\<lambda>c. c \<noteq> CHR ''&'') (v @ CHR ''&'' # t) = v" using d(2) by (subst takeWhile_append2) auto
      then have "takeWhile (\<lambda>c. c \<noteq> CHR ''&'') ?r = v" by (simp only: d(1))
      then show ?thesis
        using search_up_to(3) [OF _ assms(2) Some d, of "[]" "[v]" t] Some by (simp add: ParamParse_Get_def c)
    next
      case False
      have "rx_match False ?ts False ?r None [] = Some ([?r], [])" using greedy_group_end [OF r, of False "[]" "[]"] by simp
      from rx_search_first [OF _ Some this, of True "[]"]
      have "regex_search (lits ?l @ ?ts) uri = Some (take i uri, [?r], [])" by (simp add: regex_search_def)
      moreover have "regex_search ?re1 uri = None" by (rule search_up_to(2) [OF _ assms(2) Some False]) simp
      moreover have "takeWhile (\<lambda>c. c \<noteq> CHR ''&'') ?r = ?r" using False by (auto simp: takeWhile_eq_all_conv)
      ultimately show ?thesis using Some by (simp add: ParamParse_Get_def c takeWhile_eq_all_conv [THEN iffD2])
    qed
  qed
qed

end
