(* ===== verification/Http_Service.thy ===== *)
theory Http_Service
  imports Http_Types Param_Parse
begin

section \<open>The HTTP service (flare/rpc/protocol/http/service.cc, http_handler.cc)\<close>

text \<open>
  The service finds the handler of a request by its path, runs filters and handler, and completes the response. A handler is a function of the
  application's state \<open>'s\<close>, the request and the response under construction; a subclass of \<open>HttpHandler\<close> is the partial map from methods to
  the handlers it overrides. Compressors come from libraries outside the repository and are a parameter \<open>mk\<close> from the name of an
  encoding. Logging, timestamps and the recording of requests for replay do not influence the response and are left out.

  The lemmas say which handler a path reaches and which headers a response leaves with.
\<close>

subsection \<open>Handlers\<close>

type_synonym 's handler = "'s \<Rightarrow> http_request \<Rightarrow> http_response \<Rightarrow> ('s \<times> http_response) run"

text \<open>The default of every \<open>On...\<close> method.\<close>

definition On_default :: "'s handler" where
  "On_default s request response =
     andthen (GenerateDefaultResponsePage 405 response [] []) (\<lambda>rs. returns (s, rs))"

definition kHandlers :: "HttpMethod list" where
  "kHandlers = [Get, Head, Post, PutM, Delete, Connect, Options, Trace, Patch]"

definition HandleRequest :: "(HttpMethod \<rightharpoonup> 's handler) \<Rightarrow> 's handler" where
  "HandleRequest overrides s request response =
     (if rq_method request \<in> set kHandlers then
        (case overrides (rq_method request) of
           Some f \<Rightarrow> f s request response
         | None \<Rightarrow> On_default s request response)
      else andthen (GenerateDefaultResponsePage 405 response [] []) (\<lambda>rs. returns (s, rs)))"

subsection \<open>Registration\<close>

datatype filter_action = KeepProcessing | Drop | EarlyReturn

type_synonym 's http_filter = "'s \<Rightarrow> http_request \<Rightarrow> http_response \<Rightarrow> (filter_action \<times> 's \<times> http_request \<times> http_response) run"

record 's service =
  filters :: "'s http_filter list"
  exact_paths :: "string \<rightharpoonup> 's handler"
  prefix_paths :: "(string \<times> 's handler) list"
  regex_paths :: "(rx \<times> 's handler) list"
  default_handler :: "'s handler"

definition Service :: "'s service" where
  "Service =
     \<lparr>filters = [], exact_paths = Map.empty, prefix_paths = [], regex_paths = [],
      default_handler = (\<lambda>s request response. andthen (GenerateDefaultResponsePage 404 response [] []) (\<lambda>rs. returns (s, rs)))\<rparr>"

definition AddFilter :: "'s http_filter \<Rightarrow> 's service \<Rightarrow> 's service" where
  "AddFilter f sv = sv\<lparr>filters := filters sv @ [f]\<rparr>"

definition AddHandler :: "string \<Rightarrow> 's handler \<Rightarrow> 's service \<Rightarrow> fault + 's service" where
  "AddHandler path handler sv =
     (if exact_paths sv path \<noteq> None then Inl Assertion else Inr (sv\<lparr>exact_paths := (exact_paths sv)(path \<mapsto> handler)\<rparr>))"

definition AddHandler_regex :: "rx \<Rightarrow> 's handler \<Rightarrow> 's service \<Rightarrow> 's service" where
  "AddHandler_regex path_regex handler sv = sv\<lparr>regex_paths := regex_paths sv @ [(path_regex, handler)]\<rparr>"

definition AddPrefixHandler :: "string \<Rightarrow> 's handler \<Rightarrow> 's service \<Rightarrow> 's service" where
  "AddPrefixHandler path_prefix handler sv = sv\<lparr>prefix_paths := prefix_paths sv @ [(path_prefix, handler)]\<rparr>"

definition SetDefaultHandler :: "'s handler \<Rightarrow> 's service \<Rightarrow> 's service" where
  "SetDefaultHandler handler sv = sv\<lparr>default_handler := handler\<rparr>"

subsection \<open>Finding and running the handler\<close>

definition GetUriPath :: "string \<Rightarrow> string" where
  "GetUriPath uri = (case find_sub ''?'' uri of Some pos \<Rightarrow> take pos uri | None \<Rightarrow> uri)"

fun find_prefix :: "string \<Rightarrow> (string \<times> 's handler) list \<Rightarrow> 's handler option" where
  "find_prefix path [] = None"
| "find_prefix path ((pre, h) # ps) =
     (if StartsWith path pre then
        (if length path = length pre then Some h
         else if path ! length pre \<in> set ''/?#'' then Some h
         else find_prefix path ps)
      else find_prefix path ps)"

fun find_regex :: "string \<Rightarrow> (rx \<times> 's handler) list \<Rightarrow> 's handler option" where
  "find_regex path [] = None"
| "find_regex path ((re, h) # ps) = (if regex_match re path then Some h else find_regex path ps)"

definition FindHandler :: "'s service \<Rightarrow> string \<Rightarrow> 's handler option" where
  "FindHandler sv uri =
     (let path = GetUriPath uri
      in case exact_paths sv path of
           Some h \<Rightarrow> Some h
         | None \<Rightarrow>
             (case find_prefix path (prefix_paths sv) of
                Some h \<Rightarrow> Some h
              | None \<Rightarrow> find_regex path (regex_paths sv)))"

fun RunFilters ::
  "'s http_filter list \<Rightarrow> 's \<Rightarrow> http_request \<Rightarrow> http_response \<Rightarrow> (filter_action \<times> 's \<times> http_request \<times> http_response) run" where
  "RunFilters [] s request response = returns (KeepProcessing, s, request, response)"
| "RunFilters (e # es) s request response =
     andthen (e s request response) (\<lambda>(action, s', request', response').
       if action \<noteq> KeepProcessing then returns (action, s', request', response')
       else RunFilters es s' request' response')"

definition RunHandler :: "'s service \<Rightarrow> 's handler" where
  "RunHandler sv s request response =
     (case FindHandler sv (rq_uri request) of
        None \<Rightarrow> default_handler sv s request response
      | Some h \<Rightarrow> h s request response)"

subsection \<open>Completing the response\<close>

definition kAcceptEncoding :: string where "kAcceptEncoding = ''Accept-Encoding''"

definition kContentLength :: string where "kContentLength = ''Content-Length''"

definition kContentEncoding :: string where "kContentEncoding = ''Content-Encoding''"

definition kConnection :: string where "kConnection = ''Connection''"

type_synonym compressors = "string \<Rightarrow> (nbuffer + string \<Rightarrow> nbuffer option) option"

definition size_text :: "'a http_message_scheme \<Rightarrow> string" where
  "size_text m = show_nat (unat (body_size m))"

fun compress_with :: "compressors \<Rightarrow> string list \<Rightarrow> http_response \<Rightarrow> http_response run" where
  "compress_with mk [] response = returns response"
| "compress_with mk (encoding_and_q # es) response =
     (let encoding = Trim (case find_sub '';'' encoding_and_q of Some pos \<Rightarrow> take pos encoding_and_q | None \<Rightarrow> encoding_and_q)
      in case mk encoding of
           None \<Rightarrow> compress_with mk es response
         | Some compressor \<Rightarrow>
             andthen (case noncontiguous_body response of
                        Some nb \<Rightarrow> returns (response, compressor (Inl nb))
                      | None \<Rightarrow>
                          let response' = message_body response
                          in if body_text response = [] then fails Assertion
                             else returns (response', compressor (Inr (body_text response)))) (\<lambda>(response', compressed).
               case compressed of
                 None \<Rightarrow> compress_with mk es response'
               | Some nb \<Rightarrow>
                   let response'' = set_body_nb nb response'
                   in andthen (HttpHeaders_Set (msg_headers response'') kContentLength (size_text response'')) (\<lambda>hs.
                      andthen (HttpHeaders_Append hs kContentEncoding encoding) (\<lambda>hs'.
                        returns (response''\<lparr>msg_headers := hs'\<rparr>)))))"

definition CompressResponseIfNecessary :: "compressors \<Rightarrow> http_request \<Rightarrow> http_response \<Rightarrow> http_response run" where
  "CompressResponseIfNecessary mk request response =
     (if body_size response = 0 then returns response
      else
        andthen (run_sum (HttpHeaders_TryGet (msg_headers request) kAcceptEncoding)) (\<lambda>opt.
          case opt of
            None \<Rightarrow> returns response
          | Some accepted \<Rightarrow>
              andthen (run_sum (HttpHeaders_TryGet (msg_headers response) kContentEncoding)) (\<lambda>present.
                if present \<noteq> None then returns response
                else andthen (run_sum (Split accepted '','' False)) (\<lambda>encodings. compress_with mk encodings response))))"

definition fill_connection :: "http_request \<Rightarrow> http_response \<Rightarrow> http_response run" where
  "fill_connection request response =
     andthen (run_sum (HttpHeaders_TryGet (msg_headers response) kConnection)) (\<lambda>present.
       if present \<noteq> None then returns response
       else
         andthen (run_sum (HttpHeaders_TryGet (msg_headers request) kConnection)) (\<lambda>opt.
         andthen (HttpHeaders_Append (msg_headers response) kConnection
                    (case opt of
                       Some v \<Rightarrow> v
                     | None \<Rightarrow> if msg_version request = V_1_1 then ''keep-alive'' else ''close'')) (\<lambda>hs.
           returns (response\<lparr>msg_headers := hs\<rparr>))))"

definition fill_content_length :: "http_response \<Rightarrow> http_response run" where
  "fill_content_length response =
     (if rs_status response = 204 \<or> 100 \<le> rs_status response \<and> rs_status response < 200 then
        (if body_size response \<noteq> 0 then fails Assertion
         else
           andthen (run_sum (HttpHeaders_TryGet (msg_headers response) kContentLength)) (\<lambda>present.
             if present \<noteq> None then
               andthen (HttpHeaders_Remove (msg_headers response) kContentLength) (\<lambda>(_, hs). returns (response\<lparr>msg_headers := hs\<rparr>))
             else returns response))
      else
        andthen (run_sum (HttpHeaders_TryGet (msg_headers response) kContentLength)) (\<lambda>present.
          if present = None then
            andthen (HttpHeaders_Append (msg_headers response) kContentLength (size_text response)) (\<lambda>hs.
              returns (response\<lparr>msg_headers := hs\<rparr>))
          else returns response))"

definition FillMissingHeaders :: "compressors \<Rightarrow> http_request \<Rightarrow> http_response \<Rightarrow> http_response run" where
  "FillMissingHeaders mk request response =
     andthen (fill_connection request response) (\<lambda>response1.
     andthen (fill_content_length response1) (\<lambda>response2.
       CompressResponseIfNecessary mk request response2))"

subsection \<open>FastCall\<close>

datatype ProcessingStatus = Processed | Completed | Overloaded | Dropped | Corrupted | Unexpected

text \<open>The result is the status, the response that was written, if any, and the new state.\<close>

definition FastCall :: "compressors \<Rightarrow> 's service \<Rightarrow> 's \<Rightarrow> http_request \<Rightarrow> (ProcessingStatus \<times> http_response option \<times> 's) run" where
  "FastCall mk sv s request =
     andthen (run_sum HttpResponse) (\<lambda>rs0.
     let response = rs0\<lparr>msg_version := msg_version request, rs_status := 200\<rparr>
     in andthen (RunFilters (filters sv) s request response) (\<lambda>(action, s1, request1, response1).
          if action = Drop then returns (Dropped, None, s1)
          else
            andthen (if action = KeepProcessing then RunHandler sv s1 request1 response1 else returns (s1, response1)) (\<lambda>(s2, response2).
            andthen (FillMissingHeaders mk request1 response2) (\<lambda>response3.
            andthen (run_sum (HttpHeaders_TryGet (msg_headers response3) ''Connection'')) (\<lambda>connection.
            andthen (run_sum (IEquals (case connection of Some v \<Rightarrow> v | None \<Rightarrow> []) ''keep-alive'')) (\<lambda>keep.
              returns (if keep then Processed else Completed, Some response3, s2)))))))"

subsection \<open>Header fields of messages\<close>

definition field :: "'a http_message_scheme \<Rightarrow> string \<Rightarrow> string option" where
  "field m name = map_of (normed lower (hdr_fields (msg_headers m))) (lower name)"

definition room_for :: "nat \<Rightarrow> 'a http_message_scheme \<Rightarrow> bool" where
  "room_for n m \<longleftrightarrow> headers_ok (msg_headers m) \<and> length (hdr_fields (msg_headers m)) + n < 2 ^ 58"

lemma lower_names [simp]:
  "lower kConnection = ''connection''" "lower kContentLength = ''content-length''" "lower kContentEncoding = ''content-encoding''"
  "lower kAcceptEncoding = ''accept-encoding''" "lower ''Connection'' = ''connection''"
  by code_simp+

lemma ascii_names [simp]:
  "ascii kConnection" "ascii kContentLength" "ascii kContentEncoding" "ascii kAcceptEncoding"
  by code_simp+

lemma Trim_names [simp]:
  "Trim kConnection = kConnection" "Trim kContentLength = kContentLength" "Trim kContentEncoding = kContentEncoding"
  by code_simp+

lemma TryGet_field:
  "room_for n m \<Longrightarrow> ascii name \<Longrightarrow> HttpHeaders_TryGet (msg_headers m) name = Inr (field m name)"
  by (simp add: room_for_def field_def TryGet_fields)

text \<open>A field that was appended last is found if there was none of its name before.\<close>

lemma field_append:
  assumes "hdr_fields hs = hdr_fields (msg_headers m) @ [(k, v)]"
  shows "field (m\<lparr>msg_headers := hs\<rparr>) n = (case field m n of Some w \<Rightarrow> Some w | None \<Rightarrow> if lower n = lower k then Some v else None)"
  by (simp add: field_def assms normed_def map_add_def split: option.split)

lemma append_field:
  assumes "room_for (Suc n) m" "ascii k"
    and "HttpHeaders_Append (msg_headers m) k v = returns hs"
  shows "room_for n (m\<lparr>msg_headers := hs\<rparr>)"
    and "field (m\<lparr>msg_headers := hs\<rparr>) name = (case field m name of Some w \<Rightarrow> Some w | None \<Rightarrow> if lower name = lower k then Some v else None)"
proof -
  have "Trim k = k" "Trim v = v" using assms(3) by (auto simp: HttpHeaders_Append_def split: if_splits)
  then obtain hs' where h: "HttpHeaders_Append (msg_headers m) k v = returns hs'" "headers_ok hs'"
    "hdr_fields hs' = hdr_fields (msg_headers m) @ [(k, v)]"
    using Append_ok [of "msg_headers m" k v] assms(1,2) by (auto simp: room_for_def)
  with assms(3) have "hs' = hs" by simp
  then show "room_for n (m\<lparr>msg_headers := hs\<rparr>)" using h assms(1) by (simp add: room_for_def)
  show "field (m\<lparr>msg_headers := hs\<rparr>) name = (case field m name of Some w \<Rightarrow> Some w | None \<Rightarrow> if lower name = lower k then Some v else None)"
    using field_append h(3) \<open>hs' = hs\<close> by blast
qed

lemma set_field:
  assumes "room_for (Suc n) m" "ascii k"
    and "HttpHeaders_Set (msg_headers m) k v = returns hs"
  shows "room_for n (m\<lparr>msg_headers := hs\<rparr>)"
    and "field (m\<lparr>msg_headers := hs\<rparr>) name = (if lower name = lower k then Some v else field m name)"
proof -
  have "Trim k = k" "Trim v = v" using assms(3) by (auto simp: HttpHeaders_Set_def split: if_splits)
  then obtain hs' where h: "HttpHeaders_Set (msg_headers m) k v = returns hs'" "headers_ok hs'"
    "hdr_fields hs' = bucket_put lower k v (hdr_fields (msg_headers m))"
    using Set_ok [of "msg_headers m" k v] assms(1,2) by (auto simp: room_for_def)
  with assms(3) have e: "hs' = hs" by simp
  have "length (bucket_put lower k v b) \<le> Suc (length b)" for b :: http_fields by (induction b) auto
  from this [of "hdr_fields (msg_headers m)"] show "room_for n (m\<lparr>msg_headers := hs\<rparr>)"
    using h assms(1) e by (simp add: room_for_def)
  show "field (m\<lparr>msg_headers := hs\<rparr>) name = (if lower name = lower k then Some v else field m name)"
    using h(3) e by (simp add: field_def map_of_bucket_put)
qed

lemma remove_field:
  assumes "room_for n m" "ascii k" "HttpHeaders_Remove (msg_headers m) k = returns (b, hs)"
  shows "room_for n (m\<lparr>msg_headers := hs\<rparr>)"
    and "field (m\<lparr>msg_headers := hs\<rparr>) name = (if lower name = lower k then None else field m name)"
proof -
  obtain hs' where h: "HttpHeaders_Remove (msg_headers m) k = returns (lower k \<in> set (norms lower (hdr_fields (msg_headers m))), hs')"
    "headers_ok hs'" "hdr_fields hs' = filter (\<lambda>(k', v). lower k' \<noteq> lower k) (hdr_fields (msg_headers m))"
    using Remove_ok [of "msg_headers m" k] assms(1,2) by (auto simp: room_for_def)
  with assms(3) have e: "hs' = hs" by simp
  have "map_of (normed lower (filter (\<lambda>(k', v). lower k' \<noteq> lower k) b)) x = (if x = lower k then None else map_of (normed lower b) x)"
    for b :: http_fields and x
    by (induction b) (auto simp: normed_def)
  then show "field (m\<lparr>msg_headers := hs\<rparr>) name = (if lower name = lower k then None else field m name)"
    using h(3) e by (simp add: field_def)
  show "room_for n (m\<lparr>msg_headers := hs\<rparr>)"
    using h(2,3) e assms(1) by (auto simp: room_for_def intro: le_less_trans [OF add_right_mono [OF length_filter_le]])
qed

subsection \<open>What the response leaves with\<close>

lemma fill_connection_field:
  assumes rq: "room_for 0 request" and rs: "room_for (Suc n) response"
    and r: "fill_connection request response = returns response'"
  shows "\<exists>hs. response' = response\<lparr>msg_headers := hs\<rparr>" and "room_for n response'" and "field response' kConnection \<noteq> None"
    and "lower name \<noteq> lower kConnection \<Longrightarrow> field response' name = field response name"
proof -
  note g = TryGet_field [OF rs, of kConnection] TryGet_field [OF rq, of kConnection]
  have "(\<exists>hs. response' = response\<lparr>msg_headers := hs\<rparr>) \<and> room_for n response' \<and> field response' kConnection \<noteq> None \<and>
    (lower name \<noteq> lower kConnection \<longrightarrow> field response' name = field response name)"
  proof (cases "field response kConnection")
    case (Some v)
    then have "response' = response" using r g by (simp add: fill_connection_def)
    moreover have "response = response\<lparr>msg_headers := msg_headers response\<rparr>" by simp
    moreover have "room_for n response" using rs by (simp add: room_for_def)
    ultimately show ?thesis using Some by (metis option.distinct(1))
  next
    case None
    obtain v hs where a: "HttpHeaders_Append (msg_headers response) kConnection v = returns hs" "response' = response\<lparr>msg_headers := hs\<rparr>"
      using r None g by (auto simp: fill_connection_def andthen_eq_returns)
    from append_field [OF rs _ a(1)] a(2) None show ?thesis by (auto split: option.split)
  qed
  then show "\<exists>hs. response' = response\<lparr>msg_headers := hs\<rparr>" "room_for n response'" "field response' kConnection \<noteq> None"
    "lower name \<noteq> lower kConnection \<Longrightarrow> field response' name = field response name" by blast+
qed

definition bodiless :: "http_response \<Rightarrow> bool" where
  "bodiless response \<longleftrightarrow> rs_status response = 204 \<or> 100 \<le> rs_status response \<and> rs_status response < 200"

lemma fill_content_length_field:
  assumes rs: "room_for (Suc n) response" and r: "fill_content_length response = returns response'"
  shows "\<exists>hs. response' = response\<lparr>msg_headers := hs\<rparr>" and "room_for n response'"
    and "field response' kContentLength =
      (if bodiless response then None else Some (case field response kContentLength of None \<Rightarrow> size_text response | Some x \<Rightarrow> x))"
    and "bodiless response \<Longrightarrow> body_size response = 0"
    and "lower name \<noteq> lower kContentLength \<Longrightarrow> field response' name = field response name"
proof -
  note g = TryGet_field [OF rs, of kContentLength]
  have same: "response = response\<lparr>msg_headers := msg_headers response\<rparr>" "room_for n response" using rs by (simp_all add: room_for_def)
  have "(\<exists>hs. response' = response\<lparr>msg_headers := hs\<rparr>) \<and> room_for n response' \<and>
    field response' kContentLength =
      (if bodiless response then None else Some (case field response kContentLength of None \<Rightarrow> size_text response | Some x \<Rightarrow> x)) \<and>
    (bodiless response \<longrightarrow> body_size response = 0) \<and>
    (lower name \<noteq> lower kContentLength \<longrightarrow> field response' name = field response name)"
  proof (cases "bodiless response"; cases "field response kContentLength")
    assume b: "bodiless response" "field response kContentLength = None"
    then have "response' = response" "body_size response = 0"
      using r g by (auto simp: fill_content_length_def bodiless_def split: if_splits)
    then show ?thesis using b same by metis
  next
    fix x assume b: "bodiless response" "field response kContentLength = Some x"
    then obtain y hs where a: "HttpHeaders_Remove (msg_headers response) kContentLength = returns (y, hs)"
        "response' = response\<lparr>msg_headers := hs\<rparr>" "body_size response = 0"
      using r g by (auto simp: fill_content_length_def bodiless_def andthen_eq_returns split: if_splits)
    from remove_field [OF same(2) _ a(1)] a(2,3) b(1) show ?thesis by auto
  next
    assume b: "\<not> bodiless response" "field response kContentLength = None"
    then obtain hs where a: "HttpHeaders_Append (msg_headers response) kContentLength (size_text response) = returns hs"
        "response' = response\<lparr>msg_headers := hs\<rparr>"
      using r g by (auto simp: fill_content_length_def bodiless_def andthen_eq_returns)
    from append_field [OF rs _ a(1)] a(2) b show ?thesis by (auto split: option.split)
  next
    fix x assume b: "\<not> bodiless response" "field response kContentLength = Some x"
    then have "response' = response" using r g by (auto simp: fill_content_length_def bodiless_def)
    then show ?thesis using b same by (metis option.simps(5))
  qed
  then show "\<exists>hs. response' = response\<lparr>msg_headers := hs\<rparr>" "room_for n response'"
    "field response' kContentLength =
      (if bodiless response then None else Some (case field response kContentLength of None \<Rightarrow> size_text response | Some x \<Rightarrow> x))"
    "bodiless response \<Longrightarrow> body_size response = 0"
    "lower name \<noteq> lower kContentLength \<Longrightarrow> field response' name = field response name" by blast+
qed

lemma size_text_headers [simp]:
  "size_text (m\<lparr>msg_headers := hs\<rparr>) = size_text m" "body_size (m\<lparr>msg_headers := hs\<rparr>) = body_size m"
  "bodiless (r\<lparr>msg_headers := hs\<rparr>) = bodiless r"
  by (simp_all add: size_text_def body_size_def bodiless_def cong: option.case_cong)

lemma room_for_body [simp]: "room_for n (set_body_nb nb m) = room_for n m" "field (set_body_nb nb m) name = field m name"
  by (simp_all add: room_for_def field_def set_body_nb_def)

lemma message_body_headers [simp]: "msg_headers (message_body m) = msg_headers m"
  by (simp add: message_body_def StringifyBody_def split: option.split)

lemma compress_with_field:
  assumes "room_for 2 response" "compress_with mk es response = returns response'"
  shows "(field response' kContentLength = Some (size_text response') \<or>
      field response' kContentLength = field response kContentLength \<and> body_size response' = body_size response) \<and>
    field response' kConnection = field response kConnection"
  using assms
proof (induction es arbitrary: response)
  case (Cons e es)
  let ?enc = "Trim (case find_sub '';'' e of Some pos \<Rightarrow> take pos e | None \<Rightarrow> e)"
  show ?case
  proof (cases "mk ?enc")
    case None
    then show ?thesis using Cons by (simp add: Let_def)
  next
    case (Some compressor)
    have step: ?thesis
      if rs1: "room_for 2 response1" "field response1 kContentLength = field response kContentLength" "field response1 kConnection = field response kConnection"
          "body_size response1 = body_size response"
        and r: "(case c of None \<Rightarrow> compress_with mk es response1
          | Some nb \<Rightarrow> andthen (HttpHeaders_Set (msg_headers (set_body_nb nb response1)) kContentLength (size_text (set_body_nb nb response1))) (\<lambda>hs.
              andthen (HttpHeaders_Append hs kContentEncoding ?enc) (\<lambda>hs'. returns ((set_body_nb nb response1)\<lparr>msg_headers := hs'\<rparr>)))) = returns response'"
      for response1 c
    proof (cases c)
      case None
      then show ?thesis using Cons.IH [OF rs1(1)] r rs1(2-4) by simp
    next
      case (Some nb)
      let ?m = "set_body_nb nb response1"
      obtain hs hs' where a: "HttpHeaders_Set (msg_headers ?m) kContentLength (size_text ?m) = returns hs"
          "HttpHeaders_Append (msg_headers (?m\<lparr>msg_headers := hs\<rparr>)) kContentEncoding ?enc = returns hs'"
          "response' = ?m\<lparr>msg_headers := hs, msg_headers := hs'\<rparr>"
        using r Some by (auto simp: Let_def andthen_eq_returns)
      have room: "room_for (Suc (Suc 0)) ?m" using rs1(1) by (simp add: numeral_2_eq_2)
      note s = set_field [OF room _ a(1)]
      note f = append_field(2) [OF s(1) _ a(2)]
      show ?thesis using rs1(3) a(3) s(2) f by (simp split: option.split)
    qed
    show ?thesis
    proof (cases "noncontiguous_body response")
      case None
      then have "msg_body response = None" by (simp add: noncontiguous_body_def)
      then have b: "body_size (message_body response) = body_size response"
        by (simp add: body_size_def message_body_def StringifyBody_def split: option.split)
      show ?thesis
        by (rule step [of "message_body response" "compressor (Inr (body_text response))"])
          (use Cons.prems Some None b in \<open>auto simp: Let_def room_for_def field_def split: if_splits\<close>)
    next
      case (Some nb)
      show ?thesis
        by (rule step [of response "compressor (Inl nb)"]) (use Cons.prems Some \<open>mk ?enc = Some compressor\<close> in \<open>auto simp: Let_def\<close>)
    qed
  qed
qed simp

subsection \<open>Requests that are answered without compression\<close>

definition plain_request :: "http_request \<Rightarrow> bool" where
  "plain_request request \<longleftrightarrow> room_for 0 request \<and> field request kAcceptEncoding = None \<and>
     (case field request kConnection of None \<Rightarrow> True | Some v \<Rightarrow> Trim v = v \<and> ascii v)"

lemma Trim_id: "s = [] \<or> hd s \<noteq> CHR '' '' \<and> last s \<noteq> CHR '' '' \<Longrightarrow> Trim s = s"
proof -
  assume a: "s = [] \<or> hd s \<noteq> CHR '' '' \<and> last s \<noteq> CHR '' ''"
  then have "dropWhile (\<lambda>c. c = CHR '' '') s = s" by (auto simp: dropWhile_eq_self_iff)
  moreover have "dropWhile (\<lambda>c. c = CHR '' '') (rev s) = rev s" using a by (auto simp: dropWhile_eq_self_iff hd_rev)
  ultimately show ?thesis by (simp add: Trim_dropWhile)
qed

lemma Trim_show_nat [simp]: "Trim (show_nat n) = show_nat n"
proof -
  have "c \<noteq> CHR '' ''" if "c \<in> set (show_nat n)" for c using show_nat_digits [OF that] by auto
  then show ?thesis by (intro Trim_id) simp
qed

lemma append_field_ok:
  assumes "room_for (Suc n) m" "ascii k" "Trim k = k" "Trim v = v"
  obtains hs where "HttpHeaders_Append (msg_headers m) k v = returns hs" "room_for n (m\<lparr>msg_headers := hs\<rparr>)"
proof -
  obtain hs where h: "HttpHeaders_Append (msg_headers m) k v = returns hs"
    using Append_ok [of "msg_headers m" k v] assms by (auto simp: room_for_def)
  show thesis by (rule that [OF h append_field(1) [OF assms(1,2) h]])
qed

lemma FillMissingHeaders_plain:
  assumes rq: "plain_request request" and rs: "room_for 4 response" "field response kContentLength = None" "\<not> bodiless response"
    and conn: "field response kConnection = None"
  obtains hs where "FillMissingHeaders mk request response = returns (response\<lparr>msg_headers := hs\<rparr>)" "room_for 2 (response\<lparr>msg_headers := hs\<rparr>)"
    "field (response\<lparr>msg_headers := hs\<rparr>) kConnection =
       Some (case field request kConnection of Some v \<Rightarrow> v | None \<Rightarrow> if msg_version request = V_1_1 then ''keep-alive'' else ''close'')"
    "field (response\<lparr>msg_headers := hs\<rparr>) kContentLength = Some (size_text response)"
proof -
  let ?v = "case field request kConnection of Some v \<Rightarrow> v | None \<Rightarrow> if msg_version request = V_1_1 then ''keep-alive'' else ''close''"
  have room: "room_for 0 request" "room_for (Suc 3) response" using rq rs(1) by (simp_all add: plain_request_def)
  have v: "Trim ?v = ?v" using rq by (auto simp: plain_request_def Trim_id split: option.splits)
  obtain h1 where a: "HttpHeaders_Append (msg_headers response) kConnection ?v = returns h1" "room_for 3 (response\<lparr>msg_headers := h1\<rparr>)"
    using append_field_ok [OF room(2) _ _ v, of kConnection] by auto
  let ?r1 = "response\<lparr>msg_headers := h1\<rparr>"
  note f1 = append_field(2) [OF room(2) _ a(1)]
  have c: "fill_connection request response = returns ?r1"
    using TryGet_field [OF room(2), of kConnection] TryGet_field [OF room(1), of kConnection] conn a(1)
    by (simp add: fill_connection_def)
  have r1: "room_for (Suc 2) ?r1" "field ?r1 kContentLength = None" "field ?r1 kConnection = Some ?v"
    using a(2) f1 rs(2) conn by simp_all
  obtain h2 where b: "HttpHeaders_Append (msg_headers ?r1) kContentLength (size_text ?r1) = returns h2" "room_for 2 (?r1\<lparr>msg_headers := h2\<rparr>)"
    using append_field_ok [OF r1(1), of kContentLength "size_text ?r1"] by (auto simp: size_text_def)
  note f2 = append_field(2) [OF r1(1) _ b(1)]
  have l: "fill_content_length ?r1 = returns (response\<lparr>msg_headers := h2\<rparr>)"
    using TryGet_field [OF r1(1), of kContentLength] r1(2) rs(3) b(1) unfolding bodiless_def by (auto simp add: fill_content_length_def)
  have "CompressResponseIfNecessary mk request (response\<lparr>msg_headers := h2\<rparr>) = returns (response\<lparr>msg_headers := h2\<rparr>)"
    using TryGet_field [OF room(1), of kAcceptEncoding] rq by (simp add: CompressResponseIfNecessary_def plain_request_def)
  then show thesis
    using that [of h2] b(2) c l f2 [of kConnection] f2 [of kContentLength] r1(2,3) by (simp add: FillMissingHeaders_def)
qed

lemma HttpResponse_new:
  obtains rs where "HttpResponse = Inr rs" "headers_ok (msg_headers rs)" "hdr_fields (msg_headers rs) = []" "msg_body_str rs = None" "msg_body rs = None"
proof -
  obtain hs where hs: "HttpHeaders = Inr hs" "headers_ok hs" "hdr_fields hs = []" by (rule HttpHeaders_new)
  show thesis
    by (rule that [of "\<lparr>msg_version = Unspecified_version, msg_headers = hs, msg_body_str = None, msg_body = None, rs_status = 200\<rparr>"])
      (simp_all add: HttpResponse_def hs)
qed

text \<open>A request to a service without filters whose handler answers: what is written is the handler's response with the missing fields.\<close>

lemma FastCall_plain:
  assumes rq: "plain_request request" and sv: "filters sv = []"
    and run: "\<And>rs. room_for 6 rs \<Longrightarrow> (\<And>n. field rs n = None) \<Longrightarrow> msg_body_str rs = None \<Longrightarrow> msg_body rs = None \<Longrightarrow> \<exists>rs'. RunHandler sv s request rs = returns (s', rs') \<and>
      room_for 4 rs' \<and> field rs' kContentLength = None \<and> field rs' kConnection = None \<and> \<not> bodiless rs' \<and> P rs'"
    and P: "\<And>rs hs. P rs \<Longrightarrow> P (rs\<lparr>msg_headers := hs\<rparr>)"
  obtains st rs where "FastCall mk sv s request = returns (st, Some rs, s')" "P rs" "field rs kContentLength = Some (size_text rs)"
proof -
  obtain rs0 where rs0: "HttpResponse = Inr rs0" "headers_ok (msg_headers rs0)" "hdr_fields (msg_headers rs0) = []"
    "msg_body_str rs0 = None" "msg_body rs0 = None"
    by (rule HttpResponse_new)
  let ?rs = "rs0\<lparr>msg_version := msg_version request, rs_status := 200\<rparr>"
  have "room_for 6 ?rs" "\<And>n. field ?rs n = None" "msg_body_str ?rs = None" "msg_body ?rs = None"
    using rs0 by (simp_all add: room_for_def field_def normed_def)
  from run [OF this] obtain rs' where r: "RunHandler sv s request ?rs = returns (s', rs')" "room_for 4 rs'"
    "field rs' kContentLength = None" "field rs' kConnection = None" "\<not> bodiless rs'" "P rs'" by blast
  let ?v = "case field request kConnection of Some v \<Rightarrow> v | None \<Rightarrow> if msg_version request = V_1_1 then ''keep-alive'' else ''close''"
  obtain hs where h: "FillMissingHeaders mk request rs' = returns (rs'\<lparr>msg_headers := hs\<rparr>)" "room_for 2 (rs'\<lparr>msg_headers := hs\<rparr>)"
    "field (rs'\<lparr>msg_headers := hs\<rparr>) kConnection = Some ?v" "field (rs'\<lparr>msg_headers := hs\<rparr>) kContentLength = Some (size_text rs')"
    by (rule FillMissingHeaders_plain [OF rq r(2,3,5,4)])
  have g: "HttpHeaders_TryGet hs ''Connection'' = Inr (Some ?v)"
    unfolding kConnection_def [symmetric] using TryGet_field [OF h(2), of kConnection] h(3) by simp
  have "ascii ?v" "ascii ''keep-alive''"
    using rq by (auto simp: plain_request_def ascii_def split: option.splits)
  then have ie: "IEquals ?v ''keep-alive'' = Inr (lower ?v = lower ''keep-alive'')" by (rule IEquals_ascii)
  have "FastCall mk sv s request = returns (if lower ?v = lower ''keep-alive'' then Processed else Completed, Some (rs'\<lparr>msg_headers := hs\<rparr>), s')"
    by (simp add: FastCall_def Let_def rs0(1) sv r(1) h(1) g ie del: if_split)
  then show thesis by (rule that) (use h(4) P [OF r(6)] in simp_all)
qed

subsection \<open>Properties\<close>

text \<open>Claim C21. What the service adds before a response leaves, compressed or not: it always has a \<open>Connection\<close> field. A response with status 204 or 1xx has no body and
  no \<open>Content-Length\<close>, even when the handler set one. Any other has a \<open>Content-Length\<close>, which is the size of the body that is sent; the one exception
  is a response for which the handler set a length itself and which is not compressed: it keeps that value, unchecked.\<close>

theorem FillMissingHeaders_lengths:
  assumes "room_for 0 request" "room_for 4 response" and "FillMissingHeaders mk request response = returns response'"
  shows "field response' kConnection \<noteq> None \<and>
    (if bodiless response then body_size response' = 0 \<and> field response' kContentLength = None
     else field response' kContentLength = Some (size_text response') \<or>
       (\<exists>x. field response kContentLength = Some x \<and> field response' kContentLength = Some x \<and> body_size response' = body_size response))"
proof -
  obtain r1 r2 where r: "fill_connection request response = returns r1" "fill_content_length r1 = returns r2"
    "CompressResponseIfNecessary mk request r2 = returns response'"
    using assms(3) by (auto simp: FillMissingHeaders_def andthen_eq_returns)
  have room: "room_for (Suc 3) response" using assms(2) by simp
  note c = fill_connection_field [OF assms(1) room r(1)]
  have room1: "room_for (Suc 2) r1" using c(2) by simp
  note l = fill_content_length_field [OF room1 r(2)]
  obtain hs1 hs2 where hs: "r1 = response\<lparr>msg_headers := hs1\<rparr>" "r2 = r1\<lparr>msg_headers := hs2\<rparr>" using c(1) l(1) by blast
  have conn: "field r2 kConnection \<noteq> None" using c(3) l(5) [of kConnection] by simp
  have b: "bodiless r1 = bodiless response" "body_size r2 = body_size response" "size_text r2 = size_text response" by (simp_all add: hs)
  have old: "field r1 kContentLength = field response kContentLength" using c(4) [of kContentLength] by simp
  show ?thesis
  proof (cases "bodiless response")
    case True
    then have "body_size r2 = 0" using l(4) b hs by simp
    then have "response' = r2" using r(3) by (simp add: CompressResponseIfNecessary_def)
    then show ?thesis using True conn l(3) b \<open>body_size r2 = 0\<close> by simp
  next
    case False
    then have len: "field r2 kContentLength = Some (case field response kContentLength of None \<Rightarrow> size_text r2 | Some x \<Rightarrow> x)"
      unfolding l(3) b(1) old by (simp add: hs cong: option.case_cong)
    have "response' = r2 \<or> (\<exists>es. compress_with mk es r2 = returns response')"
      using r(3) by (auto simp: CompressResponseIfNecessary_def andthen_eq_returns split: if_splits option.splits)
    then have k: "(field response' kContentLength = Some (size_text response') \<or>
        field response' kContentLength = field r2 kContentLength \<and> body_size response' = body_size r2) \<and> field response' kConnection \<noteq> None"
      using compress_with_field [OF l(2)] conn by auto
    have "size_text response' = size_text r2" if "body_size response' = body_size r2" using that by (simp add: size_text_def)
    then show ?thesis using False k len b(2) by (cases "field response kContentLength") auto
  qed
qed

lemma HttpRequest_new:
  obtains rq where "HttpRequest = Inr rq" "plain_request rq"
proof -
  obtain hs where hs: "HttpHeaders = Inr hs" "headers_ok hs" "hdr_fields hs = []" by (rule HttpHeaders_new)
  show thesis
    by (rule that [of "\<lparr>msg_version = Unspecified_version, msg_headers = hs, msg_body_str = None, msg_body = None, rq_method = Unspecified, rq_uri = []\<rparr>"])
      (simp_all add: HttpRequest_def hs plain_request_def room_for_def field_def normed_def)
qed

theorem FillMissingHeaders_lengths_witness:
  "\<exists>rq rs rs'. HttpRequest = Inr rq \<and> HttpResponse = Inr rs \<and>
     FillMissingHeaders (\<lambda>_. None) rq (set_body_str ''hello'' rs) = returns rs' \<and>
     field rs' kConnection \<noteq> None \<and> field rs' kContentLength = Some ''5''"
proof -
  obtain rq where rq: "HttpRequest = Inr rq" "plain_request rq" by (rule HttpRequest_new)
  obtain hs where hs: "HttpHeaders = Inr hs" "headers_ok hs" "hdr_fields hs = []" by (rule HttpHeaders_new)
  define rs where "rs = \<lparr>msg_version = Unspecified_version, msg_headers = hs, msg_body_str = None, msg_body = None, rs_status = 200\<rparr>"
  let ?rs = "set_body_str ''hello'' rs"
  have new: "HttpResponse = Inr rs" by (simp add: HttpResponse_def hs(1) rs_def)
  have r: "room_for 4 ?rs" "field ?rs kContentLength = None" "field ?rs kConnection = None" "\<not> bodiless ?rs"
    by (simp_all add: rs_def set_body_str_def room_for_def field_def normed_def bodiless_def hs)
  obtain h2 where f: "FillMissingHeaders (\<lambda>_. None) rq ?rs = returns (?rs\<lparr>msg_headers := h2\<rparr>)"
    by (rule FillMissingHeaders_plain [OF rq(2) r(1,2,4,3)])
  have "size_text ?rs = ''5''"
    by (simp add: size_text_def body_size_def set_body_str_def rs_def show_nat.simps char_of_def bit_0)
  then show ?thesis
    using FillMissingHeaders_lengths [OF _ r(1) f] rq new f r(2,4) by (auto simp: plain_request_def)
qed

end
