(* ===== verification/Cache_Handlers.thy ===== *)
theory Cache_Handlers
  imports Cache_Managers Http_Service
begin

section \<open>The request handlers and the server (cache/handler, cache/server.cc)\<close>

text \<open>
  The state of the cache is that of its three managers and the fibers that handlers have started with \<open>fiber::Async\<close> and that have not run yet; a
  fiber is a \<open>task\<close>, and \<open>run_task\<close> runs one; a run of the server lets them run between requests, in any order. The fibers \<open>BatchQueryKeyHandler\<close> and \<open>BatchAddKeyHandler\<close> wait for are run inside the handler; the order in
  which the additions of a batch take effect is the parameter \<open>env_order\<close>.

  What the handlers rely on is collected in \<open>cache_env\<close>: \<open>std::hash\<close>, whether assertions are compiled in, \<open>operator new\<close>, the JSON
  conversions of the bundled xpack library (\<open>None\<close> when it throws), LevelDB, and what the disk holds when the process starts.

  The lemmas follow requests through the service: which handler a path reaches, what it answers and how it changes the managers. The
  server simulates a specification, a map of strings and a map of sorted sets with the fibers that have yet to run. They also
  show where the cache and its database part ways.
\<close>

subsection \<open>State\<close>

type_synonym insert_request = "string \<times> string"

record json_codec =
  dec_insert :: "string \<Rightarrow> insert_request option"
  dec_keys :: "string \<Rightarrow> string list option"
  dec_inserts :: "string \<Rightarrow> insert_request list option"
  dec_zadd :: "string \<Rightarrow> zadd_request option"
  dec_zrange :: "string \<Rightarrow> (int \<times> int) option"
  enc_inserts :: "insert_request list \<Rightarrow> string"
  enc_zadds :: "zadd_request list \<Rightarrow> string"

record 'd cache_env =
  env_hash :: "string \<Rightarrow> u64"
  env_dbg :: bool
  env_new :: new_fn
  env_json :: json_codec
  env_db :: "'d leveldb"
  env_disk :: 'd
  env_order :: "insert_request list \<Rightarrow> insert_request list"

datatype task = Task_Init string | Task_Add string string | Task_Batch "insert_request list"

record 'd cache =
  kv :: kv_manager
  zm :: zset_manager
  ldb :: "'d localdb"
  tasks :: "task list"

type_synonym 'd cache_handler = "'d cache_env \<Rightarrow> 'd cache handler"

definition run_task :: "'d cache_env \<Rightarrow> task \<Rightarrow> 'd cache \<Rightarrow> fault + 'd cache" where
  "run_task E t s =
     (case t of
        Task_Init path \<Rightarrow>
          sthen (LocaldbManager_Init (env_db E) (env_hash E) (env_disk E) path (ldb s) (kv s)) (\<lambda>(_, l, m). Inr (s\<lparr>ldb := l, kv := m\<rparr>))
      | Task_Add key value \<Rightarrow> sthen (LocaldbManager_Add (env_db E) (ldb s) key value) (\<lambda>l. Inr (s\<lparr>ldb := l\<rparr>))
      | Task_Batch reqs \<Rightarrow> sthen (LocaldbManager_Batch (env_db E) (ldb s) reqs) (\<lambda>l. Inr (s\<lparr>ldb := l\<rparr>)))"

definition respond :: "HttpStatus \<Rightarrow> 'd cache \<Rightarrow> http_response \<Rightarrow> ('d cache \<times> http_response) run" where
  "respond status s response = returns (s, response\<lparr>rs_status := status\<rparr>)"

text \<open>\<open>GetPathParam\<close> of the target and the value of one name; \<open>decoded\<close> is a value that a JSON conversion gave or threw on.\<close>

definition path_value :: "http_request \<Rightarrow> string \<Rightarrow> string \<Rightarrow> fault + string option" where
  "path_value request path name =
     (case GetPathParam (rq_uri request) path of None \<Rightarrow> Inl Thrown | Some m \<Rightarrow> Inr (path_param_at m name))"

definition decoded :: "'a option \<Rightarrow> 'a run" where
  "decoded r = (case r of None \<Rightarrow> fails Thrown | Some v \<Rightarrow> returns v)"

subsection \<open>Handlers\<close>

definition InitQueryHandler_OnGet :: "'d cache_handler" where
  "InitQueryHandler_OnGet E s request response =
     (if \<not> LocaldbManager_Query (ldb s) then respond 400 s response
      else respond 200 s (set_body_str ''ok'' response))"

definition QueryKeyHandler_OnGet :: "'d cache_handler" where
  "QueryKeyHandler_OnGet E s request response =
     andthen (run_sum (path_value request (''/query/'' @ CHR 0x7B # ''key'' @ ''}$'') ''key'')) (\<lambda>key.
       case key of
         None \<Rightarrow> respond 400 s response
       | Some k \<Rightarrow>
           andthen (run_sum (KvManager_Query (env_hash E) (kv s) k)) (\<lambda>value.
             case value of
               None \<Rightarrow> respond 404 s response
             | Some p \<Rightarrow> andthen (run_sum (deref (kv s) p)) (\<lambda>v. respond 200 s (set_body_str v response))))"

definition AddKeyHandler_OnPost :: "'d cache_handler" where
  "AddKeyHandler_OnPost E s request response =
     andthen (decoded (dec_insert (env_json E) (body_text request))) (\<lambda>(key, value).
       if key = [] \<or> value = [] then respond 400 s response
       else
         andthen (run_sum (KvManager_Add (env_hash E) (kv s) key value)) (\<lambda>(ok, m).
           if \<not> ok then respond 400 (s\<lparr>kv := m\<rparr>) response
           else respond 200 (s\<lparr>kv := m, tasks := tasks s @ [Task_Add key value]\<rparr>) response))"

definition DelKeyHandler_OnGet :: "'d cache_handler" where
  "DelKeyHandler_OnGet E s request response =
     andthen (run_sum (path_value request (''/del/'' @ CHR 0x7B # ''key'' @ ''}$'') ''key'')) (\<lambda>key.
       case key of
         None \<Rightarrow> respond 400 s response
       | Some k \<Rightarrow>
           andthen (run_sum (KvManager_Del (env_hash E) (kv s) k)) (\<lambda>(_, m). respond 200 (s\<lparr>kv := m\<rparr>) response))"

text \<open>The queries of a batch leave the table alone, so they are run one after the other; the pointers are read afterwards.\<close>

fun query_all :: "(string \<Rightarrow> u64) \<Rightarrow> kv_manager \<Rightarrow> string list \<Rightarrow> fault + value_ptr option list" where
  "query_all h m [] = Inr []"
| "query_all h m (key # keys) =
     sthen (KvManager_Query h m key) (\<lambda>p. sthen (query_all h m keys) (\<lambda>ps. Inr (p # ps)))"

fun collect_found :: "kv_manager \<Rightarrow> string list \<Rightarrow> value_ptr option list \<Rightarrow> fault + insert_request list" where
  "collect_found m (key # keys) (Some p # ps) =
     sthen (deref m p) (\<lambda>v. sthen (collect_found m keys ps) (\<lambda>rs. Inr ((key, v) # rs)))"
| "collect_found m (key # keys) (None # ps) = collect_found m keys ps"
| "collect_found m _ _ = Inr []"

definition BatchQueryKeyHandler_OnPost :: "'d cache_handler" where
  "BatchQueryKeyHandler_OnPost E s request response =
     andthen (decoded (dec_keys (env_json E) (body_text request))) (\<lambda>key_vec.
       if key_vec = [] then respond 400 s response
       else
         andthen (run_sum (query_all (env_hash E) (kv s) key_vec)) (\<lambda>futures.
         andthen (run_sum (collect_found (kv s) key_vec futures)) (\<lambda>result_vec.
           if result_vec = [] then respond 404 s response
           else respond 200 s (set_body_str (enc_inserts (env_json E) result_vec) response))))"

definition BatchAddKeyHandler_OnPost :: "'d cache_handler" where
  "BatchAddKeyHandler_OnPost E s request response =
     andthen (decoded (dec_inserts (env_json E) (body_text request))) (\<lambda>reqs.
     andthen (run_sum (add_all (KvManager_Add (env_hash E)) (kv s) (env_order E reqs))) (\<lambda>m.
       respond 200 (s\<lparr>kv := m, tasks := tasks s @ [Task_Batch reqs]\<rparr>) response))"

definition ZaddHandler_OnPost :: "'d cache_handler" where
  "ZaddHandler_OnPost E s request response =
     andthen (run_sum (path_value request (''/zadd/'' @ CHR 0x7B # ''key'' @ ''}$'') ''key'')) (\<lambda>key.
       case key of
         None \<Rightarrow> respond 400 s response
       | Some k \<Rightarrow>
           andthen (decoded (dec_zadd (env_json E) (body_text request))) (\<lambda>z.
           andthen (ZsetManager_Add (env_hash E) (env_dbg E) (env_new E) (zm s) k (score z) (zvalue z)) (\<lambda>(ok, m).
             respond (if \<not> ok then 400 else 200) (s\<lparr>zm := m\<rparr>) response)))"

definition ZrangeHandler_OnPost :: "'d cache_handler" where
  "ZrangeHandler_OnPost E s request response =
     andthen (run_sum (path_value request (''/zrange/'' @ CHR 0x7B # ''key'' @ ''}$'') ''key'')) (\<lambda>key.
       case key of
         None \<Rightarrow> respond 400 s response
       | Some k \<Rightarrow>
           andthen (decoded (dec_zrange (env_json E) (body_text request))) (\<lambda>(min_score, max_score).
           andthen (ZsetManager_Range (env_hash E) (env_dbg E) (zm s) k min_score max_score) (\<lambda>(found, res).
             if \<not> found then respond 404 s response
             else respond 200 s (set_body_str (enc_zadds (env_json E) res) response))))"

definition ZrmvHandler_OnGet :: "'d cache_handler" where
  "ZrmvHandler_OnGet E s request response =
     (let path = ''/zrmv/'' @ CHR 0x7B # ''key'' @ CHR 0x7D # CHR ''/'' # CHR 0x7B # ''value'' @ ''}$''
      in andthen (run_sum (path_value request path ''key'')) (\<lambda>key.
         andthen (run_sum (path_value request path ''value'')) (\<lambda>value.
           case (key, value) of
             (Some k, Some v) \<Rightarrow>
               andthen (run_sum (ZsetManager_Del (env_hash E) (zm s) k v)) (\<lambda>(_, m). respond 200 (s\<lparr>zm := m\<rparr>) response)
           | _ \<Rightarrow> respond 400 s response)))"

subsection \<open>The server\<close>

definition on_get :: "'d cache_env \<Rightarrow> 'd cache_handler \<Rightarrow> 'd cache handler" where
  "on_get E f = HandleRequest [Get \<mapsto> f E]"

definition on_post :: "'d cache_env \<Rightarrow> 'd cache_handler \<Rightarrow> 'd cache handler" where
  "on_post E f = HandleRequest [Post \<mapsto> f E]"

definition std_regex :: "string \<Rightarrow> fault + rx" where
  "std_regex pattern = (case rx_compile False pattern of None \<Rightarrow> Inl Thrown | Some re \<Rightarrow> Inr re)"

definition AddHttpHandler_regex :: "string \<Rightarrow> 's handler \<Rightarrow> 's service \<Rightarrow> fault + 's service" where
  "AddHttpHandler_regex pattern h sv = sthen (std_regex pattern) (\<lambda>re. Inr (AddHandler_regex re h sv))"

fun AddHttpHandlers :: "(string \<times> 's handler) list \<Rightarrow> 's service \<Rightarrow> fault + 's service" where
  "AddHttpHandlers [] sv = Inr sv"
| "AddHttpHandlers ((p, h) # hs) sv = sthen (AddHandler p h sv) (AddHttpHandlers hs)"

definition register_handlers :: "'d cache_env \<Rightarrow> 'd cache service \<Rightarrow> fault + 'd cache service" where
  "register_handlers E sv0 =
     sthen (AddHandler ''/init'' (on_get E InitQueryHandler_OnGet) sv0) (\<lambda>sv.
     sthen (AddHttpHandler_regex ''^/query/(.+?)$'' (on_get E QueryKeyHandler_OnGet) sv) (\<lambda>sv.
     sthen (AddHandler ''/add'' (on_post E AddKeyHandler_OnPost) sv) (\<lambda>sv.
     sthen (AddHttpHandler_regex ''^/del/(.+?)$'' (on_get E DelKeyHandler_OnGet) sv) (\<lambda>sv.
     sthen (AddHandler ''/list'' (on_post E BatchQueryKeyHandler_OnPost) sv) (\<lambda>sv.
     sthen (AddHandler ''/batch'' (on_post E BatchAddKeyHandler_OnPost) sv) (\<lambda>sv.
     sthen (AddHttpHandler_regex ''^/zadd/(.+?)$'' (on_post E ZaddHandler_OnPost) sv) (\<lambda>sv.
     sthen (AddHttpHandler_regex ''^/zrange/(.+?)$'' (on_post E ZrangeHandler_OnPost) sv) (\<lambda>sv.
       AddHttpHandler_regex ''^/zrmv/(.+?)$'' (on_get E ZrmvHandler_OnGet) sv))))))))"

text \<open>\<open>Server::Start\<close> adds the pages the framework brings along.\<close>

definition Server_Start :: "(string \<times> 's handler) list \<Rightarrow> (string \<times> 's handler) list \<Rightarrow> 's service \<Rightarrow> fault + 's service" where
  "Server_Start builtin_http_handlers builtin_http_prefix_handlers sv =
     sthen (AddHttpHandlers builtin_http_handlers sv) (\<lambda>sv'.
       Inr (fold (\<lambda>(p, h). AddPrefixHandler p h) builtin_http_prefix_handlers sv'))"

text \<open>The state and the service when the server has started: the database is opened by a fiber that has yet to run.\<close>

definition Entry ::
  "'d cache_env \<Rightarrow> (string \<times> 'd cache handler) list \<Rightarrow> (string \<times> 'd cache handler) list \<Rightarrow> free_store \<Rightarrow> fault + ('d cache \<times> 'd cache service)" where
  "Entry E pages prefix_pages fs =
     sthen KvManager_Init (\<lambda>(_, m).
     sthen (ZsetManager_Init fs) (\<lambda>(_, z).
     sthen (register_handlers E Service) (\<lambda>sv.
     sthen (Server_Start pages prefix_pages sv) (\<lambda>sv'.
       Inr (\<lparr>kv = m, zm = z, ldb = LocaldbManager, tasks = [Task_Init ''/mydata'']\<rparr>, sv')))))"

text \<open>A run of the server: requests are served one at a time, and between them the fibers that handlers have left behind run, in any order; \<open>Fiber i\<close> lets
  the one at position \<open>i\<close> of those that have not run yet run to its end. The responses are collected.\<close>

datatype event = Request http_request | Fiber nat

definition remove_at :: "nat \<Rightarrow> 'a list \<Rightarrow> 'a list" where
  "remove_at i xs = take i xs @ drop (Suc i) xs"

fun serve_all ::
  "'d cache_env \<Rightarrow> compressors \<Rightarrow> 'd cache service \<Rightarrow> 'd cache \<Rightarrow> event list \<Rightarrow> ('d cache \<times> http_response option list) run" where
  "serve_all E mk sv s [] = returns (s, [])"
| "serve_all E mk sv s (Request rq # evs) =
     andthen (FastCall mk sv s rq) (\<lambda>(_, rs, s').
     andthen (serve_all E mk sv s' evs) (\<lambda>(s'', rss). returns (s'', rs # rss)))"
| "serve_all E mk sv s (Fiber i # evs) =
     (if i < length (tasks s)
      then andthen (run_sum (run_task E (tasks s ! i) (s\<lparr>tasks := remove_at i (tasks s)\<rparr>))) (\<lambda>s'. serve_all E mk sv s' evs)
      else serve_all E mk sv s evs)"

subsection \<open>Routing\<close>

definition route_rx :: "string \<Rightarrow> rx" where
  "route_rx l = Bol # lits l @ [Open_group, One Dot, Many Dot True, Close_group, Eol]"

lemma std_regex_route: "plain l \<Longrightarrow> std_regex (CHR ''^'' # l @ ''(.+?)$'') = Inr (route_rx l)"
  using rx_compile_plain [of l "''(.+?)$''" False] by (simp add: std_regex_def route_rx_def)

lemma lazy_group_end_newline:
  "\<not> no_newline v \<Longrightarrow> rx_match full [Many Dot True, Close_group, Eol] b v (Some w) caps = None"
  by (induction v arbitrary: b) (auto simp del: rx_accepts.simps)

lemma regex_match_route: "regex_match (route_rx l) p \<longleftrightarrow> prefix l p \<and> drop (length l) p \<noteq> [] \<and> no_newline (drop (length l) p)"
proof -
  have "rx_match True [Open_group, One Dot, Many Dot True, Close_group, Eol] b r None [] \<noteq> None \<longleftrightarrow> r \<noteq> [] \<and> no_newline r" for b r
  proof (cases r)
    case (Cons c r')
    then show ?thesis
      using lazy_group_end [of r' True False "[c]" "[]"] lazy_group_end_newline [of r' True False "c # r'" "[]"]
      by (cases "no_newline r'") (auto simp del: rx_accepts.simps)
  qed simp
  then show ?thesis by (simp add: regex_match_def route_rx_def rx_match_lits)
qed

lemma GetUriPath_takeWhile: "GetUriPath uri = takeWhile (\<lambda>c. c \<noteq> CHR ''?'') uri"
proof (cases "find_sub ''?'' uri")
  case None
  then have "takeWhile (\<lambda>c. c \<noteq> CHR ''?'') uri = uri" by (auto simp: takeWhile_eq_all_conv find_sub_char_None)
  then show ?thesis by (simp only: GetUriPath_def None option.case)
next
  case (Some i)
  have d: "uri = take i uri @ CHR ''?'' # drop (Suc i) uri" using find_sub_split [OF Some] by simp
  have n: "CHR ''?'' \<notin> set (take i uri)" by (rule find_sub_char_take [OF Some])
  have "takeWhile (\<lambda>c. c \<noteq> CHR ''?'') (take i uri @ CHR ''?'' # drop (Suc i) uri) = take i uri"
    using n by (subst takeWhile_append2) auto
  then show ?thesis by (simp add: GetUriPath_def Some d [symmetric])
qed

text \<open>The handlers of the cache, by path.\<close>

definition exact_routes :: "'d cache_env \<Rightarrow> string \<rightharpoonup> 'd cache handler" where
  "exact_routes E =
     [''/init'' \<mapsto> on_get E InitQueryHandler_OnGet, ''/add'' \<mapsto> on_post E AddKeyHandler_OnPost,
      ''/list'' \<mapsto> on_post E BatchQueryKeyHandler_OnPost, ''/batch'' \<mapsto> on_post E BatchAddKeyHandler_OnPost]"

definition regex_routes :: "'d cache_env \<Rightarrow> (rx \<times> 'd cache handler) list" where
  "regex_routes E =
     [(route_rx ''/query/'', on_get E QueryKeyHandler_OnGet), (route_rx ''/del/'', on_get E DelKeyHandler_OnGet),
      (route_rx ''/zadd/'', on_post E ZaddHandler_OnPost), (route_rx ''/zrange/'', on_post E ZrangeHandler_OnPost),
      (route_rx ''/zrmv/'', on_get E ZrmvHandler_OnGet)]"

lemma routes_plain [simp]:
  "plain ''/query/''" "plain ''/del/''" "plain ''/zadd/''" "plain ''/zrange/''" "plain ''/zrmv/''"
  by (simp_all add: plain_def rx_special_def)

lemma register_handlers_ok:
  "register_handlers E Service = Inr (Service\<lparr>exact_paths := exact_routes E, regex_paths := regex_routes E\<rparr>)"
proof -
  have r: "std_regex ''^/query/(.+?)$'' = Inr (route_rx ''/query/'')" "std_regex ''^/del/(.+?)$'' = Inr (route_rx ''/del/'')"
    "std_regex ''^/zadd/(.+?)$'' = Inr (route_rx ''/zadd/'')" "std_regex ''^/zrange/(.+?)$'' = Inr (route_rx ''/zrange/'')"
    "std_regex ''^/zrmv/(.+?)$'' = Inr (route_rx ''/zrmv/'')"
    using std_regex_route [of "''/query/''"] std_regex_route [of "''/del/''"] std_regex_route [of "''/zadd/''"]
      std_regex_route [of "''/zrange/''"] std_regex_route [of "''/zrmv/''"] by simp_all
  show ?thesis
    by (simp add: register_handlers_def AddHandler_def AddHttpHandler_regex_def AddHandler_regex_def Service_def r
        exact_routes_def regex_routes_def)
qed

lemma AddHttpHandlers_ok:
  "AddHttpHandlers hs sv = Inr sv' \<Longrightarrow>
   sv' = sv\<lparr>exact_paths := exact_paths sv'\<rparr> \<and> (\<forall>p. exact_paths sv p \<noteq> None \<longrightarrow> exact_paths sv' p = exact_paths sv p) \<and>
   (\<forall>p. p \<notin> fst ` set hs \<longrightarrow> exact_paths sv' p = exact_paths sv p)"
proof (induction hs arbitrary: sv)
  case (Cons ph hs)
  obtain p h where ph: "ph = (p, h)" by fastforce
  then have new: "exact_paths sv p = None" and "AddHttpHandlers hs (sv\<lparr>exact_paths := (exact_paths sv)(p \<mapsto> h)\<rparr>) = Inr sv'"
    using Cons.prems by (auto simp: AddHandler_def split: if_splits)
  from Cons.IH [OF this(2)] new ph show ?case by (auto split: if_splits)
qed simp

lemma fold_prefix:
  "fold (\<lambda>(p, h). AddPrefixHandler p h) ps sv = sv\<lparr>prefix_paths := prefix_paths sv @ ps\<rparr>"
  by (induction ps arbitrary: sv) (auto simp: AddPrefixHandler_def)

text \<open>What the routing of a started server looks like, whatever pages the framework adds.\<close>

definition cache_service :: "'d cache_env \<Rightarrow> (string \<times> 'd cache handler) list \<Rightarrow> (string \<times> 'd cache handler) list \<Rightarrow> 'd cache service \<Rightarrow> bool" where
  "cache_service E pages prefix_pages sv \<longleftrightarrow>
     filters sv = [] \<and> prefix_paths sv = prefix_pages \<and> regex_paths sv = regex_routes E \<and>
     (\<forall>p h. exact_routes E p = Some h \<longrightarrow> exact_paths sv p = Some h) \<and>
     (\<forall>p. p \<notin> fst ` set pages \<longrightarrow> exact_paths sv p = exact_routes E p)"

lemma Entry_ok:
  assumes "Entry E pages prefix_pages fs = Inr (s, sv)"
  shows "cache_service E pages prefix_pages sv" and "KvManager_Init = Inr (True, kv s)" and "ZsetManager_Init fs = Inr (True, zm s)"
    and "ldb s = LocaldbManager" and "tasks s = [Task_Init ''/mydata'']"
proof -
  obtain m z sv1 where e: "KvManager_Init = Inr (True, m)" "ZsetManager_Init fs = Inr (True, z)"
    "AddHttpHandlers pages (Service\<lparr>exact_paths := exact_routes E, regex_paths := regex_routes E\<rparr>) = Inr sv1"
    "sv = sv1\<lparr>prefix_paths := prefix_paths sv1 @ prefix_pages\<rparr>"
    "s = \<lparr>kv = m, zm = z, ldb = LocaldbManager, tasks = [Task_Init ''/mydata'']\<rparr>"
    using assms by (auto simp: Entry_def Server_Start_def register_handlers_ok sthen_eq_Inr fold_prefix KvManager_Init_def ZsetManager_Init_def HashKv_Init_def
        split: prod.splits if_splits)
  note a = AddHttpHandlers_ok [OF e(3)]
  have "filters sv1 = []" "prefix_paths sv1 = []" "regex_paths sv1 = regex_routes E"
    using arg_cong [OF conjunct1 [OF a], of filters] arg_cong [OF conjunct1 [OF a], of prefix_paths]
      arg_cong [OF conjunct1 [OF a], of regex_paths] by (simp_all add: Service_def)
  then show "cache_service E pages prefix_pages sv" using a e(4) by (auto simp: cache_service_def)
  show "KvManager_Init = Inr (True, kv s)" "ZsetManager_Init fs = Inr (True, zm s)" "ldb s = LocaldbManager" "tasks s = [Task_Init ''/mydata'']"
    using e by simp_all
qed

subsection \<open>Requests and answers\<close>

definition page_free :: "(string \<times> 's handler) list \<Rightarrow> (string \<times> 's handler) list \<Rightarrow> string \<Rightarrow> bool" where
  "page_free pages prefix_pages path \<longleftrightarrow> path \<notin> fst ` set pages \<and> find_prefix path prefix_pages = None"

text \<open>A parameter at the end of a target that reaches its handler whole.\<close>

definition good_key :: "string \<Rightarrow> bool" where
  "good_key k \<longleftrightarrow> k \<noteq> [] \<and> hd k \<noteq> CHR ''?'' \<and> no_newline k"

definition answer :: "HttpStatus \<Rightarrow> string option \<Rightarrow> http_response \<Rightarrow> http_response" where
  "answer status body response = (case body of None \<Rightarrow> response | Some b \<Rightarrow> set_body_str b response)\<lparr>rs_status := status\<rparr>"

lemma answer_simps [simp]:
  "room_for n (answer st bo rs) = room_for n rs" "field (answer st bo rs) name = field rs name" "rs_status (answer st bo rs) = st"
  by (simp_all add: answer_def set_body_str_def room_for_def field_def split: option.split)

lemma body_bytes_answer:
  "msg_body rs = None \<Longrightarrow> msg_body_str rs = None \<Longrightarrow> body_bytes (answer st bo rs) = (case bo of None \<Rightarrow> [] | Some b \<Rightarrow> b)"
  by (simp add: answer_def body_bytes_def noncontiguous_body_def body_text_def message_body_def StringifyBody_def set_body_str_def split: option.split)

lemma body_bytes_headers [simp]: "body_bytes (m\<lparr>msg_headers := hs\<rparr>) = body_bytes m"
  by (simp add: body_bytes_def noncontiguous_body_def body_text_def message_body_def StringifyBody_def cong: option.case_cong)

lemma FastCall_answer:
  assumes rq: "plain_request rq" and sv: "filters sv = []" and h: "FindHandler sv (rq_uri rq) = Some (HandleRequest [rq_method rq \<mapsto> f])"
    and m: "rq_method rq \<in> set kHandlers"
    and f: "\<And>rs. f s rq rs = returns (s', answer st bo rs)" and st: "st \<in> {200, 400, 404}"
  shows "\<exists>ps rs. FastCall mk sv s rq = returns (ps, Some rs, s') \<and> rs_status rs = st \<and> body_bytes rs = (case bo of None \<Rightarrow> [] | Some b \<Rightarrow> b) \<and>
    field rs kContentLength = Some (size_text rs)"
proof -
  let ?P = "\<lambda>rs. rs_status rs = st \<and> body_bytes rs = (case bo of None \<Rightarrow> [] | Some b \<Rightarrow> b)"
  obtain ps rs where "FastCall mk sv s rq = returns (ps, Some rs, s')" "?P rs" "field rs kContentLength = Some (size_text rs)"
  proof (rule FastCall_plain [OF rq sv])
    fix rs :: http_response
    assume r: "room_for 6 rs" "\<And>n. field rs n = None" "msg_body_str rs = None" "msg_body rs = None"
    have "RunHandler sv s rq rs = returns (s', answer st bo rs)" using m by (simp add: RunHandler_def h HandleRequest_def f)
    moreover have "room_for 4 rs" using r(1) by (simp add: room_for_def)
    moreover have "\<not> bodiless (answer st bo rs)" using st by (auto simp: bodiless_def)
    ultimately show "\<exists>rs'. RunHandler sv s rq rs = returns (s', rs') \<and> room_for 4 rs' \<and> field rs' kContentLength = None \<and>
        field rs' kConnection = None \<and> \<not> bodiless rs' \<and> ?P rs'"
      using r(2) body_bytes_answer [OF r(4,3)] by (intro exI [of _ "answer st bo rs"]) simp
  qed auto
  then show ?thesis by blast
qed

lemma FastCall_fails:
  assumes "filters sv = []" "FindHandler sv (rq_uri rq) = Some (HandleRequest [rq_method rq \<mapsto> f])" "rq_method rq \<in> set kHandlers"
    and "\<And>rs. f s rq rs = fails e"
  shows "FastCall mk sv s rq = fails e"
proof -
  obtain rs0 where rs0: "HttpResponse = Inr rs0" by (rule HttpResponse_new)
  show ?thesis using assms(3) by (simp add: FastCall_def Let_def rs0 assms(1) RunHandler_def assms(2) HandleRequest_def assms(4))
qed

text \<open>Which handler a target reaches.\<close>

lemma FindHandler_routes:
  assumes "cache_service E pages prefix_pages sv" "page_free pages prefix_pages (GetUriPath uri)"
  shows "exact_routes E (GetUriPath uri) = Some h \<Longrightarrow> FindHandler sv uri = Some h"
    and "exact_routes E (GetUriPath uri) = None \<Longrightarrow> find_regex (GetUriPath uri) (regex_routes E) = Some h \<Longrightarrow> FindHandler sv uri = Some h"
  using assms by (auto simp: FindHandler_def cache_service_def page_free_def Let_def)

lemma key_routes:
  assumes "good_key k"
  shows "exact_routes E (GetUriPath (''/query/'' @ k)) = None" "find_regex (GetUriPath (''/query/'' @ k)) (regex_routes E) = Some (on_get E QueryKeyHandler_OnGet)"
    and "exact_routes E (GetUriPath (''/del/'' @ k)) = None" "find_regex (GetUriPath (''/del/'' @ k)) (regex_routes E) = Some (on_get E DelKeyHandler_OnGet)"
    and "exact_routes E (GetUriPath (''/zadd/'' @ k)) = None" "find_regex (GetUriPath (''/zadd/'' @ k)) (regex_routes E) = Some (on_post E ZaddHandler_OnPost)"
    and "exact_routes E (GetUriPath (''/zrange/'' @ k)) = None" "find_regex (GetUriPath (''/zrange/'' @ k)) (regex_routes E) = Some (on_post E ZrangeHandler_OnPost)"
    and "exact_routes E (GetUriPath (''/zrmv/'' @ k)) = None" "find_regex (GetUriPath (''/zrmv/'' @ k)) (regex_routes E) = Some (on_get E ZrmvHandler_OnGet)"
proof -
  have "takeWhile (\<lambda>c. c \<noteq> CHR ''?'') k \<noteq> []" using assms by (cases k) (auto simp: good_key_def)
  moreover have "no_newline (takeWhile (\<lambda>c. c \<noteq> CHR ''?'') k)" using assms by (auto simp: good_key_def no_newline_def dest: set_takeWhileD)
  moreover have "takeWhile (\<lambda>c. c \<noteq> CHR ''?'') k = w \<Longrightarrow> w \<noteq> [] \<Longrightarrow> no_newline w \<Longrightarrow>
    exact_routes E (GetUriPath (''/query/'' @ k)) = None \<and> find_regex (GetUriPath (''/query/'' @ k)) (regex_routes E) = Some (on_get E QueryKeyHandler_OnGet) \<and>
    exact_routes E (GetUriPath (''/del/'' @ k)) = None \<and> find_regex (GetUriPath (''/del/'' @ k)) (regex_routes E) = Some (on_get E DelKeyHandler_OnGet) \<and>
    exact_routes E (GetUriPath (''/zadd/'' @ k)) = None \<and> find_regex (GetUriPath (''/zadd/'' @ k)) (regex_routes E) = Some (on_post E ZaddHandler_OnPost) \<and>
    exact_routes E (GetUriPath (''/zrange/'' @ k)) = None \<and> find_regex (GetUriPath (''/zrange/'' @ k)) (regex_routes E) = Some (on_post E ZrangeHandler_OnPost) \<and>
    exact_routes E (GetUriPath (''/zrmv/'' @ k)) = None \<and> find_regex (GetUriPath (''/zrmv/'' @ k)) (regex_routes E) = Some (on_get E ZrmvHandler_OnGet)" for w
    by (simp add: GetUriPath_takeWhile exact_routes_def regex_routes_def regex_match_route)
  ultimately show
    "exact_routes E (GetUriPath (''/query/'' @ k)) = None" "find_regex (GetUriPath (''/query/'' @ k)) (regex_routes E) = Some (on_get E QueryKeyHandler_OnGet)"
    "exact_routes E (GetUriPath (''/del/'' @ k)) = None" "find_regex (GetUriPath (''/del/'' @ k)) (regex_routes E) = Some (on_get E DelKeyHandler_OnGet)"
    "exact_routes E (GetUriPath (''/zadd/'' @ k)) = None" "find_regex (GetUriPath (''/zadd/'' @ k)) (regex_routes E) = Some (on_post E ZaddHandler_OnPost)"
    "exact_routes E (GetUriPath (''/zrange/'' @ k)) = None" "find_regex (GetUriPath (''/zrange/'' @ k)) (regex_routes E) = Some (on_post E ZrangeHandler_OnPost)"
    "exact_routes E (GetUriPath (''/zrmv/'' @ k)) = None" "find_regex (GetUriPath (''/zrmv/'' @ k)) (regex_routes E) = Some (on_get E ZrmvHandler_OnGet)"
    by blast+
qed

lemma key_value:
  assumes "plain l" "l \<noteq> []" "rq_uri rq = l @ k" "no_newline (l @ k)"
  shows "path_value rq (l @ CHR 0x7B # ''key'' @ ''}$'') ''key'' = Inr (Some k)"
proof -
  have "param_name ''key''" by (simp add: param_name_def no_newline_def LF_char_def CR_char_def)
  moreover have "find_sub l (l @ k) = Some 0" using assms(2) by (cases l) (simp_all add: StartsWith_prefix)
  ultimately show ?thesis
    using GetPathParam_tail [of l "''key''" "rq_uri rq"] assms by (simp add: path_value_def path_param_at_def)
qed

lemma pair_values:
  assumes "rq_uri rq = ''/zrmv/'' @ k @ CHR ''/'' # v" "CHR ''/'' \<notin> set k" "no_newline (k @ v)"
  defines "path \<equiv> ''/zrmv/'' @ CHR 0x7B # ''key'' @ CHR 0x7D # CHR ''/'' # CHR 0x7B # ''value'' @ ''}$''"
  shows "path_value rq path ''key'' = Inr (Some k)" "path_value rq path ''value'' = Inr (Some v)"
proof -
  have n: "param_name ''key''" "param_name ''value''" by (simp_all add: param_name_def no_newline_def LF_char_def CR_char_def)
  have f: "find_sub ''/zrmv/'' (''/zrmv/'' @ k @ CHR ''/'' # v) = Some 0" "find_sub ''/'' (k @ CHR ''/'' # v) = Some (length k)"
    using find_sub_char(1) [OF assms(2)] by (simp_all add: StartsWith_prefix)
  have u: "no_newline (''/zrmv/'' @ k @ CHR ''/'' # v)" using assms(3) by (simp add: LF_char_def CR_char_def)
  have "GetPathParam (rq_uri rq) path = Some (map_of [(''key'', Some k), (''value'', Some v)])"
    using GetPathParam_pair [OF routes_plain(5) _ n u] f unfolding assms(1) path_def by simp
  then show "path_value rq path ''key'' = Inr (Some k)" "path_value rq path ''value'' = Inr (Some v)"
    by (simp_all add: path_value_def path_param_at_def)
qed

subsection \<open>What the server promises\<close>

text \<open>Requests of clients, as the service receives them: of the method and target the handler is registered for, with a body its decoder accepts,
  without \<open>Accept-Encoding\<close>, and not to a page of the framework.\<close>

datatype cache_request =
    CInit | CQuery string | CAdd string string | CDel string | CList "string list" | CBatch "insert_request list"
  | CZadd string int string | CZrange string int int | CZrmv string string

definition asks ::
  "'d cache_env \<Rightarrow> (string \<times> 'd cache handler) list \<Rightarrow> (string \<times> 'd cache handler) list \<Rightarrow> http_request \<Rightarrow> cache_request \<Rightarrow> bool" where
  "asks E pages prefix_pages rq r \<longleftrightarrow>
     plain_request rq \<and> page_free pages prefix_pages (GetUriPath (rq_uri rq)) \<and>
     (case r of
        CInit \<Rightarrow> rq_method rq = Get \<and> GetUriPath (rq_uri rq) = ''/init''
      | CQuery k \<Rightarrow> rq_method rq = Get \<and> rq_uri rq = ''/query/'' @ k \<and> good_key k
      | CAdd k v \<Rightarrow> rq_method rq = Post \<and> GetUriPath (rq_uri rq) = ''/add'' \<and> dec_insert (env_json E) (body_text rq) = Some (k, v) \<and>
          k \<noteq> [] \<and> v \<noteq> []
      | CDel k \<Rightarrow> rq_method rq = Get \<and> rq_uri rq = ''/del/'' @ k \<and> good_key k
      | CList ks \<Rightarrow> rq_method rq = Post \<and> GetUriPath (rq_uri rq) = ''/list'' \<and> dec_keys (env_json E) (body_text rq) = Some ks \<and> ks \<noteq> []
      | CBatch kvs \<Rightarrow> rq_method rq = Post \<and> GetUriPath (rq_uri rq) = ''/batch'' \<and> dec_inserts (env_json E) (body_text rq) = Some kvs
      | CZadd k s v \<Rightarrow> rq_method rq = Post \<and> rq_uri rq = ''/zadd/'' @ k \<and> good_key k \<and>
          dec_zadd (env_json E) (body_text rq) = Some \<lparr>score = s, zvalue = v\<rparr>
      | CZrange k lo hi \<Rightarrow> rq_method rq = Post \<and> rq_uri rq = ''/zrange/'' @ k \<and> good_key k \<and>
          dec_zrange (env_json E) (body_text rq) = Some (lo, hi)
      | CZrmv k v \<Rightarrow> rq_method rq = Get \<and> rq_uri rq = ''/zrmv/'' @ k @ CHR ''/'' # v \<and> good_key (k @ CHR ''/'' # v) \<and> CHR ''/'' \<notin> set k)"

text \<open>What the structures of the cache hold, and how a request changes that and is answered from it.\<close>

type_synonym cache_view = "(string \<rightharpoonup> string) \<times> (string \<rightharpoonup> zset_view)"

definition found_in :: "(string \<rightharpoonup> string) \<Rightarrow> string list \<Rightarrow> insert_request list" where
  "found_in m ks = [(k, the (m k)). k \<leftarrow> ks, m k \<noteq> None]"

fun view_answer :: "'d cache_env \<Rightarrow> bool \<Rightarrow> cache_request \<Rightarrow> cache_view \<Rightarrow> HttpStatus \<times> string" where
  "view_answer E up (CQuery k) (m, z) = (case m k of None \<Rightarrow> (404, []) | Some v \<Rightarrow> (200, v))"
| "view_answer E up (CList ks) (m, z) =
     (if found_in m ks = [] then (404, []) else (200, enc_inserts (env_json E) (found_in m ks)))"
| "view_answer E up (CZrange k lo hi) (m, z) =
     (case z k of
        None \<Rightarrow> (404, [])
      | Some (c, ps) \<Rightarrow> (200, enc_zadds (env_json E) (filter (\<lambda>p. lo \<le> score p \<and> score p \<le> hi \<and> c (zvalue p) = Some (score p)) ps)))"
| "view_answer E up CInit _ = (if up then (200, ''ok'') else (400, []))"
| "view_answer E up _ _ = (200, [])"

fun view_update :: "'d cache_env \<Rightarrow> cache_request \<Rightarrow> cache_view \<Rightarrow> cache_view" where
  "view_update E (CAdd k v) (m, z) = (m(k \<mapsto> v), z)"
| "view_update E (CDel k) (m, z) = (m(k := None), z)"
| "view_update E (CBatch kvs) (m, z) = (m ++ map_of (rev (env_order E kvs)), z)"
| "view_update E (CZadd k s v) (m, z) = (m, zview_step (ZmAdd k s v) z)"
| "view_update E (CZrmv k v) (m, z) = (m, zview_step (ZmDel k v) z)"
| "view_update E _ (m, z) = (m, z)"

fun repeats_score :: "cache_request \<Rightarrow> cache_view \<Rightarrow> bool" where
  "repeats_score (CZadd k s v) (m, z) = zm_repeats z (ZmAdd k s v)"
| "repeats_score _ _ = False"

text \<open>The one request that needs memory from the arena, and the fibers a request leaves behind.\<close>

definition allocates :: "cache_request \<Rightarrow> bool" where
  "allocates r \<longleftrightarrow> (case r of CZadd k s v \<Rightarrow> True | _ \<Rightarrow> False)"

fun new_tasks :: "cache_request \<Rightarrow> task list" where
  "new_tasks (CAdd k v) = [Task_Add k v]"
| "new_tasks (CBatch kvs) = [Task_Batch kvs]"
| "new_tasks _ = []"

text \<open>The invariant of the state, and what the state holds.\<close>

definition cache_inv :: "'d cache_env \<Rightarrow> 'd cache \<Rightarrow> region list \<Rightarrow> addr list list \<Rightarrow> bool" where
  "cache_inv E s R Ls \<longleftrightarrow> kv_ok (kv s) \<and> zm_inv (env_hash E) (env_new E) (zm s) R Ls"

definition cache_view :: "'d cache_env \<Rightarrow> 'd cache \<Rightarrow> addr list list \<Rightarrow> cache_view" where
  "cache_view E s Ls = (contents (env_hash E) (kv s), zview (env_hash E) (zm s) Ls)"

text \<open>A handler that answers as the specification does.\<close>

definition handles ::
  "'d cache_env \<Rightarrow> 'd cache_handler \<Rightarrow> http_request \<Rightarrow> cache_request \<Rightarrow> 'd cache \<Rightarrow> addr list list \<Rightarrow> bool" where
  "handles E f rq r s Ls \<longleftrightarrow>
     allocates r \<and> (\<forall>rs. f E s rq rs = fails Bad_alloc) \<or>
     (\<exists>s' R' Ls' st bo. (\<forall>rs. f E s rq rs = returns (s', answer st bo rs)) \<and> cache_inv E s' R' Ls' \<and> ldb s' = ldb s \<and> tasks s' = tasks s @ new_tasks r \<and>
        cache_view E s' Ls' = view_update E r (cache_view E s Ls) \<and> st \<in> {200, 400, 404} \<and>
        (st, case bo of None \<Rightarrow> [] | Some b \<Rightarrow> b) = view_answer E (LocaldbManager_Query (ldb s)) r (cache_view E s Ls))"

lemma respond_answer:
  "respond st s rs = returns (s, answer st None rs)" "answer st None (set_body_str b rs) = answer st (Some b) rs"
  by (simp_all add: respond_def answer_def)

lemma handles_Init:
  assumes inv: "cache_inv E s R Ls"
  shows "handles E InitQueryHandler_OnGet rq CInit s Ls"
proof -
  let ?up = "LocaldbManager_Query (ldb s)"
  let ?st = "if ?up then 200 else 400" and ?bo = "if ?up then Some ''ok'' else None"
  have "InitQueryHandler_OnGet E s rq rs = returns (s, answer ?st ?bo rs)" for rs
    by (simp add: InitQueryHandler_OnGet_def respond_answer)
  then show ?thesis unfolding handles_def
    using inv by (intro disjI2 exI [of _ s] exI [of _ R] exI [of _ Ls] exI [of _ ?st] exI [of _ ?bo]) (simp add: cache_view_def)
qed

lemma handles_Query:
  assumes "asks E pages pps rq (CQuery k)" and inv: "cache_inv E s R Ls"
  shows "handles E QueryKeyHandler_OnGet rq (CQuery k) s Ls"
proof -
  have "path_value rq (''/query/'' @ CHR 0x7B # ''key'' @ ''}$'') ''key'' = Inr (Some k)"
    by (rule key_value) (use assms(1) in \<open>simp_all add: asks_def good_key_def LF_char_def CR_char_def\<close>)
  note pv = this [simplified]
  have ok: "kv_ok (kv s)" using inv by (simp add: cache_inv_def)
  show ?thesis
    using ok
  proof (cases rule: KvManager_Query_ok [of _ "env_hash E" k])
    case absent
    then have "QueryKeyHandler_OnGet E s rq rs = returns (s, answer 404 None rs)" for rs
      by (simp add: QueryKeyHandler_OnGet_def pv respond_answer)
    then show ?thesis unfolding handles_def
      by (intro disjI2 exI [of _ s] exI [of _ R] exI [of _ Ls] exI [of _ 404] exI [of _ None]) (simp add: inv cache_view_def absent(2))
  next
    case (present p v)
    then have "QueryKeyHandler_OnGet E s rq rs = returns (s, answer 200 (Some v) rs)" for rs
      by (simp add: QueryKeyHandler_OnGet_def pv respond_answer)
    then show ?thesis unfolding handles_def
      by (intro disjI2 exI [of _ s] exI [of _ R] exI [of _ Ls] exI [of _ 200] exI [of _ "Some v"]) (simp add: inv cache_view_def present(3))
  qed
qed

lemma handles_Add:
  assumes "asks E pages pps rq (CAdd k v)" and inv: "cache_inv E s R Ls"
  shows "handles E AddKeyHandler_OnPost rq (CAdd k v) s Ls"
proof -
  have ok: "kv_ok (kv s)" using inv by (simp add: cache_inv_def)
  obtain m where m: "KvManager_Add (env_hash E) (kv s) k v = Inr (True, m)" "kv_ok m" "contents (env_hash E) m = (contents (env_hash E) (kv s))(k \<mapsto> v)"
    by (rule KvManager_Add_ok [OF ok])
  let ?s = "s\<lparr>kv := m, tasks := tasks s @ [Task_Add k v]\<rparr>"
  have "AddKeyHandler_OnPost E s rq rs = returns (?s, answer 200 None rs)" for rs
    using assms(1) by (simp add: AddKeyHandler_OnPost_def asks_def decoded_def m(1) respond_answer)
  then show ?thesis unfolding handles_def
    using inv by (intro disjI2 exI [of _ ?s] exI [of _ R] exI [of _ Ls] exI [of _ 200] exI [of _ None]) (simp add: m(2,3) cache_inv_def cache_view_def)
qed

lemma handles_Del:
  assumes "asks E pages pps rq (CDel k)" and inv: "cache_inv E s R Ls"
  shows "handles E DelKeyHandler_OnGet rq (CDel k) s Ls"
proof -
  have "path_value rq (''/del/'' @ CHR 0x7B # ''key'' @ ''}$'') ''key'' = Inr (Some k)"
    by (rule key_value) (use assms(1) in \<open>simp_all add: asks_def good_key_def LF_char_def CR_char_def\<close>)
  note pv = this [simplified]
  have ok: "kv_ok (kv s)" using inv by (simp add: cache_inv_def)
  obtain m where m: "KvManager_Del (env_hash E) (kv s) k = Inr (True, m)" "kv_ok m" "contents (env_hash E) m = (contents (env_hash E) (kv s))(k := None)"
    by (rule KvManager_Del_ok [OF ok])
  have "DelKeyHandler_OnGet E s rq rs = returns (s\<lparr>kv := m\<rparr>, answer 200 None rs)" for rs
    by (simp add: DelKeyHandler_OnGet_def pv m(1) respond_answer)
  then show ?thesis unfolding handles_def
    using inv by (intro disjI2 exI [of _ "s\<lparr>kv := m\<rparr>"] exI [of _ R] exI [of _ Ls] exI [of _ 200] exI [of _ None]) (simp add: m(2,3) cache_inv_def cache_view_def)
qed

lemma query_all_ok:
  assumes "kv_ok m"
  shows "\<exists>ps. query_all h m ks = Inr ps \<and> collect_found m ks ps = Inr (found_in (contents h m) ks)"
proof (induction ks)
  case (Cons k ks)
  then obtain ps where ps: "query_all h m ks = Inr ps" "collect_found m ks ps = Inr (found_in (contents h m) ks)"
    by blast
  show ?case using assms
  proof (cases rule: KvManager_Query_ok [of _ h k])
    case absent
    then show ?thesis using ps by (intro exI [of _ "None # ps"]) (simp add: found_in_def)
  next
    case (present p v)
    then show ?thesis using ps by (intro exI [of _ "Some p # ps"]) (simp add: found_in_def)
  qed
qed (simp add: found_in_def)

lemma handles_List:
  assumes "asks E pages pps rq (CList ks)" and inv: "cache_inv E s R Ls"
  shows "handles E BatchQueryKeyHandler_OnPost rq (CList ks) s Ls"
proof -
  have ok: "kv_ok (kv s)" using inv by (simp add: cache_inv_def)
  let ?found = "found_in (contents (env_hash E) (kv s)) ks"
  obtain ps where ps: "query_all (env_hash E) (kv s) ks = Inr ps" "collect_found (kv s) ks ps = Inr ?found"
    using query_all_ok [OF ok] by blast
  let ?st = "if ?found = [] then 404 else 200" and ?bo = "if ?found = [] then None else Some (enc_inserts (env_json E) ?found)"
  have "BatchQueryKeyHandler_OnPost E s rq rs = returns (s, answer ?st ?bo rs)" for rs
    using assms(1) by (simp add: BatchQueryKeyHandler_OnPost_def asks_def decoded_def ps respond_answer)
  then show ?thesis unfolding handles_def
    using inv by (intro disjI2 exI [of _ s] exI [of _ R] exI [of _ Ls] exI [of _ ?st] exI [of _ ?bo]) (simp add: cache_view_def)
qed

lemma handles_Batch:
  assumes "asks E pages pps rq (CBatch kvs)" and inv: "cache_inv E s R Ls"
  shows "handles E BatchAddKeyHandler_OnPost rq (CBatch kvs) s Ls"
proof -
  have ok: "kv_ok (kv s)" using inv by (simp add: cache_inv_def)
  obtain m where m: "add_all (HashKv_Add (env_hash E)) (kv s) (env_order E kvs) = Inr m" "kv_ok m"
    "contents (env_hash E) m = contents (env_hash E) (kv s) ++ map_of (rev (env_order E kvs))"
    using hash_kv.add_all_ok [OF ok, of "env_hash E" "env_order E kvs"] by blast
  have "KvManager_Add (env_hash E) = HashKv_Add (env_hash E)" by (simp add: KvManager_Add_def fun_eq_iff)
  then have a: "add_all (KvManager_Add (env_hash E)) (kv s) (env_order E kvs) = Inr m" using m(1) by simp
  let ?s = "s\<lparr>kv := m, tasks := tasks s @ [Task_Batch kvs]\<rparr>"
  have "BatchAddKeyHandler_OnPost E s rq rs = returns (?s, answer 200 None rs)" for rs
    using assms(1) by (simp add: BatchAddKeyHandler_OnPost_def asks_def decoded_def a respond_answer)
  then show ?thesis unfolding handles_def
    using inv by (intro disjI2 exI [of _ ?s] exI [of _ R] exI [of _ Ls] exI [of _ 200] exI [of _ None]) (simp add: m(2,3) cache_inv_def cache_view_def)
qed

lemma handles_Zadd:
  assumes "asks E pages pps rq (CZadd k sc v)" and inv: "cache_inv E s R Ls"
    and fresh: "env_dbg E \<Longrightarrow> \<not> repeats_score (CZadd k sc v) (cache_view E s Ls)"
  shows "handles E ZaddHandler_OnPost rq (CZadd k sc v) s Ls"
proof -
  have "path_value rq (''/zadd/'' @ CHR 0x7B # ''key'' @ ''}$'') ''key'' = Inr (Some k)"
    by (rule key_value) (use assms(1) in \<open>simp_all add: asks_def good_key_def LF_char_def CR_char_def\<close>)
  note pv = this [simplified]
  have dec: "dec_zadd (env_json E) (body_text rq) = Some \<lparr>score = sc, zvalue = v\<rparr>" using assms(1) by (simp add: asks_def)
  have z: "zm_inv (env_hash E) (env_new E) (zm s) R Ls" using inv by (simp add: cache_inv_def)
  have fr: "env_dbg E \<Longrightarrow> \<not> zm_repeats (zview (env_hash E) (zm s) Ls) (ZmAdd k sc v)" using fresh by (simp add: cache_view_def)
  have "ZsetManager_Add (env_hash E) (env_dbg E) (env_new E) (zm s) k sc v = fails Bad_alloc \<or>
    (\<exists>z' R' Ls'. ZsetManager_Add (env_hash E) (env_dbg E) (env_new E) (zm s) k sc v = returns (True, z') \<and>
      zm_inv (env_hash E) (env_new E) z' R' Ls' \<and> zview (env_hash E) z' Ls' = zview_step (ZmAdd k sc v) (zview (env_hash E) (zm s) Ls))"
    by (rule ZsetManager_Add_ok [OF z]) (rule fr)
  then show ?thesis
  proof (elim disjE exE conjE)
    assume "ZsetManager_Add (env_hash E) (env_dbg E) (env_new E) (zm s) k sc v = fails Bad_alloc"
    then show ?thesis by (simp add: handles_def allocates_def ZaddHandler_OnPost_def pv dec decoded_def)
  next
    fix z' R' Ls'
    assume a: "ZsetManager_Add (env_hash E) (env_dbg E) (env_new E) (zm s) k sc v = returns (True, z')"
      "zm_inv (env_hash E) (env_new E) z' R' Ls'" "zview (env_hash E) z' Ls' = zview_step (ZmAdd k sc v) (zview (env_hash E) (zm s) Ls)"
    have "ZaddHandler_OnPost E s rq rs = returns (s\<lparr>zm := z'\<rparr>, answer 200 None rs)" for rs
      by (simp add: ZaddHandler_OnPost_def pv dec decoded_def a(1) respond_answer)
    then show ?thesis unfolding handles_def
      using inv a(2,3) by (intro disjI2 exI [of _ "s\<lparr>zm := z'\<rparr>"] exI [of _ R'] exI [of _ Ls'] exI [of _ 200] exI [of _ None])
        (simp add: cache_inv_def cache_view_def del: zview_step.simps)
  qed
qed

lemma handles_Zrange:
  assumes "asks E pages pps rq (CZrange k lo hi)" and inv: "cache_inv E s R Ls"
  shows "handles E ZrangeHandler_OnPost rq (CZrange k lo hi) s Ls"
proof -
  have "path_value rq (''/zrange/'' @ CHR 0x7B # ''key'' @ ''}$'') ''key'' = Inr (Some k)"
    by (rule key_value) (use assms(1) in \<open>simp_all add: asks_def good_key_def LF_char_def CR_char_def\<close>)
  note pv = this [simplified]
  have dec: "dec_zrange (env_json E) (body_text rq) = Some (lo, hi)" using assms(1) by (simp add: asks_def)
  have z: "zm_inv (env_hash E) (env_new E) (zm s) R Ls" using inv by (simp add: cache_inv_def)
  note r = ZsetManager_Range_ok [OF z, of "env_dbg E" k lo hi]
  show ?thesis
  proof (cases "zview (env_hash E) (zm s) Ls k")
    case None
    then have "ZrangeHandler_OnPost E s rq rs = returns (s, answer 404 None rs)" for rs
      by (simp add: ZrangeHandler_OnPost_def pv dec decoded_def r respond_answer)
    then show ?thesis unfolding handles_def
      by (intro disjI2 exI [of _ s] exI [of _ R] exI [of _ Ls] exI [of _ 404] exI [of _ None]) (simp add: inv cache_view_def None)
  next
    case (Some cps)
    obtain c ps where cps: "cps = (c, ps)" by fastforce
    let ?b = "enc_zadds (env_json E) (filter (\<lambda>p. lo \<le> score p \<and> score p \<le> hi \<and> c (zvalue p) = Some (score p)) ps)"
    have "ZrangeHandler_OnPost E s rq rs = returns (s, answer 200 (Some ?b) rs)" for rs
      by (simp add: ZrangeHandler_OnPost_def pv dec decoded_def r respond_answer Some cps)
    then show ?thesis unfolding handles_def
      by (intro disjI2 exI [of _ s] exI [of _ R] exI [of _ Ls] exI [of _ 200] exI [of _ "Some ?b"]) (simp add: inv cache_view_def Some cps)
  qed
qed

lemma handles_Zrmv:
  assumes "asks E pages pps rq (CZrmv k v)" and inv: "cache_inv E s R Ls"
  shows "handles E ZrmvHandler_OnGet rq (CZrmv k v) s Ls"
proof -
  have u: "rq_uri rq = ''/zrmv/'' @ k @ CHR ''/'' # v" "CHR ''/'' \<notin> set k" "no_newline (k @ v)" using assms(1) by (simp_all add: asks_def good_key_def)
  note pv = pair_values [OF u, simplified]
  have z: "zm_inv (env_hash E) (env_new E) (zm s) R Ls" using inv by (simp add: cache_inv_def)
  obtain z' where d: "ZsetManager_Del (env_hash E) (zm s) k v = Inr (True, z')" "zm_inv (env_hash E) (env_new E) z' R Ls"
    "zview (env_hash E) z' Ls = zview_step (ZmDel k v) (zview (env_hash E) (zm s) Ls)"
    using ZsetManager_Del_ok [OF z] by blast
  have "ZrmvHandler_OnGet E s rq rs = returns (s\<lparr>zm := z'\<rparr>, answer 200 None rs)" for rs
    by (simp add: ZrmvHandler_OnGet_def pv d(1) respond_answer)
  then show ?thesis unfolding handles_def
    using inv d(2,3) by (intro disjI2 exI [of _ "s\<lparr>zm := z'\<rparr>"] exI [of _ R] exI [of _ Ls] exI [of _ 200] exI [of _ None])
      (simp add: cache_inv_def cache_view_def del: zview_step.simps)
qed

lemma finds_handler:
  assumes sv: "cache_service E pages pps sv" and rq: "asks E pages pps rq r" and inv: "cache_inv E s R Ls"
    and fresh: "env_dbg E \<Longrightarrow> \<not> repeats_score r (cache_view E s Ls)"
  shows "\<exists>f. FindHandler sv (rq_uri rq) = Some (HandleRequest [rq_method rq \<mapsto> f E]) \<and> rq_method rq \<in> set kHandlers \<and> handles E f rq r s Ls"
proof -
  have free: "page_free pages pps (GetUriPath (rq_uri rq))" using rq by (simp add: asks_def)
  note ex = FindHandler_routes(1) [OF sv free] and re = FindHandler_routes(2) [OF sv free]
  show ?thesis
  proof (cases r)
    case CInit
    then show ?thesis using handles_Init [OF inv] ex rq
      by (intro exI [of _ InitQueryHandler_OnGet]) (simp add: asks_def on_get_def kHandlers_def exact_routes_def)
  next
    case (CQuery k)
    then show ?thesis using handles_Query [OF rq [unfolded CQuery] inv] re key_routes(1,2) [of k E] rq
      by (intro exI [of _ QueryKeyHandler_OnGet]) (simp add: asks_def on_get_def kHandlers_def)
  next
    case (CAdd k v)
    then show ?thesis using handles_Add [OF rq [unfolded CAdd] inv] ex rq
      by (intro exI [of _ AddKeyHandler_OnPost]) (simp add: asks_def on_post_def kHandlers_def exact_routes_def)
  next
    case (CDel k)
    then show ?thesis using handles_Del [OF rq [unfolded CDel] inv] re key_routes(3,4) [of k E] rq
      by (intro exI [of _ DelKeyHandler_OnGet]) (simp add: asks_def on_get_def kHandlers_def)
  next
    case (CList ks)
    then show ?thesis using handles_List [OF rq [unfolded CList] inv] ex rq
      by (intro exI [of _ BatchQueryKeyHandler_OnPost]) (simp add: asks_def on_post_def kHandlers_def exact_routes_def)
  next
    case (CBatch kvs)
    then show ?thesis using handles_Batch [OF rq [unfolded CBatch] inv] ex rq
      by (intro exI [of _ BatchAddKeyHandler_OnPost]) (simp add: asks_def on_post_def kHandlers_def exact_routes_def)
  next
    case (CZadd k sc v)
    then show ?thesis using handles_Zadd [OF rq [unfolded CZadd] inv] fresh re key_routes(5,6) [of k E] rq
      by (intro exI [of _ ZaddHandler_OnPost]) (simp add: asks_def on_post_def kHandlers_def)
  next
    case (CZrange k lo hi)
    then show ?thesis using handles_Zrange [OF rq [unfolded CZrange] inv] re key_routes(7,8) [of k E] rq
      by (intro exI [of _ ZrangeHandler_OnPost]) (simp add: asks_def on_post_def kHandlers_def)
  next
    case (CZrmv k v)
    then show ?thesis using handles_Zrmv [OF rq [unfolded CZrmv] inv] re key_routes(9,10) [of "k @ CHR ''/'' # v" E] rq
      by (intro exI [of _ ZrmvHandler_OnGet]) (simp add: asks_def on_get_def kHandlers_def)
  qed
qed

lemma serve_ok:
  assumes sv: "cache_service E pages pps sv" and rq: "asks E pages pps rq r" and inv: "cache_inv E s R Ls"
    and fresh: "env_dbg E \<Longrightarrow> \<not> repeats_score r (cache_view E s Ls)"
  shows "allocates r \<and> FastCall mk sv s rq = fails Bad_alloc \<or>
    (\<exists>ps rs s' R' Ls'. FastCall mk sv s rq = returns (ps, Some rs, s') \<and> cache_inv E s' R' Ls' \<and> ldb s' = ldb s \<and> tasks s' = tasks s @ new_tasks r \<and>
       cache_view E s' Ls' = view_update E r (cache_view E s Ls) \<and>
       (rs_status rs, body_bytes rs) = view_answer E (LocaldbManager_Query (ldb s)) r (cache_view E s Ls) \<and> field rs kContentLength = Some (size_text rs))"
proof -
  obtain f where f: "FindHandler sv (rq_uri rq) = Some (HandleRequest [rq_method rq \<mapsto> f E])" "rq_method rq \<in> set kHandlers" "handles E f rq r s Ls"
    using finds_handler [OF sv rq inv] fresh by blast
  have p: "plain_request rq" "filters sv = []" using rq sv by (simp_all add: asks_def cache_service_def)
  from f(3) [unfolded handles_def] show ?thesis
  proof (elim disjE exE conjE)
    assume "\<forall>rs. f E s rq rs = fails Bad_alloc" "allocates r"
    then show ?thesis using FastCall_fails [OF p(2) f(1,2)] by blast
  next
    fix s' R' Ls' st bo
    assume a: "\<forall>rs. f E s rq rs = returns (s', answer st bo rs)" "cache_inv E s' R' Ls'" "ldb s' = ldb s" "tasks s' = tasks s @ new_tasks r"
      "cache_view E s' Ls' = view_update E r (cache_view E s Ls)" "st \<in> {200, 400, 404}"
      "(st, case bo of None \<Rightarrow> [] | Some b \<Rightarrow> b) = view_answer E (LocaldbManager_Query (ldb s)) r (cache_view E s Ls)"
    have "\<And>rs. f E s rq rs = returns (s', answer st bo rs)" using a(1) by blast
    from FastCall_answer [OF p f(1,2) this a(6), of mk] obtain ps rs where
      "FastCall mk sv s rq = returns (ps, Some rs, s')" "rs_status rs = st" "body_bytes rs = (case bo of None \<Rightarrow> [] | Some b \<Rightarrow> b)"
      "field rs kContentLength = Some (size_text rs)" by blast
    with a show ?thesis
      by (intro disjI2 exI [of _ ps] exI [of _ rs] exI [of _ s'] exI [of _ R'] exI [of _ Ls'] conjI) simp_all
  qed
qed

text \<open>A score that the set of the key has had before stops a build with assertions.\<close>

lemma serve_Zadd_repeated:
  assumes sv: "cache_service E pages pps sv" and rq: "asks E pages pps rq (CZadd k sc v)" and inv: "cache_inv E s R Ls"
    and "env_dbg E" "repeats_score (CZadd k sc v) (cache_view E s Ls)"
  shows "FastCall mk sv s rq = fails Assertion"
proof -
  have "path_value rq (''/zadd/'' @ CHR 0x7B # ''key'' @ ''}$'') ''key'' = Inr (Some k)"
    by (rule key_value) (use rq in \<open>simp_all add: asks_def good_key_def LF_char_def CR_char_def\<close>)
  note pv = this [simplified]
  have "ZsetManager_Add (env_hash E) True (env_new E) (zm s) k sc v = fails Assertion"
    by (rule ZsetManager_Add_repeated [where R = R and Ls = Ls]) (use inv assms(5) in \<open>simp_all add: cache_inv_def cache_view_def\<close>)
  then have f: "ZaddHandler_OnPost E s rq rs = fails Assertion" for rs
    using rq assms(4) by (simp add: ZaddHandler_OnPost_def asks_def pv decoded_def)
  have free: "page_free pages pps (GetUriPath (rq_uri rq))" using rq unfolding asks_def by (elim conjE)
  have "rq_method rq = Post" using rq by (simp add: asks_def)
  moreover have "FindHandler sv (rq_uri rq) = Some (on_post E ZaddHandler_OnPost)"
    by (rule FindHandler_routes(2) [OF sv free]) (use rq key_routes(5,6) [of k E] in \<open>simp_all add: asks_def\<close>)
  ultimately show ?thesis
    using sv by (intro FastCall_fails [where f = "ZaddHandler_OnPost E"] f) (simp_all add: cache_service_def on_post_def kHandlers_def)
qed

subsection \<open>The specification of a run\<close>

text \<open>The cache as a client sees it: a map from keys to values, the sorted sets and what was added to them, whether the database is open and loaded, and the fibers that have
  yet to run.\<close>

record spec_state =
  sp_map :: "string \<rightharpoonup> string"
  sp_sets :: sorted_sets
  sp_added :: "string \<Rightarrow> zadd_request list"
  sp_open :: bool
  sp_ready :: bool
  sp_fibers :: "task list"

definition spec_start :: spec_state where
  "spec_start = \<lparr>sp_map = Map.empty, sp_sets = Map.empty, sp_added = (\<lambda>_. []), sp_open = False, sp_ready = False, sp_fibers = [Task_Init ''/mydata'']\<rparr>"

datatype spec_event = Asked cache_request | Fiber_runs nat

text \<open>The answers a request may get: only the order in which \<open>/zrange\<close> lists members of equal score is left open.\<close>

fun spec_answer :: "'d cache_env \<Rightarrow> spec_state \<Rightarrow> cache_request \<Rightarrow> HttpStatus \<times> string \<Rightarrow> bool" where
  "spec_answer E S CInit a \<longleftrightarrow> a = (if sp_ready S then (200, ''ok'') else (400, []))"
| "spec_answer E S (CQuery k) a \<longleftrightarrow> a = (case sp_map S k of None \<Rightarrow> (404, []) | Some v \<Rightarrow> (200, v))"
| "spec_answer E S (CList ks) a \<longleftrightarrow>
     a = (if found_in (sp_map S) ks = [] then (404, []) else (200, enc_inserts (env_json E) (found_in (sp_map S) ks)))"
| "spec_answer E S (CZrange k lo hi) a \<longleftrightarrow>
     (case sp_sets S k of
        None \<Rightarrow> a = (404, [])
      | Some c \<Rightarrow> \<exists>res. lists_range c (sp_added S k) lo hi res \<and> a = (200, enc_zadds (env_json E) res))"
| "spec_answer E S _ a \<longleftrightarrow> a = (200, [])"

fun spec_update :: "'d cache_env \<Rightarrow> cache_request \<Rightarrow> spec_state \<Rightarrow> spec_state" where
  "spec_update E (CAdd k v) S = S\<lparr>sp_map := (sp_map S)(k \<mapsto> v), sp_fibers := sp_fibers S @ [Task_Add k v]\<rparr>"
| "spec_update E (CDel k) S = S\<lparr>sp_map := (sp_map S)(k := None)\<rparr>"
| "spec_update E (CBatch kvs) S = S\<lparr>sp_map := sp_map S ++ map_of (rev (env_order E kvs)), sp_fibers := sp_fibers S @ [Task_Batch kvs]\<rparr>"
| "spec_update E (CZadd k s v) S = S\<lparr>sp_sets := sets_step (ZmAdd k s v) (sp_sets S), sp_added := note_added (ZmAdd k s v) (sp_added S)\<rparr>"
| "spec_update E (CZrmv k v) S = S\<lparr>sp_sets := sets_step (ZmDel k v) (sp_sets S)\<rparr>"
| "spec_update E _ S = S"

text \<open>Opening the database loads it over what clients have written; the fibers that write to the database leave the cache as it is.\<close>

fun spec_task :: "'d cache_env \<Rightarrow> task \<Rightarrow> spec_state \<Rightarrow> spec_state" where
  "spec_task E (Task_Init path) S =
     (case db_Open (env_db E) (env_disk E) path of
        None \<Rightarrow> S\<lparr>sp_open := False\<rparr>
      | Some db \<Rightarrow> S\<lparr>sp_map := sp_map S ++ db_map (env_db E) (env_disk E), sp_open := True, sp_ready := True\<rparr>)"
| "spec_task E _ S = S"

fun spec_step :: "'d cache_env \<Rightarrow> spec_event \<Rightarrow> spec_state \<Rightarrow> spec_state" where
  "spec_step E (Asked r) S = spec_update E r S"
| "spec_step E (Fiber_runs i) S =
     (if i < length (sp_fibers S) then spec_task E (sp_fibers S ! i) (S\<lparr>sp_fibers := remove_at i (sp_fibers S)\<rparr>) else S)"

text \<open>The faults: a score added again in a build with assertions, and a write to a database that is not open.\<close>

fun spec_fault :: "'d cache_env \<Rightarrow> spec_event \<Rightarrow> spec_state \<Rightarrow> fault option" where
  "spec_fault E (Asked (CZadd k s v)) S = (if env_dbg E \<and> s \<in> score ` set (sp_added S k) then Some Assertion else None)"
| "spec_fault E (Asked r) S = None"
| "spec_fault E (Fiber_runs i) S =
     (if i < length (sp_fibers S) \<and> \<not> sp_open S
      then (case sp_fibers S ! i of Task_Init path \<Rightarrow> None | _ \<Rightarrow> Some Undefined)
      else None)"

fun spec_fails :: "'d cache_env \<Rightarrow> spec_event list \<Rightarrow> spec_state \<Rightarrow> fault option" where
  "spec_fails E [] S = None"
| "spec_fails E (ev # evs) S = (case spec_fault E ev S of Some f \<Rightarrow> Some f | None \<Rightarrow> spec_fails E evs (spec_step E ev S))"

fun spec_answers :: "'d cache_env \<Rightarrow> spec_event list \<Rightarrow> spec_state \<Rightarrow> (HttpStatus \<times> string) list \<Rightarrow> bool" where
  "spec_answers E [] S out \<longleftrightarrow> out = []"
| "spec_answers E (Asked r # evs) S out \<longleftrightarrow>
     (case out of [] \<Rightarrow> False | a # out' \<Rightarrow> spec_answer E S r a \<and> spec_answers E evs (spec_step E (Asked r) S) out')"
| "spec_answers E (Fiber_runs i # evs) S out \<longleftrightarrow> spec_answers E evs (spec_step E (Fiber_runs i) S) out"

fun matches ::
  "'d cache_env \<Rightarrow> (string \<times> 'd cache handler) list \<Rightarrow> (string \<times> 'd cache handler) list \<Rightarrow> event \<Rightarrow> spec_event \<Rightarrow> bool" where
  "matches E pages prefix_pages (Request rq) (Asked r) \<longleftrightarrow> asks E pages prefix_pages rq r"
| "matches E pages prefix_pages (Fiber i) (Fiber_runs j) \<longleftrightarrow> i = j"
| "matches E pages prefix_pages _ _ \<longleftrightarrow> False"

subsection \<open>The server refines it\<close>

definition simulates :: "'d cache_env \<Rightarrow> 'd cache \<Rightarrow> region list \<Rightarrow> addr list list \<Rightarrow> spec_state \<Rightarrow> bool" where
  "simulates E s R Ls S \<longleftrightarrow>
     cache_inv E s R Ls \<and> contents (env_hash E) (kv s) = sp_map S \<and>
     represents (zview (env_hash E) (zm s) Ls) (sp_sets S) (sp_added S) \<and>
     (ldb_db (ldb s) \<noteq> None) = sp_open S \<and> ldb_inited (ldb s) = sp_ready S \<and> tasks s = sp_fibers S"

lemma repeats_score_spec:
  assumes "simulates E s R Ls S"
  shows "spec_fault E (Asked r) S = (if env_dbg E \<and> repeats_score r (cache_view E s Ls) then Some Assertion else None)"
proof -
  have "represents (zview (env_hash E) (zm s) Ls) (sp_sets S) (sp_added S)" using assms by (simp add: simulates_def)
  note represents_repeats [OF this]
  then show ?thesis by (cases r) (simp_all add: cache_view_def del: zm_repeats.simps)
qed

lemma view_answer_spec:
  assumes "simulates E s R Ls S"
  shows "spec_answer E S r (view_answer E (LocaldbManager_Query (ldb s)) r (cache_view E s Ls))"
proof -
  have rep: "represents (zview (env_hash E) (zm s) Ls) (sp_sets S) (sp_added S)" using assms by (simp add: simulates_def)
  show ?thesis
  proof (cases r)
    case (CZrange k lo hi)
    show ?thesis
      using represents_range [OF rep, of k lo hi] by (cases "zview (env_hash E) (zm s) Ls k") (auto simp: CZrange cache_view_def)
  qed (use assms in \<open>simp_all add: simulates_def cache_view_def LocaldbManager_Query_def\<close>)
qed

lemma view_update_spec:
  assumes "simulates E s R Ls S" "cache_inv E s' R' Ls'" "ldb s' = ldb s" "tasks s' = tasks s @ new_tasks r"
    "cache_view E s' Ls' = view_update E r (cache_view E s Ls)"
  shows "simulates E s' R' Ls' (spec_update E r S)"
proof -
  have rep: "represents (zview (env_hash E) (zm s) Ls) (sp_sets S) (sp_added S)" using assms(1) by (simp add: simulates_def)
  show ?thesis
    using assms represents_step [OF rep, of "ZmAdd k sc v" for k sc v] represents_step [OF rep, of "ZmDel k v" for k v]
    by (cases r) (simp_all add: simulates_def cache_view_def del: zview_step.simps sets_step.simps)
qed

lemma serve_request:
  assumes sv: "cache_service E pages pps sv" and rq: "asks E pages pps rq r" and sim: "simulates E s R Ls S"
  obtains f where "spec_fault E (Asked r) S = Some f" "FastCall mk sv s rq = fails f"
  | "spec_fault E (Asked r) S = None" "FastCall mk sv s rq = fails Bad_alloc"
  | ps rs s' R' Ls' where "spec_fault E (Asked r) S = None" "FastCall mk sv s rq = returns (ps, Some rs, s')"
      "spec_answer E S r (rs_status rs, body_bytes rs)" "simulates E s' R' Ls' (spec_update E r S)"
proof (cases "env_dbg E \<and> repeats_score r (cache_view E s Ls)")
  case True
  then obtain k sc v where r: "r = CZadd k sc v" by (cases r) (auto simp: cache_view_def)
  have "FastCall mk sv s rq = fails Assertion"
    by (rule serve_Zadd_repeated [OF sv rq [unfolded r], of s R Ls]) (use sim True r in \<open>simp_all add: simulates_def\<close>)
  then show thesis using that(1) repeats_score_spec [OF sim, of r] True by simp
next
  case False
  have inv: "cache_inv E s R Ls" using sim by (simp add: simulates_def)
  have none: "spec_fault E (Asked r) S = None" using repeats_score_spec [OF sim, of r] False by simp
  have "allocates r \<and> FastCall mk sv s rq = fails Bad_alloc \<or>
    (\<exists>ps rs s' R' Ls'. FastCall mk sv s rq = returns (ps, Some rs, s') \<and> cache_inv E s' R' Ls' \<and> ldb s' = ldb s \<and> tasks s' = tasks s @ new_tasks r \<and>
       cache_view E s' Ls' = view_update E r (cache_view E s Ls) \<and>
       (rs_status rs, body_bytes rs) = view_answer E (LocaldbManager_Query (ldb s)) r (cache_view E s Ls) \<and> field rs kContentLength = Some (size_text rs))"
    by (rule serve_ok [OF sv rq inv]) (use False in blast)
  then show thesis
  proof (elim disjE exE conjE)
    fix ps rs s' R' Ls'
    assume a: "FastCall mk sv s rq = returns (ps, Some rs, s')" "cache_inv E s' R' Ls'" "ldb s' = ldb s" "tasks s' = tasks s @ new_tasks r"
      "cache_view E s' Ls' = view_update E r (cache_view E s Ls)"
      "(rs_status rs, body_bytes rs) = view_answer E (LocaldbManager_Query (ldb s)) r (cache_view E s Ls)"
    show thesis
      by (rule that(3) [OF none a(1) _ view_update_spec [OF sim a(2-5)]]) (simp only: a(6) view_answer_spec [OF sim])
  qed (rule that(2) [OF none])
qed

lemma run_fiber:
  assumes db: "leveldb_ok (env_db E)" and sim: "simulates E s R Ls S" and i: "i < length (tasks s)"
  obtains f where "spec_fault E (Fiber_runs i) S = Some f" "run_task E (tasks s ! i) (s\<lparr>tasks := remove_at i (tasks s)\<rparr>) = Inl f"
  | s' where "spec_fault E (Fiber_runs i) S = None" "run_task E (tasks s ! i) (s\<lparr>tasks := remove_at i (tasks s)\<rparr>) = Inr s'"
      "simulates E s' R Ls (spec_step E (Fiber_runs i) S)"
proof (cases "tasks s ! i")
  case (Task_Init path)
  have t: "tasks s = sp_fibers S" and ok: "kv_ok (kv s)" using sim by (simp_all add: simulates_def cache_inv_def)
  have none: "spec_fault E (Fiber_runs i) S = None" using Task_Init t by simp
  show thesis
  proof (cases "db_Open (env_db E) (env_disk E) path")
    case None
    then show thesis using that(2) none Task_Init sim i t
      by (simp add: run_task_def LocaldbManager_Init_def simulates_def cache_inv_def)
  next
    case (Some d)
    obtain m where "LocaldbManager_Init (env_db E) (env_hash E) (env_disk E) path (ldb s) (kv s) =
        Inr (True, (ldb s)\<lparr>ldb_path := path, ldb_db := Some d, ldb_inited := True\<rparr>, m)"
      "kv_ok m" "contents (env_hash E) m = contents (env_hash E) (kv s) ++ db_map (env_db E) (env_disk E)"
      by (rule LocaldbManager_Init_ok [OF db ok Some])
    then show thesis using that(2) none Task_Init sim i t Some by (simp add: run_task_def simulates_def cache_inv_def)
  qed
next
  case (Task_Add k v)
  then show thesis using that sim i
    by (cases "ldb_db (ldb s)") (auto simp: run_task_def LocaldbManager_Add_def simulates_def cache_inv_def)
next
  case (Task_Batch kvs)
  then show thesis using that sim i
    by (cases "ldb_db (ldb s)") (auto simp: run_task_def LocaldbManager_Batch_def simulates_def cache_inv_def)
qed

lemma serve_all_refines:
  assumes sv: "cache_service E pages pps sv" and db: "leveldb_ok (env_db E)"
    and "list_all2 (matches E pages pps) evs sevs" "simulates E s R Ls S"
  shows "serve_all E mk sv s evs = fails Bad_alloc \<or>
    (case spec_fails E sevs S of
       Some f \<Rightarrow> serve_all E mk sv s evs = fails f
     | None \<Rightarrow> \<exists>s' out. serve_all E mk sv s evs = returns (s', map Some out) \<and>
         spec_answers E sevs S (map (\<lambda>r. (rs_status r, body_bytes r)) out))"
  using assms(3,4)
proof (induction evs sevs arbitrary: s R Ls S rule: list_all2_induct)
  case (Cons ev evs sev sevs)
  show ?case
  proof (cases ev)
    case (Request rq)
    then obtain r where sev: "sev = Asked r" and rq: "asks E pages pps rq r" using Cons.hyps(1) by (cases sev) auto
    show ?thesis
    proof (rule serve_request [OF sv rq Cons.prems, of mk])
      fix ps rs s' R' Ls'
      assume a: "spec_fault E (Asked r) S = None" "FastCall mk sv s rq = returns (ps, Some rs, s')"
        "spec_answer E S r (rs_status rs, body_bytes rs)" "simulates E s' R' Ls' (spec_update E r S)"
      have f: "spec_fails E (sev # sevs) S = spec_fails E sevs (spec_update E r S)" using a(1) sev by simp
      have ok: "\<exists>s'' out. serve_all E mk sv s (ev # evs) = returns (s'', map Some out) \<and>
          spec_answers E (sev # sevs) S (map (\<lambda>r. (rs_status r, body_bytes r)) out)"
        if "serve_all E mk sv s' evs = returns (s1, map Some out)" "spec_answers E sevs (spec_update E r S) (map (\<lambda>r. (rs_status r, body_bytes r)) out)" for s1 out
        using that a(2,3) by (intro exI [of _ s1] exI [of _ "rs # out"]) (simp add: Request sev)
      have bad: "serve_all E mk sv s (ev # evs) = fails e" if "serve_all E mk sv s' evs = fails e" for e
        using that a(2) by (simp add: Request)
      show ?thesis using Cons.IH [OF a(4)] ok bad unfolding f by (auto split: option.splits)
    qed (simp_all add: Request sev)
  next
    case (Fiber i)
    then have sev: "sev = Fiber_runs i" using Cons.hyps(1) by (cases sev) auto
    have t: "tasks s = sp_fibers S" using Cons.prems by (simp add: simulates_def)
    show ?thesis
    proof (cases "i < length (tasks s)")
      case True
      show ?thesis
      proof (rule run_fiber [OF db Cons.prems True])
        fix s'
        assume a: "spec_fault E (Fiber_runs i) S = None" "run_task E (tasks s ! i) (s\<lparr>tasks := remove_at i (tasks s)\<rparr>) = Inr s'"
          "simulates E s' R Ls (spec_step E (Fiber_runs i) S)"
        have f: "spec_fails E (sev # sevs) S = spec_fails E sevs (spec_step E (Fiber_runs i) S)"
          "serve_all E mk sv s (ev # evs) = serve_all E mk sv s' evs"
          "spec_answers E (sev # sevs) S = spec_answers E sevs (spec_step E (Fiber_runs i) S)"
          using a(1,2) sev True Fiber by (simp_all add: fun_eq_iff)
        show ?thesis using Cons.IH [OF a(3)] unfolding f .
      qed (use True in \<open>simp add: Fiber sev\<close>)
    next
      case False
      have f: "spec_fails E (sev # sevs) S = spec_fails E sevs S" "serve_all E mk sv s (ev # evs) = serve_all E mk sv s evs"
        "spec_answers E (sev # sevs) S = spec_answers E sevs S"
        using sev False Fiber t by (simp_all add: fun_eq_iff)
      show ?thesis using Cons.IH [OF Cons.prems] unfolding f .
    qed
  qed
qed simp

lemma Entry_inv:
  assumes "Entry E pages pps fs = Inr (s, sv)" "arena_inv (env_new E) (Arena_ctor, fs) R"
  shows "cache_inv E s R []" "cache_view E s [] = (Map.empty, Map.empty)"
proof -
  obtain m where m: "KvManager_Init = Inr (True, m)" "kv_ok m" "contents (env_hash E) m = Map.empty" by (rule KvManager_Init_ok)
  obtain z where z: "ZsetManager_Init fs = Inr (True, z)" "zm_inv (env_hash E) (env_new E) z R []" "zview (env_hash E) z [] = Map.empty"
    by (rule ZsetManager_Init_ok [OF assms(2)])
  have "kv s = m" using trans [OF m(1) [symmetric] Entry_ok(2) [OF assms(1)]] by simp
  moreover have "zm s = z" using trans [OF z(1) [symmetric] Entry_ok(3) [OF assms(1)]] by simp
  ultimately show "cache_inv E s R []" "cache_view E s [] = (Map.empty, Map.empty)" using m z by (simp_all add: cache_inv_def cache_view_def)
qed

subsection \<open>A sample environment, for the witnesses\<close>

definition list_db :: "(string \<times> string) list leveldb" where
  "list_db =
     \<lparr>db_Open = (\<lambda>d path. Some d), db_entries = (\<lambda>d. fold (\<lambda>(k, v) r. (k, v) # filter (\<lambda>e. fst e \<noteq> k) r) d []),
      db_Put = (\<lambda>d k v. (True, d @ [(k, v)])), db_Write = (\<lambda>d kvs. (True, d @ kvs))\<rparr>"

lemma list_db_ok: "leveldb_ok list_db"
proof -
  define ins :: "string \<times> string \<Rightarrow> (string \<times> string) list \<Rightarrow> (string \<times> string) list"
    where "ins = (\<lambda>(k, v) r. (k, v) # filter (\<lambda>e. fst e \<noteq> k) r)"
  have i: "map_of (ins kv r) = (map_of r)(fst kv \<mapsto> snd kv)" for kv r
  proof -
    have "map_of (filter (\<lambda>e. fst e \<noteq> k) r) x = (if x = k then None else map_of r x)" for k x
      by (induction r) auto
    then show ?thesis by (cases kv) (simp add: ins_def fun_eq_iff)
  qed
  have "distinct (map fst r) \<Longrightarrow> distinct (map fst (ins kv r))" for kv r
    by (cases kv) (auto simp: ins_def distinct_map_filter)
  then have d: "distinct (map fst r) \<Longrightarrow> distinct (map fst (fold ins kvs r))" for kvs r
    by (induction kvs arbitrary: r) simp_all
  have m: "map_of (fold ins kvs r) = map_of r ++ map_of (rev kvs)" for kvs r
    by (induction kvs arbitrary: r) (auto simp: i map_add_def fun_eq_iff split: option.splits)
  show ?thesis
    using d [of "[]"] by (simp add: leveldb_ok_def list_db_def db_map_def ins_def [symmetric] i m map_add_def fun_eq_iff split: option.splits)
qed

definition sample_json :: json_codec where
  "sample_json =
     \<lparr>dec_insert = (\<lambda>b. Some (''tom'', b)), dec_keys = (\<lambda>b. Some [b]), dec_inserts = (\<lambda>b. Some [(''tom'', b), (''ann'', b)]),
      dec_zadd = (\<lambda>b. Some \<lparr>score = 1, zvalue = b\<rparr>), dec_zrange = (\<lambda>b. Some (0, 9)),
      enc_inserts = (\<lambda>rs. concat (map snd rs)), enc_zadds = (\<lambda>zs. concat (map zvalue zs))\<rparr>"

definition sample_env :: "(string \<times> string) list \<Rightarrow> (string \<times> string) list cache_env" where
  "sample_env disk =
     \<lparr>env_hash = (\<lambda>_. 0), env_dbg = True, env_new = bump_new, env_json = sample_json, env_db = list_db, env_disk = disk, env_order = rev\<rparr>"

lemma Entry_returns:
  obtains s sv where "Entry E [] [] fs = Inr (s, sv)"
proof -
  obtain m where m: "KvManager_Init = Inr (True, m)" by (rule KvManager_Init_ok)
  obtain z where z: "ZsetManager_Init fs = Inr (True, z)"
    by (simp add: ZsetManager_Init_def HashKv_Init_def)
  show thesis by (rule that) (simp add: Entry_def m z register_handlers_ok Server_Start_def)
qed

lemma sample_request:
  obtains rq where "plain_request rq" "rq_method rq = m" "rq_uri rq = u" "body_text rq = b"
proof -
  obtain rq0 where r: "plain_request rq0" using HttpRequest_new by blast
  let ?rq = "(set_body_str b rq0)\<lparr>rq_method := m, rq_uri := u\<rparr>"
  show thesis
    by (rule that [of ?rq]) (use r in \<open>simp_all add: plain_request_def room_for_def field_def set_body_str_def body_text_def message_body_def\<close>)
qed

subsection \<open>Properties\<close>

text \<open>Claim C1. The cache server as a whole, after \<open>Entry\<close> has started it. Let it serve any sequence of well-formed requests (to see whether it is ready, to query, add and
  delete keys singly or in batches, and to add to, read and remove from sorted sets), one after the other, and let the fibers that open the database and write to it run between them
  in any order. Every request is answered, status and body, as the specification allows: from one map from keys to values, over which the database is loaded when the fiber that opens it has run,
  and one from keys to sorted sets, whatever the hash function, block sizes, framework pages and the order in which the additions of a batch take effect. The server does not get to the end of
  the sequence in three cases: memory runs out; a build with assertions stops at a score added to a set again; a fiber that writes to the database runs while it is not open. In
  the latter two it fails exactly when and how the specification says.\<close>

theorem Server_refines:
  assumes "Entry E pages prefix_pages fs = Inr (s, sv)" and "arena_inv (env_new E) (Arena_ctor, fs) R" and "leveldb_ok (env_db E)"
    and "list_all2 (matches E pages prefix_pages) evs sevs"
  shows "serve_all E mk sv s evs = fails Bad_alloc \<or>
    (case spec_fails E sevs spec_start of
       Some f \<Rightarrow> serve_all E mk sv s evs = fails f
     | None \<Rightarrow> \<exists>s' out. serve_all E mk sv s evs = returns (s', map Some out) \<and>
         spec_answers E sevs spec_start (map (\<lambda>r. (rs_status r, body_bytes r)) out))"
proof -
  have "simulates E s R [] spec_start"
    using Entry_inv [OF assms(1,2)] Entry_ok(4,5) [OF assms(1)] by (simp add: simulates_def spec_start_def cache_view_def LocaldbManager_def)
  then show ?thesis by (rule serve_all_refines [OF Entry_ok(1) [OF assms(1)] assms(3,4)])
qed

theorem Server_refines_witness:
  "\<exists>s sv rq1 rq2 rq3. Entry (sample_env [(''bob'', ''red'')]) [] [] [] = Inr (s, sv) \<and>
     rq_uri rq1 = ''/add'' \<and> body_text rq1 = ''blue'' \<and> rq_uri rq2 = ''/query/tom'' \<and> rq_uri rq3 = ''/query/bob'' \<and>
     (let evs = [Request rq3, Fiber 0, Request rq1, Request rq2, Fiber 0, Request rq3] in
      serve_all (sample_env [(''bob'', ''red'')]) (\<lambda>_. None) sv s evs = fails Bad_alloc \<or>
      (\<exists>s' out. serve_all (sample_env [(''bob'', ''red'')]) (\<lambda>_. None) sv s evs = returns (s', map Some out) \<and>
         map (\<lambda>r. (rs_status r, body_bytes r)) out = [(404, []), (200, []), (200, ''blue''), (200, ''red'')]))"
proof -
  let ?E = "sample_env [(''bob'', ''red'')]"
  obtain s sv where e: "Entry ?E [] [] [] = Inr (s, sv)" by (rule Entry_returns)
  obtain rq1 where r1: "plain_request rq1" "rq_method rq1 = Post" "rq_uri rq1 = ''/add''" "body_text rq1 = ''blue''" by (rule sample_request)
  obtain rq2 where r2: "plain_request rq2" "rq_method rq2 = Get" "rq_uri rq2 = ''/query/'' @ ''tom''" by (rule sample_request)
  obtain rq3 where r3: "plain_request rq3" "rq_method rq3 = Get" "rq_uri rq3 = ''/query/'' @ ''bob''" by (rule sample_request)
  let ?sevs = "[Asked (CQuery ''bob''), Fiber_runs 0, Asked (CAdd ''tom'' ''blue''), Asked (CQuery ''tom''), Fiber_runs 0, Asked (CQuery ''bob'')]"
  have a: "list_all2 (matches ?E [] []) [Request rq3, Fiber 0, Request rq1, Request rq2, Fiber 0, Request rq3] ?sevs"
    using r1 r2 r3 by (simp add: asks_def page_free_def GetUriPath_takeWhile sample_env_def sample_json_def good_key_def no_newline_def LF_char_def CR_char_def)
  have n: "arena_inv (env_new ?E) (Arena_ctor, []) []" by (simp add: sample_env_def arena_inv_empty)
  have db: "leveldb_ok (env_db ?E)" by (simp add: sample_env_def list_db_ok)
  have env: "db_Open (env_db ?E) (env_disk ?E) path = Some [(''bob'', ''red'')]" "db_map (env_db ?E) (env_disk ?E) = [''bob'' \<mapsto> ''red'']" for path
    by (simp_all add: sample_env_def list_db_def db_map_def)
  have ok: "spec_fails ?E ?sevs spec_start = None" by (simp add: spec_start_def env remove_at_def)
  have ans: "out = [(404, []), (200, []), (200, ''blue''), (200, ''red'')]" if "spec_answers ?E ?sevs spec_start out" for out
    using that by (simp add: spec_start_def env remove_at_def split: list.splits)
  note w = Server_refines [OF e n db a, of "\<lambda>_. None", unfolded ok option.case]
  show ?thesis unfolding Let_def
    by (rule exI [of _ s], rule exI [of _ sv], rule exI [of _ rq1], rule exI [of _ rq2], rule exI [of _ rq3], intro conjI)
      (use e r1 r2 r3 w ans in \<open>auto simp only: append.simps\<close>)
qed

text \<open>Claim C23. When the fiber that opens the database has run, the cache holds everything the database holds; for a key that a client
  has already written, the older value from the database replaces the client's.\<close>

theorem Init_loads_database:
  assumes "leveldb_ok (env_db E)" "cache_inv E s R Ls" "db_Open (env_db E) (env_disk E) path = Some db"
  shows "\<exists>s'. run_task E (Task_Init path) s = Inr s' \<and> cache_inv E s' R Ls \<and> ldb_inited (ldb s') \<and> ldb_db (ldb s') = Some db \<and>
    contents (env_hash E) (kv s') = contents (env_hash E) (kv s) ++ db_map (env_db E) (env_disk E)"
proof -
  have ok: "kv_ok (kv s)" using assms(2) by (simp add: cache_inv_def)
  obtain m where "LocaldbManager_Init (env_db E) (env_hash E) (env_disk E) path (ldb s) (kv s) =
      Inr (True, (ldb s)\<lparr>ldb_path := path, ldb_db := Some db, ldb_inited := True\<rparr>, m)"
    "kv_ok m" "contents (env_hash E) m = contents (env_hash E) (kv s) ++ db_map (env_db E) (env_disk E)"
    by (rule LocaldbManager_Init_ok [OF assms(1) ok assms(3)])
  then show ?thesis using assms(2) by (simp add: run_task_def cache_inv_def)
qed

theorem Init_loads_database_witness:
  "\<exists>s sv s1. Entry (sample_env [(''tom'', ''old'')]) [] [] [] = Inr (s, sv) \<and>
     run_task (sample_env [(''tom'', ''old'')]) (Task_Init ''/mydata'') s = Inr s1 \<and> contents (\<lambda>_. 0) (kv s1) ''tom'' = Some ''old''"
proof -
  let ?E = "sample_env [(''tom'', ''old'')]"
  obtain s sv where e: "Entry ?E [] [] [] = Inr (s, sv)" by (rule Entry_returns)
  have n: "arena_inv (env_new ?E) (Arena_ctor, []) []" by (simp add: sample_env_def arena_inv_empty)
  have "leveldb_ok (env_db ?E)" "db_Open (env_db ?E) (env_disk ?E) ''/mydata'' = Some [(''tom'', ''old'')]"
    by (simp_all add: sample_env_def list_db_ok) (simp add: list_db_def)
  from Init_loads_database [OF this(1) Entry_inv(1) [OF e n] this(2)] e show ?thesis
    by (auto simp: sample_env_def list_db_def db_map_def map_add_def)
qed

text \<open>Claim C24. Deleting a key is not durable: the request to delete it is answered with 200 and the key is gone from the cache, but the database keeps
  it, and a server started on that database serves the deleted value again.\<close>

theorem Del_not_durable:
  assumes "leveldb_ok (env_db E)" "cache_service E pages prefix_pages sv" "cache_inv E s R Ls"
    and "ldb_db (ldb s) = Some db" "db_map (env_db E) db k = Some v" "asks E pages prefix_pages rq (CDel k)"
    and "Entry (E\<lparr>env_disk := db\<rparr>) pages prefix_pages fs = Inr (s0, sv0)" "arena_inv (env_new E) (Arena_ctor, fs) R0"
    and "db_Open (env_db E) db ''/mydata'' = Some db'"
  shows "(\<exists>ps rs s'. FastCall mk sv s rq = returns (ps, Some rs, s') \<and> rs_status rs = 200 \<and>
      contents (env_hash E) (kv s') k = None \<and> ldb_db (ldb s') = Some db \<and> tasks s' = tasks s) \<and>
    (\<exists>s1. run_task (E\<lparr>env_disk := db\<rparr>) (Task_Init ''/mydata'') s0 = Inr s1 \<and> contents (env_hash E) (kv s1) k = Some v)"
proof
  from serve_ok [OF assms(2,6,3), of mk] assms(4)
  show "\<exists>ps rs s'. FastCall mk sv s rq = returns (ps, Some rs, s') \<and> rs_status rs = 200 \<and>
      contents (env_hash E) (kv s') k = None \<and> ldb_db (ldb s') = Some db \<and> tasks s' = tasks s"
    by (auto simp: allocates_def cache_view_def)
  let ?E = "E\<lparr>env_disk := db\<rparr>"
  have ok0: "kv_ok (kv s0)" using Entry_inv(1) [OF assms(7), of R0] assms(8) by (simp add: cache_inv_def)
  obtain m where "LocaldbManager_Init (env_db E) (env_hash E) db ''/mydata'' (ldb s0) (kv s0) =
      Inr (True, (ldb s0)\<lparr>ldb_path := ''/mydata'', ldb_db := Some db', ldb_inited := True\<rparr>, m)"
    "contents (env_hash E) m = contents (env_hash E) (kv s0) ++ db_map (env_db E) db"
    by (rule LocaldbManager_Init_ok [OF assms(1) ok0 assms(9)])
  then show "\<exists>s1. run_task ?E (Task_Init ''/mydata'') s0 = Inr s1 \<and> contents (env_hash E) (kv s1) k = Some v"
    using assms(5) by (simp add: run_task_def map_add_def)
qed

theorem Del_not_durable_witness:
  "\<exists>s sv rq s1 rs s2 sv2 s3. Entry (sample_env [(''tom'', ''old'')]) [] [] [] = Inr (s, sv) \<and> rq_uri rq = ''/del/tom'' \<and>
     run_task (sample_env [(''tom'', ''old'')]) (Task_Init ''/mydata'') s = Inr s1 \<and>
     (\<exists>ps s1'. FastCall (\<lambda>_. None) sv s1 rq = returns (ps, Some rs, s1') \<and> rs_status rs = 200 \<and> contents (\<lambda>_. 0) (kv s1') ''tom'' = None) \<and>
     Entry (sample_env [(''tom'', ''old'')]) [] [] [] = Inr (s2, sv2) \<and>
     run_task (sample_env [(''tom'', ''old'')]) (Task_Init ''/mydata'') s2 = Inr s3 \<and> contents (\<lambda>_. 0) (kv s3) ''tom'' = Some ''old''"
proof -
  let ?d = "[(''tom'', ''old'')]"
  let ?E = "sample_env ?d"
  obtain s sv where e: "Entry ?E [] [] [] = Inr (s, sv)" by (rule Entry_returns)
  have n: "arena_inv (env_new ?E) (Arena_ctor, []) []" by (simp add: sample_env_def arena_inv_empty)
  have db: "leveldb_ok (env_db ?E)" "db_Open (env_db ?E) ?d ''/mydata'' = Some ?d" "db_map (env_db ?E) ?d ''tom'' = Some ''old''"
    by (simp_all add: sample_env_def list_db_ok) (simp_all add: list_db_def db_map_def)
  have u: "?E\<lparr>env_disk := ?d\<rparr> = ?E" "env_hash ?E = (\<lambda>_. 0)" by (simp_all add: sample_env_def)
  have ok: "kv_ok (kv s)" using Entry_inv(1) [OF e n] by (simp add: cache_inv_def)
  obtain m where i: "LocaldbManager_Init (env_db ?E) (env_hash ?E) ?d ''/mydata'' (ldb s) (kv s) =
      Inr (True, (ldb s)\<lparr>ldb_path := ''/mydata'', ldb_db := Some ?d, ldb_inited := True\<rparr>, m)" "kv_ok m"
    by (rule LocaldbManager_Init_ok [OF db(1) ok db(2)])
  let ?s1 = "s\<lparr>ldb := (ldb s)\<lparr>ldb_path := ''/mydata'', ldb_db := Some ?d, ldb_inited := True\<rparr>, kv := m\<rparr>"
  have r: "run_task ?E (Task_Init ''/mydata'') s = Inr ?s1" using i(1) by (simp add: run_task_def) (simp add: sample_env_def)
  have inv: "cache_inv ?E ?s1 [] []" using Entry_inv(1) [OF e n] i(2) by (simp add: cache_inv_def)
  obtain rq where rq: "plain_request rq" "rq_method rq = Get" "rq_uri rq = ''/del/'' @ ''tom''" by (rule sample_request)
  have a: "asks ?E [] [] rq (CDel ''tom'')"
    using rq by (simp add: asks_def page_free_def good_key_def no_newline_def LF_char_def CR_char_def)
  have "ldb_db (ldb ?s1) = Some ?d" by simp
  from Del_not_durable [OF db(1) Entry_ok(1) [OF e] inv this db(3) a, unfolded u, OF e n db(2), of "\<lambda>_. None"]
  show ?thesis using e r rq(3) by auto
qed

text \<open>Claim C25. A client can crash the server while it starts: an addition that arrives before the fiber that opens the database has run is accepted,
  and the fiber it starts then uses a database pointer that was never set.\<close>

theorem Add_before_open_crashes:
  assumes "Entry E pages prefix_pages fs = Inr (s, sv)" "arena_inv (env_new E) (Arena_ctor, fs) R" "asks E pages prefix_pages rq (CAdd k v)"
  shows "\<exists>ps rs s'. FastCall mk sv s rq = returns (ps, Some rs, s') \<and> rs_status rs = 200 \<and>
    tasks s' = [Task_Init ''/mydata'', Task_Add k v] \<and> run_task E (Task_Add k v) s' = Inl Undefined"
proof -
  from serve_ok [OF Entry_ok(1) [OF assms(1)] assms(3) Entry_inv(1) [OF assms(1,2)], of mk]
  obtain ps rs s' where r: "FastCall mk sv s rq = returns (ps, Some rs, s')" "rs_status rs = 200" "ldb s' = ldb s" "tasks s' = tasks s @ [Task_Add k v]"
    by (auto simp: allocates_def)
  have "run_task E (Task_Add k v) s' = Inl Undefined"
    using r(3) Entry_ok(4) [OF assms(1)] by (simp add: run_task_def LocaldbManager_Add_def LocaldbManager_def)
  then show ?thesis using r Entry_ok(5) [OF assms(1)] by auto
qed

theorem Add_before_open_crashes_witness:
  "\<exists>s sv rq ps rs s'. Entry (sample_env []) [] [] [] = Inr (s, sv) \<and> rq_uri rq = ''/add'' \<and>
     FastCall (\<lambda>_. None) sv s rq = returns (ps, Some rs, s') \<and> run_task (sample_env []) (Task_Add ''tom'' ''blue'') s' = Inl Undefined"
proof -
  obtain s sv where e: "Entry (sample_env []) [] [] [] = Inr (s, sv)" by (rule Entry_returns)
  have n: "arena_inv (env_new (sample_env [])) (Arena_ctor, []) []" by (simp add: sample_env_def arena_inv_empty)
  obtain rq where rq: "plain_request rq" "rq_method rq = Post" "rq_uri rq = ''/add''" "body_text rq = ''blue''" by (rule sample_request)
  have "asks (sample_env []) [] [] rq (CAdd ''tom'' ''blue'')"
    using rq by (simp add: asks_def page_free_def GetUriPath_takeWhile sample_env_def sample_json_def)
  from Add_before_open_crashes [OF e n this, of "\<lambda>_. None"] e rq(3) show ?thesis by blast
qed

text \<open>Claim C22. A batch reaches cache and database: when the request has been answered and the fiber it leaves behind has run on an open database that accepts the write, each key of
  the batch has in the cache the value that was added last in the order in which the additions took effect, and in the database the one that comes last in the request. These agree
  whatever that order was if no key occurs twice, and need not otherwise.\<close>

theorem Batch_write_through:
  assumes "leveldb_ok (env_db E)" "cache_service E pages prefix_pages sv" "cache_inv E s R Ls" "ldb_db (ldb s) = Some db"
    and "asks E pages prefix_pages rq (CBatch kvs)" "mset (env_order E kvs) = mset kvs" "db_Write (env_db E) db kvs = (True, db')" "k \<in> fst ` set kvs"
  shows "\<exists>rs s'. serve_all E mk sv s [Request rq, Fiber (length (tasks s))] = returns (s', [Some rs]) \<and> rs_status rs = 200 \<and> tasks s' = tasks s \<and>
    contents (env_hash E) (kv s') k = map_of (rev (env_order E kvs)) k \<and>
    ldb_db (ldb s') = Some db' \<and> db_map (env_db E) db' k = map_of (rev kvs) k \<and>
    (distinct (map fst kvs) \<longrightarrow> contents (env_hash E) (kv s') k = db_map (env_db E) db' k)"
proof -
  from serve_ok [OF assms(2,5,3), of mk] obtain ps rs s1 Ls1 where
    r: "FastCall mk sv s rq = returns (ps, Some rs, s1)" "ldb s1 = ldb s" "tasks s1 = tasks s @ [Task_Batch kvs]" "rs_status rs = 200"
      "cache_view E s1 Ls1 = view_update E (CBatch kvs) (cache_view E s Ls)"
    by (auto simp: allocates_def simp del: view_update.simps)
  have set_eq: "set (env_order E kvs) = set kvs" using assms(6) by (metis set_mset_mset)
  let ?s' = "s1\<lparr>tasks := tasks s, ldb := (ldb s)\<lparr>ldb_db := Some db'\<rparr>\<rparr>"
  have t: "serve_all E mk sv s [Request rq, Fiber (length (tasks s))] = returns (?s', [Some rs])"
    using assms(4,7) by (simp add: r(1-3) remove_at_def run_task_def LocaldbManager_Batch_def)
  have hit: "k \<in> dom (map_of (rev (env_order E kvs)))" "k \<in> dom (map_of (rev kvs))"
    using assms(8) set_eq by (simp_all add: dom_map_of_conv_image_fst)
  then have c: "contents (env_hash E) (kv ?s') k = map_of (rev (env_order E kvs)) k"
    using r(5) by (auto simp: cache_view_def map_add_def)
  have d: "db_map (env_db E) db' k = map_of (rev kvs) k"
    using assms(1,7) hit(2) by (auto simp: leveldb_ok_def map_add_def)
  have "map_of (rev (env_order E kvs)) = map_of (rev kvs)" if "distinct (map fst kvs)"
  proof -
    have "distinct (map fst (env_order E kvs))"
      using that assms(6) by (metis mset_map distinct_count_atmost_1 set_mset_mset)
    then show ?thesis using that set_eq map_of_inject_set [of "rev (env_order E kvs)" "rev kvs"] by (simp flip: rev_map)
  qed
  then show ?thesis using t c d r(4) by (intro exI [of _ rs] exI [of _ ?s']) simp
qed

theorem Batch_write_through_witness:
  "\<exists>s rq s' rs sv db'. rq_uri rq = ''/batch'' \<and>
     serve_all (sample_env []) (\<lambda>_. None) sv s [Request rq, Fiber (length (tasks s))] = returns (s', [Some rs]) \<and>
     contents (\<lambda>_. 0) (kv s') ''ann'' = Some ''blue'' \<and> ldb_db (ldb s') = Some db' \<and> db_map list_db db' ''ann'' = Some ''blue''"
proof -
  let ?E = "sample_env []" and ?kvs = "[(''tom'', ''blue''), (''ann'', ''blue'')]"
  obtain s sv where e: "Entry ?E [] [] [] = Inr (s, sv)" by (rule Entry_returns)
  have n: "arena_inv (env_new ?E) (Arena_ctor, []) []" by (simp add: sample_env_def arena_inv_empty)
  let ?s = "s\<lparr>ldb := (ldb s)\<lparr>ldb_db := Some []\<rparr>\<rparr>"
  have inv: "cache_inv ?E ?s [] []" using Entry_inv(1) [OF e n] by (simp add: cache_inv_def)
  have db: "leveldb_ok (env_db ?E)" "ldb_db (ldb ?s) = Some []" "mset (env_order ?E ?kvs) = mset ?kvs" "''ann'' \<in> fst ` set ?kvs"
    "db_Write (env_db ?E) [] ?kvs = (True, ?kvs)"
    by (simp_all add: sample_env_def list_db_ok) (simp add: list_db_def)
  obtain rq where rq: "plain_request rq" "rq_method rq = Post" "rq_uri rq = ''/batch''" "body_text rq = ''blue''" by (rule sample_request)
  have a: "asks ?E [] [] rq (CBatch ?kvs)"
    using rq by (simp add: asks_def page_free_def GetUriPath_takeWhile sample_env_def sample_json_def)
  have h: "env_hash ?E = (\<lambda>_. 0)" "env_db ?E = list_db" "env_order ?E = rev" by (simp_all add: sample_env_def)
  obtain rs s' where w: "serve_all ?E (\<lambda>_. None) sv ?s [Request rq, Fiber (length (tasks ?s))] = returns (s', [Some rs])"
    "contents (env_hash ?E) (kv s') ''ann'' = map_of (rev (env_order ?E ?kvs)) ''ann''" "ldb_db (ldb s') = Some ?kvs"
    "db_map (env_db ?E) ?kvs ''ann'' = map_of (rev ?kvs) ''ann''"
    using Batch_write_through [OF db(1) Entry_ok(1) [OF e] inv db(2) a db(3,5,4), of "\<lambda>_. None"] by blast
  show ?thesis
    by (rule exI [of _ ?s], rule exI [of _ rq], rule exI [of _ s'], rule exI [of _ rs], rule exI [of _ sv], rule exI [of _ ?kvs], intro conjI rq(3) w(1,3))
      (use w(2,4) [unfolded h] in simp_all)
qed

end
