(* ===== verification/Spec2Isabelle.thy ===== *)
theory Spec2Isabelle
  imports Zset Hash_Kv Lcg_Random Arena Skip_List_Insert Http_Wire Encoding Query_String Shared_Mutex Partition_Lock Cache_Handlers
begin

text \<open>
  A verification development for zhi-cache, a key-value and sorted-set cache that is served over HTTP by the flare
  framework. All paths below are relative to \<open>src/\<close>.

  \<^bold>\<open>The program.\<close> A request arrives on a connection as bytes in a non-contiguous buffer. The HTTP/1.1 protocol object cuts a
  message off the buffer and parses it into a request with header fields. The HTTP service finds the handler registered for the path,
  runs it and completes the response, which the protocol object writes back. The handlers of the cache read their parameters
  off the path or the JSON body and call three managers: one for strings, one for sorted sets, one for the database on disk. The
  managers keep their data in hash tables with a lock per partition. A sorted set is a hash table of current scores and a
  skip list of all pairs ever added, whose nodes come from an arena. Batches and the loading of the database run on fibers.

  \<^bold>\<open>Conventions.\<close> The theory \<open>Prelude\<close> has the types all others share. A call that can fail returns \<open>fault + 'a\<close>, where a fault is a failed
  assertion or \<open>FLARE_CHECK\<close>, \<open>std::bad_alloc\<close>, \<open>std::length_error\<close>, another exception, or undefined behaviour. A call
  with a loop that may not end returns \<open>'a run\<close>, in which \<open>None\<close> is divergence. Machine integers are words at their width
  where the width matters. State is passed explicitly and returned. Code outside the repository is an argument of
  the definitions that use it: \<open>std::hash\<close>, \<open>operator new\<close>, LevelDB, JSON conversion, OpenSSL's base64, compressors. What
  is relied on is a named hypothesis (\<open>new_ok\<close>, \<open>leveldb_ok\<close>, \<open>evp_ok\<close> and the like), and every property with such a
  hypothesis comes with a witness that meets it.

  \<^bold>\<open>The storage engine (cache/utils, cache/storage/memory).\<close>
  \<^item> \<open>Lcg_Random\<close> (random.h): the generator is multiplication modulo \<open>2^31 - 1\<close> and runs through all its seeds.
  \<^item> \<open>Arena\<close> (arena.h, arena.cc): allocations are aligned and disjoint. This is the contract \<open>region_allocator\<close>.
  \<^item> \<open>Skip_List\<close>, \<open>Skip_List_Correct\<close>, \<open>Skip_List_Insert\<close> (skip_list.h): the operations over an explicit store of nodes; the invariant \<open>sl_ok\<close>
    and the searches under the contract \<open>key_order\<close>; insertion and the properties of the whole list. The search loops are
    partial functions, and the lemmas prove that they return.
  \<^item> \<open>Hash_Kv\<close> (concurrent_hash_map.h): the partitioned table is a finite map, and its pointers live as long as their nodes.
  \<^item> \<open>Shared_Mutex\<close> (flare/fiber/shared_mutex.h and .cc): the reader-writer lock of the partitions as a transition system of any number of
    fibers. Every reachable state meets the invariant \<open>sm_inv\<close>, which counts the fibers in each part of the code. From it follow
    exclusion, that no check fails, that calls end, and that no wakeup is lost.
  \<^item> \<open>Partition_Lock\<close> (concurrent_hash_map.h): calls interleaved on one partition, with reading and storing the map as separate
    steps. The contract \<open>rw_lock\<close>, met by the lock above, makes them atomic, which is what \<open>Hash_Kv\<close> builds on.
  \<^item> \<open>Zset\<close> (zset.h): what \<open>Range\<close> returns after any history of additions and deletions, when a history stops a build with assertions, and when a
    member is listed more than once, which a sorted set of the interface (openapi.yaml) never does.

  \<^bold>\<open>The framework (flare/base, flare/net/http, flare/rpc/protocol/http).\<close>
  \<^item> \<open>Flare_String\<close> (string.h, string.cc) and \<open>Encoding\<close> (encoding/): round trips of splitting, parsing, percent, hex and base64 coding,
    under the contract \<open>codec\<close>.
  \<^item> \<open>Byte_Set\<close> (experimental/byte_set.h), \<open>Net_Uri\<close>, \<open>Net_Uri_Correct\<close> (net/uri.h, net/uri.cc) and \<open>Query_String\<close> (query_string.h and .cc): the
    parser of URIs on the bitmap contract \<open>byte_bitmap\<close>, the texts it reads back and those it refuses, and the pairs of a query.
  \<^item> \<open>Hash_Map\<close> (internal/hash_map.h) and \<open>Http_Headers\<close> (http_headers.h and .cc): the hash map under the contract \<open>hash_key\<close>, met by the hash and
    equality that ignore case, and the header fields as a list.
  \<^item> \<open>Buffer\<close> (buffer.h, buffer.cc): chains of blocks are byte strings.
  \<^item> \<open>Http_Types\<close> (types.cc, http_message, http_request, http_response), \<open>Http_Io\<close> (buffer_io.cc) and \<open>Http_Wire\<close> (http11_protocol.cc): the tables,
    the readers and writers, and the round trip of a request over the wire.
  \<^item> \<open>Http_Service\<close> (service.cc, http_handler.cc, rpc/server.cc): routing, filters and the headers of a response.

  \<^bold>\<open>The cache (cache/manager, cache/handler, cache/server.cc).\<close>
  \<^item> \<open>Param_Parse\<close> (param_parse.cc): path parameters, over the part of \<open>std::regex\<close> the templates use.
  \<^item> \<open>Cache_Managers\<close> (cache/manager): strings, sorted sets that share one arena, and the database. The sorted sets are specified as a map
    from keys to the scores of members (\<open>sets_step\<close>); \<open>lists_range\<close> is what a listing has to be, and \<open>represents\<close> relates the structures to the map.
  \<^item> \<open>Cache_Handlers\<close> (cache/handler, server.cc): the handlers, the start of the server and the fibers they leave behind. A run (\<open>serve_all\<close>) is a sequence of
    requests and of fibers that run between them. The main theorem, \<open>Server_refines\<close>, spans all of the above: a started server answers every run as the
    specification (\<open>spec_state\<close>, \<open>spec_step\<close>, \<open>spec_answer\<close>) allows, or fails as it says (\<open>spec_fault\<close>), or runs out of memory.

  \<^bold>\<open>Bounds and fuel.\<close> There is no fuel in the loops. The one recursion with a depth argument is the rehash of \<open>Hash_Map\<close>, and
  its lemma \<open>insert_all_ok\<close> shows one level to be enough. The theorems on the lock hold for fewer than \<open>kMaxReaders\<close> (about a thousand
  million) fibers, the number its counter is made for. Its termination assumes that a weak exchange fails only on a changed
  value; exclusion does not.

  \<^bold>\<open>Not modelled.\<close> Memory orders: an atomic access takes effect at once, and the skip list, the managers, the handlers and the fibers they start run one
  at a time. The fiber runtime, its mutex and its condition variable, which are used by their documented behaviour. Sockets, event loops
  and TLS; the other protocols of flare (RPC, Redis, object storage), which no request to the cache reaches; logging, metrics, tracing and
  recording for replay, which do not change an answer; flags and start-up before \<open>Entry\<close>; floating-point parsing and
  \<open>Format\<close>; the reference counts of buffer blocks. The table in atomic_hash_table.h is included nowhere and does not compile
  when instantiated.
\<close>

end
